(* ===== verification/Prelude.thy ===== *)
theory Prelude
  imports Main "HOL-Library.Word" "HOL-Library.Monad_Syntax" "HOL-Library.Sublist"
begin

text \<open>
  Shared vocabulary of the development.

  \<^item> C pointers are addresses (\<open>addr\<close>, a \<open>nat\<close>) with address 0 as the null
    pointer \<open>NULL\<close>.
  \<^item> An operation of the kernel that can halt the machine returns an \<open>option\<close>:
    \<open>None\<close> is a failed \<open>ASSERT\<close>, a \<open>PANIC\<close>, an access that no object of
    the model backs, or (for a loop) that the loop does not end. An error that the C code
    reports to its caller (a \<open>false\<close>, a \<open>-1\<close>, a null pointer) is an ordinary
    value. Sequencing is the \<open>do\<close> notation of \<open>Monad_Syntax\<close> over
    \<open>Option.bind\<close>.
  \<^item> \<open>size_t\<close> values are \<open>nat\<close>s below \<open>2 ^ 32\<close>; where an addition
    of the source can wrap around it is written \<open>szadd\<close>. Bit-level code uses
    \<open>32 word\<close> and \<open>64 word\<close>.
\<close>

unbundle bit_operations_syntax

section \<open>Addresses, assertions, collections of rules\<close>

type_synonym addr = nat
type_synonym byte = "8 word"
type_synonym u32 = "32 word"
type_synonym u64 = "64 word"

abbreviation (input) NULL :: addr where
  "NULL \<equiv> 0"

definition assert_c :: "bool \<Rightarrow> unit option" where
  "assert_c b = (if b then Some () else None)"

named_theorems ret_iff

lemma assert_c_simps [simp]: "assert_c True = Some ()" "assert_c False = None"
  by (simp_all add: assert_c_def)

lemma assert_c_Some [simp, ret_iff]: "assert_c b = Some u \<longleftrightarrow> b"
  by (simp add: assert_c_def)

lemma assert_c_None [simp]: "assert_c b = None \<longleftrightarrow> \<not> b"
  by (simp add: assert_c_def)

lemma bind_assert_c: "assert_c b \<bind> f = (if b then f () else None)"
  by (simp add: assert_c_def)

declare Option.bind_eq_Some_conv [ret_iff]

lemma bind_ret [ret_iff]: "(Some x \<bind> f) = Some y \<longleftrightarrow> f x = Some y"
  by simp

section \<open>Rounding (lib/round.h)\<close>

definition ROUND_UP :: "nat \<Rightarrow> nat \<Rightarrow> nat" where
  "ROUND_UP x step = (x + step - 1) div step * step"

definition DIV_ROUND_UP :: "nat \<Rightarrow> nat \<Rightarrow> nat" where
  "DIV_ROUND_UP x step = (x + step - 1) div step"

definition ROUND_DOWN :: "nat \<Rightarrow> nat \<Rightarrow> nat" where
  "ROUND_DOWN x step = x div step * step"

lemma DIV_ROUND_UP_0 [simp]: "0 < step \<Longrightarrow> DIV_ROUND_UP 0 step = 0"
  by (simp add: DIV_ROUND_UP_def)

lemma DIV_ROUND_UP_iff:
  assumes "0 < step"
  shows "n < DIV_ROUND_UP x step \<longleftrightarrow> n * step < x"
proof -
  have "n < (x + step - 1) div step \<longleftrightarrow> Suc n \<le> (x + step - 1) div step"
    by (simp add: Suc_le_eq)
  also have "\<dots> \<longleftrightarrow> Suc n * step \<le> x + step - 1"
    using assms by (rule less_eq_div_iff_mult_less_eq)
  also have "\<dots> \<longleftrightarrow> n * step < x"
    using assms by auto
  finally show ?thesis by (simp add: DIV_ROUND_UP_def)
qed

lemma DIV_ROUND_UP_le_iff:
  assumes "0 < step"
  shows "DIV_ROUND_UP x step \<le> n \<longleftrightarrow> x \<le> n * step"
  using DIV_ROUND_UP_iff [OF assms, of n x] by (simp add: not_less [symmetric])

lemma DIV_ROUND_UP_mono: "0 < step \<Longrightarrow> x \<le> y \<Longrightarrow> DIV_ROUND_UP x step \<le> DIV_ROUND_UP y step"
  by (simp add: DIV_ROUND_UP_def div_le_mono)

lemma ROUND_UP_conv: "ROUND_UP x step = DIV_ROUND_UP x step * step"
  by (simp add: ROUND_UP_def DIV_ROUND_UP_def)

lemma ROUND_UP_ge: "0 < step \<Longrightarrow> x \<le> ROUND_UP x step"
  using DIV_ROUND_UP_le_iff [of step x "DIV_ROUND_UP x step"] by (simp add: ROUND_UP_conv)

section \<open>Unsigned sizes that wrap around\<close>

definition SIZE_MAX :: nat where
  "SIZE_MAX = 4294967295"

definition szadd :: "nat \<Rightarrow> nat \<Rightarrow> nat" where
  "szadd a b = (a + b) mod (SIZE_MAX + 1)"

lemma szadd_exact [simp]: "a + b \<le> SIZE_MAX \<Longrightarrow> szadd a b = a + b"
  by (simp add: szadd_def)

lemma szadd_bound: "szadd a b \<le> SIZE_MAX"
  by (simp add: szadd_def less_Suc_eq_le [symmetric])

section \<open>Lists\<close>

lemma mem_tlD: "x \<in> set (tl xs) \<Longrightarrow> x \<in> set xs"
  by (cases xs) auto

lemma hd_append_singleton: "hd (xs @ [y]) = (if xs = [] then y else hd xs)"
  by simp

lemma last_Cons_append [simp]: "last (x # xs @ [y]) = y"
  by simp

lemma butlast_snoc_mem: "distinct (xs @ [x]) \<Longrightarrow> x \<notin> set xs"
  by simp

lemma in_set_butlast_append_Cons: "x \<in> set (butlast (xs @ y # ys)) \<longleftrightarrow> x \<in> set xs \<or> x \<in> set (butlast (y # ys))"
  by (simp add: butlast_append)

text \<open>Running one operation over a list of arguments, and one operation a number of times.\<close>

fun push_all :: "('e \<Rightarrow> 'm \<Rightarrow> 'm option) \<Rightarrow> 'e list \<Rightarrow> 'm \<Rightarrow> 'm option" where
  "push_all f [] m = Some m"
| "push_all f (e # es) m = do { m \<leftarrow> f e m; push_all f es m }"

fun pop_many :: "('m \<Rightarrow> ('e \<times> 'm) option) \<Rightarrow> nat \<Rightarrow> 'm \<Rightarrow> ('e list \<times> 'm) option" where
  "pop_many f 0 m = Some ([], m)"
| "pop_many f (Suc n) m = do { (e, m) \<leftarrow> f m; (es, m) \<leftarrow> pop_many f n m; Some (e # es, m) }"

section \<open>Overwriting part of a buffer\<close>

text \<open>The effect of \<open>memcpy (dst + ofs, src, length src)\<close> on the buffer \<open>dst\<close>.\<close>

definition memcpy_at :: "'a list \<Rightarrow> nat \<Rightarrow> 'a list \<Rightarrow> 'a list" where
  "memcpy_at dst ofs src = take ofs dst @ src @ drop (ofs + length src) dst"

lemma length_memcpy_at [simp]: "ofs + length src \<le> length dst \<Longrightarrow> length (memcpy_at dst ofs src) = length dst"
  by (simp add: memcpy_at_def)

lemma memcpy_at_nth:
  "ofs + length src \<le> length dst \<Longrightarrow> i < length dst \<Longrightarrow>
     memcpy_at dst ofs src ! i = (if ofs \<le> i \<and> i < ofs + length src then src ! (i - ofs) else dst ! i)"
  by (auto simp: memcpy_at_def nth_append)

lemma memcpy_at_all [simp]: "length src = length dst \<Longrightarrow> memcpy_at dst 0 src = src"
  by (simp add: memcpy_at_def)

lemma memcpy_at_read: "ofs + length src \<le> length dst \<Longrightarrow> take (length src) (drop ofs (memcpy_at dst ofs src)) = src"
  by (simp add: memcpy_at_def)

section \<open>Bounds of words\<close>

lemma unat_lt32 [simp]: "unat (w :: u32) < 4294967296"
proof -
  have "unat w < 2 ^ LENGTH(32)" by (rule unsigned_less)
  then show ?thesis by simp
qed

lemma unat_lt64 [simp]: "unat (w :: u64) < 18446744073709551616"
proof -
  have "unat w < 2 ^ LENGTH(64)" by (rule unsigned_less)
  then show ?thesis by simp
qed

lemma unat_lt8 [simp]: "unat (w :: byte) < 256"
proof -
  have "unat w < 2 ^ LENGTH(8)" by (rule unsigned_less)
  then show ?thesis by simp
qed

end
