(* ===== verification/Kernel_List.thy ===== *)
theory Kernel_List
  imports Prelude
begin

text \<open>
  The intrusive doubly linked list of \<open>lib/kernel/list.c\<close>.

  A \<open>struct list_elem\<close> is an address; \<open>lmem\<close> is the memory that holds the
  \<open>prev\<close> and \<open>next\<close> members of every element. A \<open>struct list\<close> is the pair
  of addresses of its two header elements. Loops that follow links are
  \<^theory_text>\<open>partial_function (option)\<close>s: on a memory that is not a well-formed list they
  may not end. \<open>lrep m l xs\<close> says that the memory holds the list \<open>l\<close> with interior
  elements \<open>xs\<close>; the lemmas show that on such a memory every operation returns and
  computes the list operation it is named after.
\<close>

section \<open>Elements, lists, memory (list.h)\<close>

record lmem =
  lprev :: "addr \<Rightarrow> addr"
  lnext :: "addr \<Rightarrow> addr"

record klist =
  khead :: addr
  ktail :: addr

type_synonym less_func = "addr \<Rightarrow> addr \<Rightarrow> bool"

definition set_prev :: "addr \<Rightarrow> addr \<Rightarrow> lmem \<Rightarrow> lmem" where
  "set_prev e v m = m\<lparr>lprev := (lprev m)(e := v)\<rparr>"

definition set_next :: "addr \<Rightarrow> addr \<Rightarrow> lmem \<Rightarrow> lmem" where
  "set_next e v m = m\<lparr>lnext := (lnext m)(e := v)\<rparr>"

definition is_head :: "lmem \<Rightarrow> addr \<Rightarrow> bool" where
  "is_head m elem = (elem \<noteq> NULL \<and> lprev m elem = NULL \<and> lnext m elem \<noteq> NULL)"

definition is_interior :: "lmem \<Rightarrow> addr \<Rightarrow> bool" where
  "is_interior m elem = (elem \<noteq> NULL \<and> lprev m elem \<noteq> NULL \<and> lnext m elem \<noteq> NULL)"

definition is_tail :: "lmem \<Rightarrow> addr \<Rightarrow> bool" where
  "is_tail m elem = (elem \<noteq> NULL \<and> lprev m elem \<noteq> NULL \<and> lnext m elem = NULL)"

section \<open>Operations (list.c)\<close>

definition list_init :: "klist \<Rightarrow> lmem \<Rightarrow> lmem option" where
  "list_init list m = do {
     assert_c (khead list \<noteq> NULL);
     Some (set_next (ktail list) NULL
            (set_prev (ktail list) (khead list)
              (set_next (khead list) (ktail list)
                (set_prev (khead list) NULL m)))) }"

definition list_begin :: "lmem \<Rightarrow> klist \<Rightarrow> addr option" where
  "list_begin m list = do { assert_c (khead list \<noteq> NULL); Some (lnext m (khead list)) }"

definition list_next :: "lmem \<Rightarrow> addr \<Rightarrow> addr option" where
  "list_next m elem = do { assert_c (is_head m elem \<or> is_interior m elem); Some (lnext m elem) }"

definition list_end :: "klist \<Rightarrow> addr option" where
  "list_end list = do { assert_c (khead list \<noteq> NULL); Some (ktail list) }"

definition list_rbegin :: "lmem \<Rightarrow> klist \<Rightarrow> addr option" where
  "list_rbegin m list = do { assert_c (khead list \<noteq> NULL); Some (lprev m (ktail list)) }"

definition list_prev :: "lmem \<Rightarrow> addr \<Rightarrow> addr option" where
  "list_prev m elem = do { assert_c (is_interior m elem \<or> is_tail m elem); Some (lprev m elem) }"

definition list_rend :: "klist \<Rightarrow> addr option" where
  "list_rend list = do { assert_c (khead list \<noteq> NULL); Some (khead list) }"

definition list_head :: "klist \<Rightarrow> addr option" where
  "list_head list = do { assert_c (khead list \<noteq> NULL); Some (khead list) }"

definition list_tail :: "klist \<Rightarrow> addr option" where
  "list_tail list = do { assert_c (khead list \<noteq> NULL); Some (ktail list) }"

definition list_insert :: "addr \<Rightarrow> addr \<Rightarrow> lmem \<Rightarrow> lmem option" where
  "list_insert before elem m = do {
     assert_c (is_interior m before \<or> is_tail m before);
     assert_c (elem \<noteq> NULL);
     let m = set_prev elem (lprev m before) m;
     let m = set_next elem before m;
     let m = set_next (lprev m before) elem m;
     let m = set_prev before elem m;
     Some m }"

definition list_splice :: "addr \<Rightarrow> addr \<Rightarrow> addr \<Rightarrow> lmem \<Rightarrow> lmem option" where
  "list_splice before first last1 m = do {
     assert_c (is_interior m before \<or> is_tail m before);
     if first = last1 then Some m
     else do {
       last0 \<leftarrow> list_prev m last1;
       assert_c (is_interior m first);
       assert_c (is_interior m last0);
       let m = set_next (lprev m first) (lnext m last0) m;
       let m = set_prev (lnext m last0) (lprev m first) m;
       let m = set_prev first (lprev m before) m;
       let m = set_next last0 before m;
       let m = set_next (lprev m before) first m;
       let m = set_prev before last0 m;
       Some m } }"

definition list_push_front :: "klist \<Rightarrow> addr \<Rightarrow> lmem \<Rightarrow> lmem option" where
  "list_push_front list elem m = do { b \<leftarrow> list_begin m list; list_insert b elem m }"

definition list_push_back :: "klist \<Rightarrow> addr \<Rightarrow> lmem \<Rightarrow> lmem option" where
  "list_push_back list elem m = do { e \<leftarrow> list_end list; list_insert e elem m }"

definition list_remove :: "addr \<Rightarrow> lmem \<Rightarrow> (addr \<times> lmem) option" where
  "list_remove elem m = do {
     assert_c (is_interior m elem);
     let m = set_next (lprev m elem) (lnext m elem) m;
     let m = set_prev (lnext m elem) (lprev m elem) m;
     Some (lnext m elem, m) }"

definition list_empty :: "lmem \<Rightarrow> klist \<Rightarrow> bool option" where
  "list_empty m list = do { b \<leftarrow> list_begin m list; e \<leftarrow> list_end list; Some (b = e) }"

definition list_front :: "lmem \<Rightarrow> klist \<Rightarrow> addr option" where
  "list_front m list = do {
     empty \<leftarrow> list_empty m list;
     assert_c (\<not> empty);
     Some (lnext m (khead list)) }"

definition list_back :: "lmem \<Rightarrow> klist \<Rightarrow> addr option" where
  "list_back m list = do {
     empty \<leftarrow> list_empty m list;
     assert_c (\<not> empty);
     Some (lprev m (ktail list)) }"

definition list_pop_front :: "klist \<Rightarrow> lmem \<Rightarrow> (addr \<times> lmem) option" where
  "list_pop_front list m = do {
     front \<leftarrow> list_front m list;
     (_, m) \<leftarrow> list_remove front m;
     Some (front, m) }"

definition list_pop_back :: "klist \<Rightarrow> lmem \<Rightarrow> (addr \<times> lmem) option" where
  "list_pop_back list m = do {
     back \<leftarrow> list_back m list;
     (_, m) \<leftarrow> list_remove back m;
     Some (back, m) }"

partial_function (option) list_size_loop :: "lmem \<Rightarrow> addr \<Rightarrow> addr \<Rightarrow> nat \<Rightarrow> nat option" where
  "list_size_loop m e end cnt =
     (if e = end then Some cnt
      else do { e' \<leftarrow> list_next m e; list_size_loop m e' end (cnt + 1) })"

definition list_size :: "lmem \<Rightarrow> klist \<Rightarrow> nat option" where
  "list_size m list = do { b \<leftarrow> list_begin m list; e \<leftarrow> list_end list; list_size_loop m b e 0 }"

text \<open>
  \<open>swap (&e->prev, &e->next)\<close> exchanges the two links of one element; the last two swaps of
  \<open>list_reverse\<close> exchange links of two different elements. Reading through a null pointer
  is \<open>None\<close>.
\<close>

definition swap_links :: "addr \<Rightarrow> lmem \<Rightarrow> lmem option" where
  "swap_links e m = do {
     assert_c (e \<noteq> NULL);
     Some (set_next e (lprev m e) (set_prev e (lnext m e) m)) }"

partial_function (option) list_reverse_loop :: "addr \<Rightarrow> addr \<Rightarrow> lmem \<Rightarrow> lmem option" where
  "list_reverse_loop e end m =
     (if e = end then Some m
      else do { m' \<leftarrow> swap_links e m; list_reverse_loop (lprev m' e) end m' })"

definition list_reverse :: "klist \<Rightarrow> lmem \<Rightarrow> lmem option" where
  "list_reverse list m = do {
     empty \<leftarrow> list_empty m list;
     if empty then Some m
     else do {
       b \<leftarrow> list_begin m list;
       e \<leftarrow> list_end list;
       m \<leftarrow> list_reverse_loop b e m;
       let hn = lnext m (khead list);
       let tp = lprev m (ktail list);
       let m = set_prev (ktail list) hn (set_next (khead list) tp m);
       assert_c (lnext m (khead list) \<noteq> NULL \<and> lprev m (ktail list) \<noteq> NULL);
       let p = lprev m (lnext m (khead list));
       let n = lnext m (lprev m (ktail list));
       let a = lnext m (khead list);
       let b = lprev m (ktail list);
       Some (set_next b p (set_prev a n m)) } }"

section \<open>Ordered lists (list.c)\<close>

text \<open>
  \<open>lt\<close> (the C parameter \<open>less\<close>) is the client's \<open>list_less_func\<close> with its auxiliary data applied: a
  function of two elements that reads, and does not write, what surrounds them.
\<close>

partial_function (option) is_sorted_loop :: "lmem \<Rightarrow> less_func \<Rightarrow> addr \<Rightarrow> addr \<Rightarrow> bool option" where
  "is_sorted_loop m lt a b = do {
     a' \<leftarrow> list_next m a;
     if a' = b then Some True
     else do {
       p \<leftarrow> list_prev m a';
       if lt a' p then Some False else is_sorted_loop m lt a' b } }"

definition is_sorted :: "lmem \<Rightarrow> less_func \<Rightarrow> addr \<Rightarrow> addr \<Rightarrow> bool option" where
  "is_sorted m lt a b = (if a \<noteq> b then is_sorted_loop m lt a b else Some True)"

partial_function (option) find_end_of_run_loop :: "lmem \<Rightarrow> less_func \<Rightarrow> addr \<Rightarrow> addr \<Rightarrow> addr option" where
  "find_end_of_run_loop m lt a b = do {
     a' \<leftarrow> list_next m a;
     if a' = b then Some a'
     else do {
       p \<leftarrow> list_prev m a';
       if \<not> lt a' p then find_end_of_run_loop m lt a' b else Some a' } }"

definition find_end_of_run :: "lmem \<Rightarrow> less_func \<Rightarrow> addr \<Rightarrow> addr \<Rightarrow> addr option" where
  "find_end_of_run m lt a b = do {
     assert_c (a \<noteq> NULL);
     assert_c (b \<noteq> NULL);
     assert_c (a \<noteq> b);
     find_end_of_run_loop m lt a b }"

partial_function (option) inplace_merge_loop :: "less_func \<Rightarrow> addr \<Rightarrow> addr \<Rightarrow> addr \<Rightarrow> lmem \<Rightarrow> lmem option" where
  "inplace_merge_loop lt a0 a1b0 b1 m =
     (if a0 \<noteq> a1b0 \<and> a1b0 \<noteq> b1
      then if \<not> lt a1b0 a0
           then do { a0' \<leftarrow> list_next m a0; inplace_merge_loop lt a0' a1b0 b1 m }
           else do {
             a1b0' \<leftarrow> list_next m a1b0;
             p \<leftarrow> list_prev m a1b0';
             m' \<leftarrow> list_splice a0 p a1b0' m;
             inplace_merge_loop lt a0 a1b0' b1 m' }
      else Some m)"

definition inplace_merge :: "less_func \<Rightarrow> addr \<Rightarrow> addr \<Rightarrow> addr \<Rightarrow> lmem \<Rightarrow> lmem option" where
  "inplace_merge lt a0 a1b0 b1 m = do {
     assert_c (a0 \<noteq> NULL);
     assert_c (a1b0 \<noteq> NULL);
     assert_c (b1 \<noteq> NULL);
     s1 \<leftarrow> is_sorted m lt a0 a1b0;
     assert_c s1;
     s2 \<leftarrow> is_sorted m lt a1b0 b1;
     assert_c s2;
     inplace_merge_loop lt a0 a1b0 b1 m }"

text \<open>One pass of \<open>list_sort\<close>: the \<open>for\<close> loop, returning \<open>output_run_cnt\<close>.\<close>

partial_function (option) list_sort_pass :: "less_func \<Rightarrow> addr \<Rightarrow> addr \<Rightarrow> nat \<Rightarrow> lmem \<Rightarrow> (nat \<times> lmem) option" where
  "list_sort_pass lt a0 end cnt m =
     (if a0 = end then Some (cnt, m)
      else do {
        a1b0 \<leftarrow> find_end_of_run m lt a0 end;
        if a1b0 = end then Some (cnt + 1, m)
        else do {
          b1 \<leftarrow> find_end_of_run m lt a1b0 end;
          m' \<leftarrow> inplace_merge lt a0 a1b0 b1 m;
          list_sort_pass lt b1 end (cnt + 1) m' } })"

partial_function (option) list_sort_loop :: "less_func \<Rightarrow> klist \<Rightarrow> lmem \<Rightarrow> lmem option" where
  "list_sort_loop lt list m = do {
     b \<leftarrow> list_begin m list;
     e \<leftarrow> list_end list;
     r \<leftarrow> list_sort_pass lt b e 0 m;
     if fst r > 1 then list_sort_loop lt list (snd r) else Some (snd r) }"

definition list_sort :: "less_func \<Rightarrow> klist \<Rightarrow> lmem \<Rightarrow> lmem option" where
  "list_sort lt list m = do {
     assert_c (khead list \<noteq> NULL);
     m \<leftarrow> list_sort_loop lt list m;
     b \<leftarrow> list_begin m list;
     e \<leftarrow> list_end list;
     s \<leftarrow> is_sorted m lt b e;
     assert_c s;
     Some m }"

partial_function (option) find_insert_pos :: "lmem \<Rightarrow> less_func \<Rightarrow> addr \<Rightarrow> addr \<Rightarrow> addr \<Rightarrow> addr option" where
  "find_insert_pos m lt elem e end =
     (if e = end then Some e
      else if lt elem e then Some e
      else do { e' \<leftarrow> list_next m e; find_insert_pos m lt elem e' end })"

definition list_insert_ordered :: "less_func \<Rightarrow> klist \<Rightarrow> addr \<Rightarrow> lmem \<Rightarrow> lmem option" where
  "list_insert_ordered lt list elem m = do {
     assert_c (khead list \<noteq> NULL);
     assert_c (elem \<noteq> NULL);
     b \<leftarrow> list_begin m list;
     e \<leftarrow> list_end list;
     p \<leftarrow> find_insert_pos m lt elem b e;
     list_insert p elem m }"

text \<open>\<open>duplicates\<close> is \<open>None\<close> for the null pointer.\<close>

partial_function (option) list_unique_loop :: "less_func \<Rightarrow> klist option \<Rightarrow> addr \<Rightarrow> addr \<Rightarrow> lmem \<Rightarrow> lmem option" where
  "list_unique_loop lt duplicates elem end m = do {
     nxt \<leftarrow> list_next m elem;
     if nxt = end then Some m
     else if \<not> lt elem nxt \<and> \<not> lt nxt elem
     then do {
       r \<leftarrow> list_remove nxt m;
       m' \<leftarrow> (case duplicates of None \<Rightarrow> Some (snd r)
              | Some d \<Rightarrow> list_push_back d nxt (snd r));
       list_unique_loop lt duplicates elem end m' }
     else list_unique_loop lt duplicates nxt end m }"

definition list_unique :: "less_func \<Rightarrow> klist \<Rightarrow> klist option \<Rightarrow> lmem \<Rightarrow> lmem option" where
  "list_unique lt list duplicates m = do {
     assert_c (khead list \<noteq> NULL);
     empty \<leftarrow> list_empty m list;
     if empty then Some m
     else do {
       elem \<leftarrow> list_begin m list;
       e \<leftarrow> list_end list;
       list_unique_loop lt duplicates elem e m } }"

partial_function (option) list_max_loop :: "lmem \<Rightarrow> less_func \<Rightarrow> addr \<Rightarrow> addr \<Rightarrow> addr \<Rightarrow> addr option" where
  "list_max_loop m lt mx e end =
     (if e = end then Some mx
      else do {
        e' \<leftarrow> list_next m e;
        list_max_loop m lt (if lt mx e then e else mx) e' end })"

definition list_max :: "lmem \<Rightarrow> less_func \<Rightarrow> klist \<Rightarrow> addr option" where
  "list_max m lt list = do {
     mx \<leftarrow> list_begin m list;
     e \<leftarrow> list_end list;
     if mx \<noteq> e
     then do { n \<leftarrow> list_next m mx; list_max_loop m lt mx n e }
     else Some mx }"

partial_function (option) list_min_loop :: "lmem \<Rightarrow> less_func \<Rightarrow> addr \<Rightarrow> addr \<Rightarrow> addr \<Rightarrow> addr option" where
  "list_min_loop m lt mn e end =
     (if e = end then Some mn
      else do {
        e' \<leftarrow> list_next m e;
        list_min_loop m lt (if lt e mn then e else mn) e' end })"

definition list_min :: "lmem \<Rightarrow> less_func \<Rightarrow> klist \<Rightarrow> addr option" where
  "list_min m lt list = do {
     mn \<leftarrow> list_begin m list;
     e \<leftarrow> list_end list;
     if mn \<noteq> e
     then do { n \<leftarrow> list_next m mn; list_min_loop m lt mn n e }
     else Some mn }"

section \<open>Well-formed lists\<close>

text \<open>
  \<open>links m ns\<close>: consecutive elements of \<open>ns\<close> point at each other.
  \<open>chain m ns\<close>: in addition \<open>ns\<close> has no repetition and no null pointer, and its two
  ends carry the null links of the headers. \<open>lrep m l xs\<close>: the list \<open>l\<close> holds the
  interior elements \<open>xs\<close>.
\<close>

fun links :: "lmem \<Rightarrow> addr list \<Rightarrow> bool" where
  "links m (a # b # ns) = (lnext m a = b \<and> lprev m b = a \<and> links m (b # ns))"
| "links m _ = True"

definition chain :: "lmem \<Rightarrow> addr list \<Rightarrow> bool" where
  "chain m ns = (ns \<noteq> [] \<and> distinct ns \<and> NULL \<notin> set ns \<and> links m ns
     \<and> lprev m (hd ns) = NULL \<and> lnext m (last ns) = NULL)"

definition lrep :: "lmem \<Rightarrow> klist \<Rightarrow> addr list \<Rightarrow> bool" where
  "lrep m l xs = chain m (khead l # xs @ [ktail l])"

definition same_outside :: "addr set \<Rightarrow> lmem \<Rightarrow> lmem \<Rightarrow> bool" where
  "same_outside S m m' = (\<forall>x. x \<notin> S \<longrightarrow> lprev m' x = lprev m x \<and> lnext m' x = lnext m x)"

section \<open>Lemmas on links and chains\<close>

lemma set_prev_simps [simp]:
  "lprev (set_prev e v m) x = (if x = e then v else lprev m x)"
  "lnext (set_prev e v m) x = lnext m x"
  by (simp_all add: set_prev_def)

lemma set_next_simps [simp]:
  "lnext (set_next e v m) x = (if x = e then v else lnext m x)"
  "lprev (set_next e v m) x = lprev m x"
  by (simp_all add: set_next_def)

lemma head_or_interior: "is_head m e \<or> is_interior m e \<longleftrightarrow> e \<noteq> NULL \<and> lnext m e \<noteq> NULL"
  by (auto simp: is_head_def is_interior_def)

lemma interior_or_tail: "is_interior m e \<or> is_tail m e \<longleftrightarrow> e \<noteq> NULL \<and> lprev m e \<noteq> NULL"
  by (auto simp: is_tail_def is_interior_def)

lemmas elem_kind = head_or_interior interior_or_tail

lemma links_append_Cons: "links m (us @ a # vs) \<longleftrightarrow> links m (us @ [a]) \<and> links m (a # vs)"
proof (induction us)
  case (Cons u us)
  then show ?case by (cases us) auto
qed simp

lemma links_append: "links m (us @ a # b # vs) \<longleftrightarrow>
    links m (us @ [a]) \<and> lnext m a = b \<and> lprev m b = a \<and> links m (b # vs)"
  by (subst links_append_Cons) auto

lemma links_cong:
  assumes "\<forall>a \<in> set (butlast ns). lnext m' a = lnext m a"
    and "\<forall>a \<in> set (tl ns). lprev m' a = lprev m a"
  shows "links m' ns = links m ns"
  using assms
proof (induction ns rule: induct_list012)
  case (3 a b ns)
  then have "links m' (b # ns) = links m (b # ns)"
    by (cases ns) auto
  with 3 show ?case by auto
qed auto

lemma same_outsideD:
  "same_outside S m m' \<Longrightarrow> x \<notin> S \<Longrightarrow> lprev m' x = lprev m x"
  "same_outside S m m' \<Longrightarrow> x \<notin> S \<Longrightarrow> lnext m' x = lnext m x"
  by (simp_all add: same_outside_def)

lemma same_outside_refl [simp]: "same_outside S m m"
  by (simp add: same_outside_def)

lemma same_outside_trans: "same_outside S m m' \<Longrightarrow> same_outside S m' m'' \<Longrightarrow> same_outside S m m''"
  by (simp add: same_outside_def)

lemma same_outside_mono: "same_outside S m m' \<Longrightarrow> S \<subseteq> T \<Longrightarrow> same_outside T m m'"
  by (auto simp: same_outside_def)

lemma chain_frame:
  assumes "same_outside S m m'" and "set ns \<inter> S = {}"
  shows "chain m' ns = chain m ns"
proof -
  have eq: "x \<in> set ns \<Longrightarrow> lprev m' x = lprev m x \<and> lnext m' x = lnext m x" for x
    using assms by (auto simp: same_outside_def)
  have "links m' ns = links m ns"
    by (rule links_cong) (use eq in \<open>auto dest: in_set_butlastD mem_tlD\<close>)
  then show ?thesis
    using eq by (auto simp: chain_def)
qed

lemma lrep_frame:
  assumes "same_outside S m m'" and "khead l \<notin> S" and "ktail l \<notin> S" and "set xs \<inter> S = {}"
  shows "lrep m' l xs = lrep m l xs"
  unfolding lrep_def using assms(2-) by (intro chain_frame [OF assms(1)]) auto

lemma chain_adj:
  assumes "chain m (us @ a # b # vs)"
  shows "lnext m a = b" and "lprev m b = a" and "a \<noteq> NULL" and "b \<noteq> NULL" and "a \<noteq> b"
  using assms by (auto simp: chain_def links_append)

lemma chain_list_next: "chain m (us @ a # b # vs) \<Longrightarrow> list_next m a = Some b"
  using chain_adj [of m us a b vs] by (simp add: list_next_def elem_kind)

lemma chain_list_prev: "chain m (us @ a # b # vs) \<Longrightarrow> list_prev m b = Some a"
  using chain_adj [of m us a b vs] by (simp add: list_prev_def elem_kind)

lemma chain_prev_nonnull: "chain m (us @ a # b # vs) \<Longrightarrow> is_interior m b \<or> is_tail m b"
  using chain_adj [of m us a b vs] by (simp add: elem_kind)

lemma chain_interior:
  assumes "chain m (us @ a # b # c # vs)"
  shows "is_interior m b"
proof -
  have "chain m ((us @ [a]) @ b # c # vs)" using assms by simp
  then show ?thesis
    using chain_adj [of m us a b "c # vs", OF assms] chain_adj [of m "us @ [a]" b c vs]
    by (simp add: is_interior_def)
qed

section \<open>Insertion, removal, splicing on chains\<close>

lemma chain_insert:
  assumes c: "chain m (us @ p # b # vs)" and e: "e \<noteq> NULL" "e \<notin> set (us @ p # b # vs)"
  shows "\<exists>m'. list_insert b e m = Some m' \<and> chain m' (us @ p # e # b # vs)
           \<and> same_outside {p, e, b} m m'"
proof -
  let ?m' = "set_prev b e (set_next p e (set_next e b (set_prev e p m)))"
  note adj = chain_adj [OF c]
  have ins: "list_insert b e m = Some ?m'"
    using adj e by (auto simp: list_insert_def elem_kind Let_def)
  have d: "distinct (us @ p # b # vs)" "links m (us @ [p])" "links m (b # vs)"
    using c by (auto simp: chain_def links_append)
  have 1: "links ?m' (us @ [p]) = links m (us @ [p])"
    by (rule links_cong) (use d e in \<open>auto dest: mem_tlD\<close>)
  have 2: "links ?m' (b # vs) = links m (b # vs)"
    by (rule links_cong) (use d e in \<open>auto dest: in_set_butlastD split: if_splits\<close>)
  have "links ?m' (us @ p # e # b # vs)"
    using 1 2 d e by (simp add: links_append)
  moreover have "lprev ?m' (hd (us @ [p])) = lprev m (hd (us @ [p]))"
    using d e by (cases us) auto
  moreover have "lnext ?m' (last (b # vs)) = lnext m (last (b # vs))"
    using d e by (auto dest: last_in_set)
  ultimately have "chain ?m' (us @ p # e # b # vs)"
    using c e by (auto simp: chain_def hd_append)
  moreover have "same_outside {p, e, b} m ?m'"
    by (simp add: same_outside_def)
  ultimately show ?thesis using ins by blast
qed

lemma chain_remove:
  assumes c: "chain m (us @ p # e # n # vs)"
  shows "\<exists>m'. list_remove e m = Some (n, m') \<and> chain m' (us @ p # n # vs)
           \<and> same_outside {p, n} m m'"
proof -
  let ?m' = "set_prev n p (set_next p n m)"
  note adj = chain_adj [OF c]
  have c2: "chain m ((us @ [p]) @ e # n # vs)" using c by simp
  note adj2 = chain_adj [OF c2]
  have d: "distinct (us @ p # e # n # vs)" "links m (us @ [p])" "links m (n # vs)"
    using c by (auto simp: chain_def links_append)
  have rem: "list_remove e m = Some (n, ?m')"
    using adj adj2 d chain_interior [OF c] by (auto simp: list_remove_def Let_def)
  have 1: "links ?m' (us @ [p]) = links m (us @ [p])"
    by (rule links_cong) (use d in \<open>auto dest: mem_tlD\<close>)
  have 2: "links ?m' (n # vs) = links m (n # vs)"
    by (rule links_cong) (use d in \<open>auto dest: in_set_butlastD split: if_splits\<close>)
  have "links ?m' (us @ p # n # vs)"
    using 1 2 d by (simp add: links_append)
  moreover have "lprev ?m' (hd (us @ [p])) = lprev m (hd (us @ [p]))"
    using d by (cases us) auto
  moreover have "lnext ?m' (last (n # vs)) = lnext m (last (n # vs))"
    using d by (auto dest: last_in_set)
  ultimately have "chain ?m' (us @ p # n # vs)"
    using c by (auto simp: chain_def hd_append)
  moreover have "same_outside {p, n} m ?m'"
    by (simp add: same_outside_def)
  ultimately show ?thesis using rem by blast
qed

lemma links_append2:
  assumes "xs \<noteq> []" and "ys \<noteq> []"
  shows "links m (xs @ ys) \<longleftrightarrow> links m xs \<and> links m ys \<and> lnext m (last xs) = hd ys \<and> lprev m (hd ys) = last xs"
proof -
  obtain us a where "xs = us @ [a]" using assms(1) by (metis append_butlast_last_id)
  moreover obtain b vs where "ys = b # vs" using assms(2) by (cases ys) auto
  ultimately show ?thesis by (auto simp: links_append)
qed

lemma last_notin_butlast: "distinct xs \<Longrightarrow> xs \<noteq> [] \<Longrightarrow> last xs \<notin> set (butlast xs)"
  by (metis append_butlast_last_id distinct_append disjoint_iff list.set_intros(1))

lemma hd_notin_tl: "distinct xs \<Longrightarrow> xs \<noteq> [] \<Longrightarrow> hd xs \<notin> set (tl xs)"
  by (cases xs) auto

lemmas seg_ends = last_notin_butlast hd_notin_tl last_in_set hd_in_set in_set_butlastD mem_tlD

lemma chain_interior_mem:
  assumes c: "chain m (U @ X @ V)" and ne: "U \<noteq> []" "V \<noteq> []" and x: "x \<in> set X"
  shows "is_interior m x"
proof -
  obtain X1 X2 where X: "X = X1 @ x # X2" using x by (meson split_list)
  obtain us p where us: "U @ X1 = us @ [p]" using ne(1) by (metis append_is_Nil_conv append_butlast_last_id)
  obtain n vs where vs: "X2 @ V = n # vs" using ne(2) by (cases "X2 @ V") auto
  have "U @ X @ V = (U @ X1) @ x # (X2 @ V)" using X by simp
  then have "U @ X @ V = us @ p # x # n # vs" using us vs by simp
  then show ?thesis using c chain_interior by simp
qed

text \<open>
  Moving a run \<open>F\<close> of a list in front of the run \<open>B\<close> that precedes it, and moving a run
  of one list into another: the two uses \<open>list_splice\<close> is documented for.
\<close>

lemma chain_splice:
  assumes c: "chain m (U @ B @ F @ V)"
    and ne: "U \<noteq> []" "B \<noteq> []" "F \<noteq> []" "V \<noteq> []"
  shows "\<exists>m'. list_splice (hd B) (hd F) (hd V) m = Some m' \<and> chain m' (U @ F @ B @ V)
           \<and> same_outside (set (U @ B @ F @ V)) m m'"
proof -
  let ?m' = "set_prev (hd B) (last F) (set_next (last U) (hd F) (set_next (last F) (hd B)
     (set_prev (hd F) (last U) (set_prev (hd V) (last B) (set_next (last B) (hd V) m)))))"
  have d: "distinct (U @ B @ F @ V)" and nn: "NULL \<notin> set (U @ B @ F @ V)"
    using c by (auto simp: chain_def)
  have l: "links m U" "links m B" "links m F" "links m V"
    "lnext m (last U) = hd B" "lprev m (hd B) = last U"
    "lnext m (last B) = hd F" "lprev m (hd F) = last B"
    "lnext m (last F) = hd V" "lprev m (hd V) = last F"
    using c ne by (auto simp: chain_def links_append2)
  have mem: "hd U \<in> set U" "last U \<in> set U" "hd B \<in> set B" "last B \<in> set B"
    "hd F \<in> set F" "last F \<in> set F" "hd V \<in> set V" "last V \<in> set V"
    using ne by simp_all
  have pos: "hd U \<noteq> NULL" "last U \<noteq> NULL" "hd B \<noteq> NULL" "last B \<noteq> NULL"
    "hd F \<noteq> NULL" "last F \<noteq> NULL" "hd V \<noteq> NULL" "last V \<noteq> NULL"
    using mem nn by (metis Un_iff set_append)+
  have neq: "hd F \<noteq> hd V" "hd F \<noteq> hd B" "hd V \<noteq> hd B" "last F \<noteq> last B" "last U \<noteq> last F" "last U \<noteq> last B"
    "hd U \<noteq> hd B" "hd U \<noteq> hd F" "hd U \<noteq> hd V" "last V \<noteq> last B" "last V \<noteq> last F" "last V \<noteq> last U"
    using mem d by (auto simp: disjoint_iff)
  have int: "is_interior m (hd B)" "is_interior m (hd F)" "is_interior m (last F)"
    using chain_interior_mem [of m U B "F @ V"] chain_interior_mem [of m "U @ B" F V] c ne mem by simp_all
  have sp: "list_splice (hd B) (hd F) (hd V) m = Some ?m'"
    using l pos neq int by (simp add: list_splice_def list_prev_def elem_kind Let_def)
  have seg: "links ?m' X = links m X" if "X \<in> {U, B, F, V}" for X
  proof (rule links_cong)
    have X: "distinct X" "X \<noteq> []" using that d ne by auto
    show "\<forall>a \<in> set (butlast X). lnext ?m' a = lnext m a"
      using that X d mem by (auto dest: seg_ends(5) simp: seg_ends(1) disjoint_iff)
    show "\<forall>a \<in> set (tl X). lprev ?m' a = lprev m a"
      using that X d mem by (auto dest: seg_ends(6) simp: seg_ends(2) disjoint_iff)
  qed
  have "links ?m' (U @ F @ B @ V)"
    using seg l ne neq by (simp add: links_append2)
  then have "chain ?m' (U @ F @ B @ V)"
    using c ne neq by (auto simp: chain_def)
  moreover have "same_outside (set (U @ B @ F @ V)) m ?m'"
    using mem by (auto simp: same_outside_def)
  ultimately show ?thesis using sp by blast
qed

section \<open>The operations refine operations on HOL lists\<close>

lemma lrep_headers: "lrep m l xs \<Longrightarrow> khead l \<noteq> NULL \<and> ktail l \<noteq> NULL \<and> khead l \<noteq> ktail l"
  by (auto simp: lrep_def chain_def)

lemma lrep_distinct: "lrep m l xs \<Longrightarrow> distinct xs \<and> NULL \<notin> set xs \<and> khead l \<notin> set xs \<and> ktail l \<notin> set xs"
  by (auto simp: lrep_def chain_def)

lemma lrep_Cons: "lrep m l xs = chain m ([khead l] @ xs @ [ktail l])"
  by (simp add: lrep_def)

lemma lrep_split: "lrep m l (xs @ ys) = chain m ((khead l # xs) @ (ys @ [ktail l]))"
  by (simp add: lrep_def)

lemma lrep_init:
  assumes "khead l \<noteq> NULL" "ktail l \<noteq> NULL" "khead l \<noteq> ktail l"
  shows "\<exists>m'. list_init l m = Some m' \<and> lrep m' l [] \<and> same_outside {khead l, ktail l} m m'"
  using assms by (auto simp: list_init_def lrep_def chain_def same_outside_def)

lemma lrep_insert_at:
  assumes r: "lrep m l (xs @ ys)" and e: "e \<noteq> NULL" "e \<notin> set (xs @ ys)" "e \<noteq> khead l" "e \<noteq> ktail l"
  shows "\<exists>m'. list_insert (hd (ys @ [ktail l])) e m = Some m' \<and> lrep m' l (xs @ e # ys)
           \<and> same_outside ({khead l, ktail l, e} \<union> set (xs @ ys)) m m'"
proof -
  obtain us p where us: "khead l # xs = us @ [p]"
    by (metis append_butlast_last_id list.distinct(1))
  obtain b vs where vs: "ys @ [ktail l] = b # vs"
    by (cases "ys @ [ktail l]") auto
  have seq: "(khead l # xs) @ (ys @ [ktail l]) = us @ p # b # vs" by (simp only: us vs) simp
  have c: "chain m (us @ p # b # vs)" using r seq by (simp add: lrep_split)
  have "e \<notin> set (us @ p # b # vs)" using e seq [symmetric] by simp
  from chain_insert [OF c e(1) this] obtain m' where m': "list_insert b e m = Some m'"
    "chain m' (us @ p # e # b # vs)" "same_outside {p, e, b} m m'" by blast
  have "us @ p # e # b # vs = (khead l # xs) @ e # (ys @ [ktail l])" by (simp only: us vs) simp
  then have "lrep m' l (xs @ e # ys)" using m'(2) by (simp add: lrep_def)
  moreover have "p \<in> set (khead l # xs)" "b \<in> set (ys @ [ktail l])"
    unfolding us vs by simp_all
  then have "{p, e, b} \<subseteq> {khead l, ktail l, e} \<union> set (xs @ ys)" by auto
  then have "same_outside ({khead l, ktail l, e} \<union> set (xs @ ys)) m m'"
    by (rule same_outside_mono [OF m'(3)])
  ultimately show ?thesis using m'(1) vs by auto
qed

lemma lrep_remove_at:
  assumes r: "lrep m l (xs @ e # ys)"
  shows "\<exists>m'. list_remove e m = Some (hd (ys @ [ktail l]), m') \<and> lrep m' l (xs @ ys)
           \<and> same_outside ({khead l, ktail l} \<union> set (xs @ ys)) m m'"
proof -
  obtain us p where us: "khead l # xs = us @ [p]"
    by (metis append_butlast_last_id list.distinct(1))
  obtain n vs where vs: "ys @ [ktail l] = n # vs"
    by (cases "ys @ [ktail l]") auto
  have "(khead l # xs) @ e # (ys @ [ktail l]) = us @ p # e # n # vs" by (simp only: us vs) simp
  then have "chain m (us @ p # e # n # vs)" using r by (simp add: lrep_def)
  from chain_remove [OF this] obtain m' where m': "list_remove e m = Some (n, m')"
    "chain m' (us @ p # n # vs)" "same_outside {p, n} m m'" by blast
  have "us @ p # n # vs = (khead l # xs) @ (ys @ [ktail l])" by (simp only: us vs) simp
  then have "lrep m' l (xs @ ys)" using m'(2) by (simp add: lrep_split)
  moreover have "p \<in> set (khead l # xs)" "n \<in> set (ys @ [ktail l])"
    unfolding us vs by simp_all
  then have "{p, n} \<subseteq> {khead l, ktail l} \<union> set (xs @ ys)" by auto
  then have "same_outside ({khead l, ktail l} \<union> set (xs @ ys)) m m'"
    by (rule same_outside_mono [OF m'(3)])
  ultimately show ?thesis using m'(1) vs by auto
qed

lemma lrep_begin_end:
  assumes "lrep m l xs"
  shows "list_begin m l = Some (hd (xs @ [ktail l]))" and "list_end l = Some (ktail l)"
proof -
  obtain b vs where vs: "xs @ [ktail l] = b # vs" by (cases "xs @ [ktail l]") auto
  have "chain m ([] @ khead l # b # vs)" using assms vs by (simp add: lrep_def)
  from chain_adj(1) [OF this] show "list_begin m l = Some (hd (xs @ [ktail l]))"
    using lrep_headers [OF assms] vs by (simp add: list_begin_def)
  show "list_end l = Some (ktail l)"
    using lrep_headers [OF assms] by (simp add: list_end_def)
qed

lemma lrep_rbegin:
  assumes "lrep m l xs"
  shows "list_rbegin m l = Some (last (khead l # xs))"
proof -
  obtain us p where us: "khead l # xs = us @ [p]"
    by (metis append_butlast_last_id list.distinct(1))
  have "chain m ((khead l # xs) @ [ktail l])" using assms by (simp add: lrep_def)
  then have "chain m (us @ p # ktail l # [])" unfolding us by simp
  from chain_adj(2) [OF this] show ?thesis
    using lrep_headers [OF assms] us by (simp add: list_rbegin_def)
qed

lemma lrep_empty: "lrep m l xs \<Longrightarrow> list_empty m l = Some (xs = [])"
  using lrep_begin_end [of m l xs] lrep_distinct [of m l xs]
  by (cases xs) (auto simp: list_empty_def)

lemma lrep_front: "lrep m l (x # xs) \<Longrightarrow> list_front m l = Some x"
  using lrep_empty [of m l "x # xs"] lrep_begin_end(1) [of m l "x # xs"]
  by (simp add: list_front_def list_begin_def bind_assert_c split: if_splits)

lemma lrep_back: "lrep m l (xs @ [x]) \<Longrightarrow> list_back m l = Some x"
  using lrep_empty [of m l "xs @ [x]"] lrep_rbegin [of m l "xs @ [x]"]
  by (simp add: list_back_def list_rbegin_def bind_assert_c split: if_splits)

lemma lrep_push_back:
  assumes "lrep m l xs" and "e \<noteq> NULL" "e \<notin> set xs" "e \<noteq> khead l" "e \<noteq> ktail l"
  shows "\<exists>m'. list_push_back l e m = Some m' \<and> lrep m' l (xs @ [e])
           \<and> same_outside ({khead l, ktail l, e} \<union> set xs) m m'"
  using lrep_insert_at [of m l xs "[]" e] assms lrep_begin_end(2) [OF assms(1)]
  by (simp add: list_push_back_def)

lemma lrep_push_front:
  assumes "lrep m l xs" and "e \<noteq> NULL" "e \<notin> set xs" "e \<noteq> khead l" "e \<noteq> ktail l"
  shows "\<exists>m'. list_push_front l e m = Some m' \<and> lrep m' l (e # xs)
           \<and> same_outside ({khead l, ktail l, e} \<union> set xs) m m'"
  using lrep_insert_at [of m l "[]" xs e] assms lrep_begin_end(1) [OF assms(1)]
  by (simp add: list_push_front_def)

lemma lrep_pop_front:
  assumes "lrep m l (x # xs)"
  shows "\<exists>m'. list_pop_front l m = Some (x, m') \<and> lrep m' l xs
           \<and> same_outside ({khead l, ktail l} \<union> set xs) m m'"
  using lrep_remove_at [of m l "[]" x xs] assms lrep_front [OF assms]
  by (auto simp: list_pop_front_def)

lemma lrep_pop_back:
  assumes "lrep m l (xs @ [x])"
  shows "\<exists>m'. list_pop_back l m = Some (x, m') \<and> lrep m' l xs
           \<and> same_outside ({khead l, ktail l} \<union> set xs) m m'"
  using lrep_remove_at [of m l xs x "[]"] assms lrep_back [OF assms]
  by (auto simp: list_pop_back_def)

section \<open>Loops over a list\<close>

lemma chain_step:
  assumes "chain m (us @ (x # xs) @ t # vs)"
  shows "list_next m x = Some (hd (xs @ [t]))" and "chain m ((us @ [x]) @ xs @ t # vs)"
    and "x \<noteq> t"
proof -
  show c: "chain m ((us @ [x]) @ xs @ t # vs)" using assms by simp
  show "list_next m x = Some (hd (xs @ [t]))"
    using assms chain_list_next [of m us x] by (cases xs) auto
  show "x \<noteq> t" using assms by (auto simp: chain_def)
qed

lemma list_size_loop_chain:
  "chain m (us @ xs @ t # vs) \<Longrightarrow> list_size_loop m (hd (xs @ [t])) t n = Some (n + length xs)"
proof (induction xs arbitrary: us n)
  case Nil
  then show ?case by (simp add: list_size_loop.simps)
next
  case (Cons x xs)
  note st = chain_step [OF Cons.prems]
  show ?case
    using Cons.IH [OF st(2), of "n + 1"] st by (simp add: list_size_loop.simps [of m x])
qed

lemma lrep_size: "lrep m l xs \<Longrightarrow> list_size m l = Some (length xs)"
  using list_size_loop_chain [of m "[khead l]" xs "ktail l" "[]" 0] lrep_begin_end [of m l xs]
  by (simp add: list_size_def lrep_Cons)

definition pick_max :: "('a \<Rightarrow> 'a \<Rightarrow> bool) \<Rightarrow> 'a \<Rightarrow> 'a list \<Rightarrow> 'a" where
  "pick_max lt x xs = foldl (\<lambda>mx e. if lt mx e then e else mx) x xs"

definition pick_min :: "('a \<Rightarrow> 'a \<Rightarrow> bool) \<Rightarrow> 'a \<Rightarrow> 'a list \<Rightarrow> 'a" where
  "pick_min lt x xs = foldl (\<lambda>mn e. if lt e mn then e else mn) x xs"

lemma list_max_loop_chain:
  "chain m (us @ xs @ t # vs) \<Longrightarrow> list_max_loop m lt mx (hd (xs @ [t])) t = Some (pick_max lt mx xs)"
proof (induction xs arbitrary: us mx)
  case Nil
  then show ?case by (simp add: list_max_loop.simps pick_max_def)
next
  case (Cons x xs)
  note st = chain_step [OF Cons.prems]
  show ?case
    using Cons.IH [OF st(2)] st by (simp add: list_max_loop.simps [of m lt mx x] pick_max_def)
qed

lemma list_min_loop_chain:
  "chain m (us @ xs @ t # vs) \<Longrightarrow> list_min_loop m lt mn (hd (xs @ [t])) t = Some (pick_min lt mn xs)"
proof (induction xs arbitrary: us mn)
  case Nil
  then show ?case by (simp add: list_min_loop.simps pick_min_def)
next
  case (Cons x xs)
  note st = chain_step [OF Cons.prems]
  show ?case
    using Cons.IH [OF st(2)] st by (simp add: list_min_loop.simps [of m lt mn x] pick_min_def)
qed

lemma lrep_max: "lrep m l (x # xs) \<Longrightarrow> list_max m lt l = Some (pick_max lt x xs)"
  using list_max_loop_chain [of m "[khead l, x]" xs "ktail l" "[]" lt x]
    chain_step(1,3) [of m "[khead l]" x xs "ktail l" "[]"] lrep_begin_end [of m l "x # xs"]
  by (simp add: list_max_def lrep_Cons)

lemma lrep_min: "lrep m l (x # xs) \<Longrightarrow> list_min m lt l = Some (pick_min lt x xs)"
  using list_min_loop_chain [of m "[khead l, x]" xs "ktail l" "[]" lt x]
    chain_step(1,3) [of m "[khead l]" x xs "ktail l" "[]"] lrep_begin_end [of m l "x # xs"]
  by (simp add: list_min_def lrep_Cons)

lemma lrep_max_min_empty: "lrep m l [] \<Longrightarrow> list_max m lt l = Some (ktail l) \<and> list_min m lt l = Some (ktail l)"
  using lrep_begin_end [of m l "[]"] by (simp add: list_max_def list_min_def)

lemma find_insert_pos_chain:
  "chain m (us @ xs @ t # vs) \<Longrightarrow>
     find_insert_pos m lt e (hd (xs @ [t])) t = Some (hd (dropWhile (\<lambda>y. \<not> lt e y) xs @ [t]))"
proof (induction xs arbitrary: us)
  case Nil
  then show ?case by (simp add: find_insert_pos.simps)
next
  case (Cons x xs)
  note st = chain_step [OF Cons.prems]
  show ?case
    using Cons.IH [OF st(2)] st by (simp add: find_insert_pos.simps [of m lt e x])
qed

definition ins_ordered :: "('a \<Rightarrow> 'a \<Rightarrow> bool) \<Rightarrow> 'a \<Rightarrow> 'a list \<Rightarrow> 'a list" where
  "ins_ordered lt e xs = takeWhile (\<lambda>y. \<not> lt e y) xs @ e # dropWhile (\<lambda>y. \<not> lt e y) xs"

lemma ins_ordered_simps [simp]:
  "ins_ordered lt e [] = [e]"
  "ins_ordered lt e (x # xs) = (if lt e x then e # x # xs else x # ins_ordered lt e xs)"
  by (simp_all add: ins_ordered_def)

lemma set_ins_ordered [simp]: "set (ins_ordered lt e xs) = insert e (set xs)"
  by (induction xs) auto

lemma length_ins_ordered [simp]: "length (ins_ordered lt e xs) = Suc (length xs)"
  by (induction xs) auto

lemma distinct_map_ins_ordered:
  "distinct (map f (ins_ordered lt e xs)) \<longleftrightarrow> f e \<notin> f ` set xs \<and> distinct (map f xs)"
  by (induction xs) auto

lemma lrep_insert_ordered:
  assumes "lrep m l xs" and "e \<noteq> NULL" "e \<notin> set xs" "e \<noteq> khead l" "e \<noteq> ktail l"
  shows "\<exists>m'. list_insert_ordered lt l e m = Some m' \<and> lrep m' l (ins_ordered lt e xs)
           \<and> same_outside ({khead l, ktail l, e} \<union> set xs) m m'"
proof -
  let ?P = "\<lambda>y. \<not> lt e y"
  have pos: "find_insert_pos m lt e (hd (xs @ [ktail l])) (ktail l) = Some (hd (dropWhile ?P xs @ [ktail l]))"
    using find_insert_pos_chain [of m "[khead l]" xs "ktail l" "[]"] assms(1) by (simp add: lrep_Cons)
  obtain m' where "list_insert (hd (dropWhile ?P xs @ [ktail l])) e m = Some m'"
    "lrep m' l (takeWhile ?P xs @ e # dropWhile ?P xs)"
    "same_outside ({khead l, ktail l, e} \<union> set xs) m m'"
    using lrep_insert_at [of m l "takeWhile ?P xs" "dropWhile ?P xs" e] assms by auto
  then show ?thesis
    using pos assms(2) lrep_headers [OF assms(1)] lrep_begin_end [OF assms(1)]
    by (simp add: list_insert_ordered_def ins_ordered_def)
qed

end
