(* ===== verification/Kernel_List_Sort.thy ===== *)
theory Kernel_List_Sort
  imports Kernel_List "HOL-Library.Multiset"
begin

text \<open>
  Correctness of the ordered-list routines of \<open>lib/kernel/list.c\<close>: \<open>list_reverse\<close>,
  \<open>is_sorted\<close>, \<open>list_insert_ordered\<close>, \<open>list_max\<close>, \<open>list_min\<close>,
  \<open>list_unique\<close> and the natural merge sort \<open>list_sort\<close>. The locale
  \<open>list_less\<close> is the contract of a \<open>list_less_func\<close> (a strict weak order); the
  clients of the list interpret it with their own comparison functions.
\<close>

section \<open>The contract of a comparison function\<close>

locale list_less =
  fixes lt :: "'a \<Rightarrow> 'a \<Rightarrow> bool"
  assumes lt_asym: "lt a b \<Longrightarrow> \<not> lt b a"
    and nlt_trans: "\<not> lt b a \<Longrightarrow> \<not> lt c b \<Longrightarrow> \<not> lt c a"

section \<open>Functional counterparts of the pointer routines\<close>

text \<open>Adjacent order: what \<open>is_sorted\<close> tests.\<close>

definition nondecreasing :: "('a \<Rightarrow> 'a \<Rightarrow> bool) \<Rightarrow> 'a list \<Rightarrow> bool" where
  "nondecreasing lt xs = successively (\<lambda>a b. \<not> lt b a) xs"

fun take_run :: "('a \<Rightarrow> 'a \<Rightarrow> bool) \<Rightarrow> 'a \<Rightarrow> 'a list \<Rightarrow> 'a list \<times> 'a list" where
  "take_run lt a [] = ([], [])"
| "take_run lt a (x # xs) =
     (if lt x a then ([], x # xs)
      else let (r, rest) = take_run lt x xs in (x # r, rest))"

fun merge_runs :: "('a \<Rightarrow> 'a \<Rightarrow> bool) \<Rightarrow> 'a list \<Rightarrow> 'a list \<Rightarrow> 'a list" where
  "merge_runs lt [] bs = bs"
| "merge_runs lt as [] = as"
| "merge_runs lt (a # as) (b # bs) =
     (if \<not> lt b a then a # merge_runs lt as (b # bs) else b # merge_runs lt (a # as) bs)"

lemma take_run_append: "take_run lt a xs = (r, rest) \<Longrightarrow> xs = r @ rest"
  by (induction xs arbitrary: a r) (auto split: if_splits prod.splits)

lemma take_run_length: "take_run lt a xs = (r, rest) \<Longrightarrow> length rest \<le> length xs"
  using take_run_append by fastforce

lemma take_run_nondecreasing: "take_run lt a xs = (r, rest) \<Longrightarrow> nondecreasing lt (a # r)"
  by (induction xs arbitrary: a r) (auto simp: nondecreasing_def split: if_splits prod.splits)

function merge_pass :: "('a \<Rightarrow> 'a \<Rightarrow> bool) \<Rightarrow> 'a list \<Rightarrow> nat \<times> 'a list" where
  "merge_pass lt [] = (0, [])"
| "merge_pass lt (x # xs) =
     (case take_run lt x xs of
        (r1, []) \<Rightarrow> (1, x # r1)
      | (r1, y # ys) \<Rightarrow>
          (case take_run lt y ys of
             (r2, rest) \<Rightarrow>
               (let (c, zs) = merge_pass lt rest in (Suc c, merge_runs lt (x # r1) (y # r2) @ zs))))"
  by pat_completeness auto
termination
  by (relation "measure (\<lambda>(lt, xs). length xs)")
    (auto dest!: take_run_length [OF sym])

lemma merge_runs_induct [case_names Nil Nil2 Cons]:
  assumes "\<And>bs. P [] bs" and "\<And>a as. P (a # as) []"
    and "\<And>a as b bs. (\<not> lt b a \<Longrightarrow> P as (b # bs)) \<Longrightarrow> (lt b a \<Longrightarrow> P (a # as) bs) \<Longrightarrow> P (a # as) (b # bs)"
  shows "P as bs"
  using assms by induction_schema (pat_completeness, lexicographic_order)

lemma merge_pass_induct [case_names Nil one two]:
  assumes "P []"
    and "\<And>x xs r1. take_run lt x xs = (r1, []) \<Longrightarrow> P (x # xs)"
    and "\<And>x xs r1 y ys r2 rest. take_run lt x xs = (r1, y # ys) \<Longrightarrow> take_run lt y ys = (r2, rest) \<Longrightarrow>
           P rest \<Longrightarrow> P (x # xs)"
  shows "P xs"
proof (induction xs rule: length_induct)
  case (1 xs)
  show ?case
  proof (cases xs)
    case Nil
    then show ?thesis using assms(1) by simp
  next
    case (Cons x zs)
    obtain r1 rest1 where r1: "take_run lt x zs = (r1, rest1)" by fastforce
    show ?thesis
    proof (cases rest1)
      case Nil
      then show ?thesis using assms(2) r1 Cons by simp
    next
      case rest1: (Cons y ys)
      obtain r2 rest where r2: "take_run lt y ys = (r2, rest)" by fastforce
      have "length rest < length xs"
        using take_run_length [OF r1] take_run_length [OF r2] rest1 Cons by simp
      then show ?thesis using 1 assms(3) r1 r2 rest1 Cons by blast
    qed
  qed
qed

lemma merge_pass_one: "take_run lt x xs = (r1, []) \<Longrightarrow> merge_pass lt (x # xs) = (1, x # r1)"
  by simp

lemma merge_pass_two:
  "take_run lt x xs = (r1, y # ys) \<Longrightarrow> take_run lt y ys = (r2, rest) \<Longrightarrow>
     merge_pass lt (x # xs) = (Suc (fst (merge_pass lt rest)),
       merge_runs lt (x # r1) (y # r2) @ snd (merge_pass lt rest))"
  by (simp split: prod.splits)

declare merge_pass.simps(2) [simp del]

lemma mset_merge_runs: "mset (merge_runs lt as bs) = mset as + mset bs"
  by (induction lt as bs rule: merge_runs.induct) auto

lemma set_merge_runs: "set (merge_runs lt as bs) = set as \<union> set bs"
  by (induction lt as bs rule: merge_runs.induct) auto

lemma mset_merge_pass: "mset (snd (merge_pass lt xs)) = mset xs"
proof (induction xs rule: merge_pass_induct [where lt = lt])
  case (one x xs r1)
  then show ?case using take_run_append [OF one] by (simp add: merge_pass_one)
next
  case (two x xs r1 y ys r2 rest)
  then show ?case
    using take_run_append [OF two(1)] take_run_append [OF two(2)]
    unfolding merge_pass_two [OF two(1,2)] by (simp add: mset_merge_runs)
qed simp

section \<open>Order lemmas\<close>

context list_less
begin

abbreviation le where "le a b \<equiv> \<not> lt b a"

lemma le_refl: "le a a"
  using lt_asym by blast

lemma le_trans: "le a b \<Longrightarrow> le b c \<Longrightarrow> le a c"
  by (rule nlt_trans)

lemma lt_le_trans: "lt a b \<Longrightarrow> le b c \<Longrightarrow> lt a c"
  using nlt_trans [of c b a] lt_asym by blast

lemma nondecreasing_sorted: "nondecreasing lt xs \<longleftrightarrow> sorted_wrt le xs"
  unfolding nondecreasing_def
  by (rule successively_conv_sorted_wrt) (rule transpI, rule nlt_trans)

lemma sorted_merge_runs:
  "sorted_wrt le as \<Longrightarrow> sorted_wrt le bs \<Longrightarrow> sorted_wrt le (merge_runs lt as bs)"
proof (induction as bs rule: merge_runs_induct [where lt = lt])
  case (Cons a as b bs)
  then show ?case
    by (auto simp: set_merge_runs intro: le_trans dest: lt_asym lt_le_trans)
qed auto

lemma stable_merge_runs:
  assumes "sorted_wrt le as" and "sorted_wrt le bs"
  shows "filter (\<lambda>y. \<not> lt k y \<and> \<not> lt y k) (merge_runs lt as bs)
       = filter (\<lambda>y. \<not> lt k y \<and> \<not> lt y k) as @ filter (\<lambda>y. \<not> lt k y \<and> \<not> lt y k) bs"
  using assms
proof (induction as bs rule: merge_runs_induct [where lt = lt])
  case (Cons a as b bs)
  show ?case
  proof (cases "lt b a \<and> \<not> lt k b \<and> \<not> lt b k")
    case False
    with Cons show ?thesis by auto
  next
    case True
    have "lt k y" if "y \<in> set (a # as)" for y
    proof -
      have "lt b y" using that True Cons(3) by (auto intro: lt_le_trans)
      then show ?thesis using True nlt_trans by blast
    qed
    then have "filter (\<lambda>y. \<not> lt k y \<and> \<not> lt y k) (a # as) = []"
      by (auto simp: filter_empty_conv)
    with Cons True show ?thesis by simp
  qed
qed auto

text \<open>The number of maximal nondecreasing runs of a list, and what one merge pass does to it.\<close>

fun descents :: "'a list \<Rightarrow> nat" where
  "descents (a # b # xs) = (if lt b a then 1 else 0) + descents (b # xs)"
| "descents _ = 0"

definition nruns :: "'a list \<Rightarrow> nat" where
  "nruns xs = (if xs = [] then 0 else Suc (descents xs))"

lemma nruns_take_run: "take_run lt x xs = (r, rest) \<Longrightarrow> nruns (x # xs) = Suc (nruns rest)"
  by (induction xs arbitrary: x r) (auto simp: nruns_def split: if_splits prod.splits)

lemma descents_0: "descents xs = 0 \<longleftrightarrow> nondecreasing lt xs"
  by (induction xs rule: descents.induct) (auto simp: nondecreasing_def)

lemma nruns_append: "nruns (xs @ ys) \<le> nruns xs + nruns ys"
proof (induction xs rule: induct_list012)
  case (2 a)
  then show ?case by (cases ys) (auto simp: nruns_def)
qed (auto simp: nruns_def split: if_splits)

lemma nruns_merge_runs:
  "nondecreasing lt as \<Longrightarrow> nondecreasing lt bs \<Longrightarrow> nruns (merge_runs lt as bs) \<le> 1"
  using sorted_merge_runs [of as bs] by (simp add: nondecreasing_sorted [symmetric] descents_0 nruns_def)

lemma merge_pass_runs:
  "fst (merge_pass lt xs) = (nruns xs + 1) div 2 \<and> nruns (snd (merge_pass lt xs)) \<le> fst (merge_pass lt xs)"
proof (induction xs rule: merge_pass_induct [where lt = lt])
  case Nil
  then show ?case by (simp add: nruns_def)
next
  case (one x xs r1)
  then show ?case
    using nruns_take_run [OF one] take_run_nondecreasing [OF one]
    by (simp add: merge_pass_one) (simp add: nruns_def descents_0)
next
  case (two x xs r1 y ys r2 rest)
  have "nruns (merge_runs lt (x # r1) (y # r2) @ snd (merge_pass lt rest)) \<le> 1 + fst (merge_pass lt rest)"
    using nruns_append [of "merge_runs lt (x # r1) (y # r2)" "snd (merge_pass lt rest)"]
      nruns_merge_runs [OF take_run_nondecreasing [OF two(1)] take_run_nondecreasing [OF two(2)]] two(3)
    by linarith
  moreover have "nruns (x # xs) = Suc (Suc (nruns rest))"
    using nruns_take_run [OF two(1)] nruns_take_run [OF two(2)] by simp
  ultimately show ?case
    unfolding merge_pass_two [OF two(1,2)] using two(3) by simp
qed

lemma merge_pass_stable:
  "filter (\<lambda>y. \<not> lt k y \<and> \<not> lt y k) (snd (merge_pass lt xs)) = filter (\<lambda>y. \<not> lt k y \<and> \<not> lt y k) xs"
proof (induction xs rule: merge_pass_induct [where lt = lt])
  case (one x xs r1)
  then show ?case using take_run_append [OF one] by (simp add: merge_pass_one)
next
  case (two x xs r1 y ys r2 rest)
  have xs: "x # xs = (x # r1) @ (y # r2) @ rest"
    using take_run_append [OF two(1)] take_run_append [OF two(2)] by simp
  have "sorted_wrt le (x # r1)" "sorted_wrt le (y # r2)"
    using two(1,2) [THEN take_run_nondecreasing] by (simp_all add: nondecreasing_sorted)
  note st = stable_merge_runs [OF this, of k]
  have mp: "snd (merge_pass lt (x # xs)) = merge_runs lt (x # r1) (y # r2) @ snd (merge_pass lt rest)"
    unfolding merge_pass_two [OF two(1,2)] by simp
  show ?case
    by (simp only: mp filter_append st two(3)) (simp only: xs filter_append append_assoc)
qed simp

lemma sorted_ins_ordered: "sorted_wrt le xs \<Longrightarrow> sorted_wrt le (ins_ordered lt e xs)"
proof (induction xs)
  case Nil
  then show ?case by (simp add: ins_ordered_def)
next
  case (Cons x xs)
  show ?case
  proof (cases "lt e x")
    case True
    with Cons.prems show ?thesis
      by (auto simp: ins_ordered_def dest: lt_asym lt_le_trans)
  next
    case False
    then have "set (ins_ordered lt e xs) = insert e (set xs)"
      by (simp add: ins_ordered_def) (metis set_append takeWhile_dropWhile_id Un_insert_right)
    with False Cons show ?thesis
      by (auto simp: ins_ordered_def)
  qed
qed

lemma le_lt_trans: "le a b \<Longrightarrow> lt b c \<Longrightarrow> lt a c"
  using nlt_trans by blast

lemma pick_max_first:
  "\<exists>ys zs. x # xs = ys @ pick_max lt x xs # zs \<and> (\<forall>y \<in> set ys. lt y (pick_max lt x xs))
     \<and> (\<forall>z \<in> set zs. le z (pick_max lt x xs))"
proof (induction xs rule: rev_induct)
  case Nil
  have "x # [] = [] @ pick_max lt x [] # []" by (simp add: pick_max_def)
  then show ?case by (metis empty_iff list.set(1))
next
  case (snoc e xs)
  let ?p = "pick_max lt x xs"
  from snoc obtain ys zs where *: "x # xs = ys @ ?p # zs" "\<forall>y \<in> set ys. lt y ?p" "\<forall>z \<in> set zs. le z ?p"
    by blast
  have step: "pick_max lt x (xs @ [e]) = (if lt ?p e then e else ?p)" by (simp add: pick_max_def)
  show ?case
  proof (cases "lt ?p e")
    case True
    have "\<forall>y \<in> set (ys @ ?p # zs). le y ?p" using *(2,3) by (auto dest: lt_asym simp: le_refl)
    then have "\<forall>y \<in> set (x # xs). lt y e" using True le_lt_trans unfolding *(1) by blast
    then show ?thesis unfolding step using True
      by (intro exI [of _ "x # xs"] exI [of _ "[]"]) simp
  next
    case False
    have "x # xs @ [e] = ys @ ?p # zs @ [e]" using *(1) by simp
    then show ?thesis unfolding step using False *(2,3)
      by (intro exI [of _ ys] exI [of _ "zs @ [e]"]) auto
  qed
qed

end

section \<open>The order tests on a chain\<close>

lemma chain_prev_step:
  "chain m (us @ (x # y # xs) @ t # vs) \<Longrightarrow> list_next m x = Some y \<and> list_prev m y = Some x \<and> y \<noteq> t
     \<and> chain m ((us @ [x]) @ (y # xs) @ t # vs)"
  using chain_list_next [of m us x y "xs @ t # vs"] chain_list_prev [of m us x y "xs @ t # vs"]
  by (auto simp: chain_def)

lemma is_sorted_loop_chain:
  "chain m (us @ (x # xs) @ t # vs) \<Longrightarrow> is_sorted_loop m lt x t = Some (nondecreasing lt (x # xs))"
proof (induction xs arbitrary: us x)
  case Nil
  with chain_step(1) [OF Nil] show ?case
    by (simp add: is_sorted_loop.simps nondecreasing_def)
next
  case (Cons y xs)
  from chain_prev_step [OF Cons.prems] Cons.IH [of "us @ [x]" y] show ?case
    by (simp add: is_sorted_loop.simps [of m lt x] nondecreasing_def)
qed

lemma is_sorted_chain:
  assumes "chain m (us @ xs @ t # vs)"
  shows "is_sorted m lt (hd (xs @ [t])) t = Some (nondecreasing lt xs)"
proof (cases xs)
  case (Cons x ys)
  with assms is_sorted_loop_chain [of m us x ys t vs lt] chain_step(3) [of m us x ys t vs] show ?thesis
    by (simp add: is_sorted_def)
qed (simp add: is_sorted_def nondecreasing_def)

lemma find_end_of_run_loop_chain:
  "chain m (us @ (x # xs) @ t # vs) \<Longrightarrow>
     find_end_of_run_loop m lt x t = Some (hd (snd (take_run lt x xs) @ [t]))"
proof (induction xs arbitrary: us x)
  case Nil
  with chain_step(1) [OF Nil] show ?case by (simp add: find_end_of_run_loop.simps)
next
  case (Cons y xs)
  from chain_prev_step [OF Cons.prems] Cons.IH [of "us @ [x]" y] show ?case
    by (simp add: find_end_of_run_loop.simps [of m lt x] split: prod.splits)
qed

lemma find_end_of_run_chain:
  assumes "chain m (us @ (x # xs) @ t # vs)"
  shows "find_end_of_run m lt x t = Some (hd (snd (take_run lt x xs) @ [t]))"
  using assms find_end_of_run_loop_chain [OF assms, of lt]
  by (auto simp: find_end_of_run_def chain_def)

section \<open>Merging in place\<close>

lemma inplace_merge_loop_chain:
  assumes "chain m (U @ A @ B @ V)" and "U \<noteq> []" and "V \<noteq> []"
  shows "\<exists>m'. inplace_merge_loop lt (hd (A @ B @ V)) (hd (B @ V)) (hd V) m = Some m'
           \<and> chain m' (U @ merge_runs lt A B @ V) \<and> same_outside (set (U @ A @ B @ V)) m m'"
  using assms
proof (induction A B arbitrary: U m rule: merge_runs_induct [where lt = lt])
  case (Nil bs)
  then show ?case by (simp add: inplace_merge_loop.simps)
next
  case (Nil2 a as)
  then show ?case by (simp add: inplace_merge_loop.simps)
next
  case (Cons a as b bs)
  obtain v vs where V: "V = v # vs" using Cons.prems(3) by (cases V) auto
  have ne: "a \<noteq> b" "b \<noteq> v" using Cons.prems(1) V by (auto simp: chain_def)
  show ?case
  proof (cases "lt b a")
    case False
    have c: "chain m (U @ (a # as) @ b # (bs @ V))" using Cons.prems(1) by simp
    have nx: "list_next m a = Some (hd (as @ [b]))" using chain_step(1) [OF c] .
    have "hd (as @ [b]) = hd (as @ (b # bs) @ V)" by (cases as) auto
    with Cons.IH(1) [OF False, of m "U @ [a]"] Cons.prems False ne V nx show ?thesis
      by (simp add: inplace_merge_loop.simps [of lt a])
  next
    case True
    have c: "chain m ((U @ a # as) @ (b # bs) @ v # vs)" using Cons.prems(1) V by simp
    note st = chain_step [OF c]
    have hd: "hd (bs @ [v]) = hd (bs @ V)" using V by (cases bs) auto
    obtain w ws where w: "bs @ V = w # ws" using V by (cases "bs @ V") auto
    have pv: "list_prev m (hd (bs @ V)) = Some b"
      using chain_list_prev [of m "U @ a # as" b w ws] Cons.prems(1) w by simp
    obtain m1 where m1: "list_splice a b (hd (bs @ V)) m = Some m1"
      "chain m1 (U @ [b] @ (a # as) @ bs @ V)" "same_outside (set (U @ (a # as) @ [b] @ bs @ V)) m m1"
      using chain_splice [of m U "a # as" "[b]" "bs @ V"] Cons.prems V by auto
    obtain m2 where m2: "inplace_merge_loop lt a (hd (bs @ V)) (hd V) m1 = Some m2"
      "chain m2 ((U @ [b]) @ merge_runs lt (a # as) bs @ V)"
      "same_outside (set ((U @ [b]) @ (a # as) @ bs @ V)) m1 m2"
      using Cons.IH(2) [OF True, of m1 "U @ [b]"] m1(2) Cons.prems(3) by auto
    have "same_outside (set (U @ (a # as) @ (b # bs) @ V)) m m2"
      by (rule same_outside_trans) (rule same_outside_mono [OF m1(3)], force, rule same_outside_mono [OF m2(3)], force)
    with m1 m2 True ne V st(1) pv hd show ?thesis
      by (simp add: inplace_merge_loop.simps [of lt a b])
  qed
qed

lemma inplace_merge_chain:
  assumes c: "chain m (U @ A @ B @ V)" and ne: "U \<noteq> []" "A \<noteq> []" "B \<noteq> []" "V \<noteq> []"
    and s: "nondecreasing lt A" "nondecreasing lt B"
  shows "\<exists>m'. inplace_merge lt (hd A) (hd B) (hd V) m = Some m'
           \<and> chain m' (U @ merge_runs lt A B @ V) \<and> same_outside (set (U @ A @ B @ V)) m m'"
proof -
  obtain a as b bs v vs where AB: "A = a # as" "B = b # bs" "V = v # vs"
    using ne by (cases A; cases B; cases V) auto
  have "is_sorted m lt a b = Some True" "is_sorted m lt b v = Some True"
    using is_sorted_chain [of m U A b "bs @ V" lt] is_sorted_chain [of m "U @ A" B v vs lt] c s AB by simp_all
  moreover have "a \<noteq> NULL" "b \<noteq> NULL" "v \<noteq> NULL" using c AB by (auto simp: chain_def)
  ultimately show ?thesis
    using inplace_merge_loop_chain [OF c ne(1,4), of lt] AB by (simp add: inplace_merge_def)
qed

section \<open>Sorting\<close>

lemma list_sort_pass_chain:
  assumes "chain m (U @ xs @ t # vs)" and "U \<noteq> []"
  shows "\<exists>m'. list_sort_pass lt (hd (xs @ [t])) t cnt m = Some (cnt + fst (merge_pass lt xs), m')
           \<and> chain m' (U @ snd (merge_pass lt xs) @ t # vs) \<and> same_outside (set (U @ xs @ t # vs)) m m'"
  using assms
proof (induction xs arbitrary: U cnt m rule: merge_pass_induct [where lt = lt])
  case Nil
  then show ?case by (simp add: list_sort_pass.simps)
next
  case (one x xs r1)
  have "x \<noteq> t" using one.prems by (auto simp: chain_def)
  with one find_end_of_run_chain [of m U x xs t vs lt] show ?case
    using take_run_append [OF one(1)] by (simp add: list_sort_pass.simps [of lt x] merge_pass_one)
next
  case (two x xs r1 y ys r2 rest)
  have xs: "x # xs = (x # r1) @ (y # r2) @ rest"
    using take_run_append [OF two(1)] take_run_append [OF two(2)] by simp
  have ne: "x \<noteq> t" "y \<noteq> t" using two.prems(1) unfolding xs by (auto simp: chain_def)
  obtain v ws where V: "rest @ t # vs = v # ws" by (cases rest) auto
  then have v: "hd (rest @ [t]) = v" by (cases rest) auto
  have c: "chain m (U @ (x # r1) @ (y # r2) @ rest @ t # vs)" using two.prems(1) unfolding xs by simp
  have e1: "find_end_of_run m lt x t = Some y"
    using find_end_of_run_chain [of m U x xs t vs lt] two by simp
  have e2: "find_end_of_run m lt y t = Some v"
    using find_end_of_run_chain [of m "U @ x # r1" y ys t vs lt] c two(2) v take_run_append [OF two(2)] by simp
  obtain m1 where m1: "inplace_merge lt x y v m = Some m1"
    "chain m1 (U @ merge_runs lt (x # r1) (y # r2) @ rest @ t # vs)"
    "same_outside (set (U @ (x # r1) @ (y # r2) @ rest @ t # vs)) m m1"
    using inplace_merge_chain [OF c] two.prems(2) V two(1,2) [THEN take_run_nondecreasing] by auto
  let ?U = "U @ merge_runs lt (x # r1) (y # r2)"
  obtain m2 where m2: "list_sort_pass lt v t (cnt + 1) m1 = Some (cnt + 1 + fst (merge_pass lt rest), m2)"
    "chain m2 (?U @ snd (merge_pass lt rest) @ t # vs)" "same_outside (set (?U @ rest @ t # vs)) m1 m2"
    using two.IH [of m1 ?U "cnt + 1"] m1(2) two.prems(2) v by auto
  have sub: "set (?U @ rest @ t # vs) = set (U @ (x # xs) @ t # vs)"
    unfolding xs by (auto simp: set_merge_runs)
  have "same_outside (set (U @ (x # xs) @ t # vs)) m m1" using m1(3) by (simp add: xs)
  moreover have "same_outside (set (U @ (x # xs) @ t # vs)) m1 m2" using m2(3) by (simp only: sub)
  ultimately have "same_outside (set (U @ (x # xs) @ t # vs)) m m2" by (rule same_outside_trans)
  with m1 m2 e1 e2 ne show ?case
    by (simp add: list_sort_pass.simps [of lt x] merge_pass_two [OF two(1,2)])
qed

lemma lrep_sort_pass:
  assumes "lrep m l xs"
  shows "\<exists>m'. list_sort_pass lt (hd (xs @ [ktail l])) (ktail l) 0 m = Some (fst (merge_pass lt xs), m')
           \<and> lrep m' l (snd (merge_pass lt xs)) \<and> same_outside ({khead l, ktail l} \<union> set xs) m m'"
  using list_sort_pass_chain [of m "[khead l]" xs "ktail l" "[]" lt 0] assms
  by (simp add: lrep_def insert_commute)

text \<open>What a stable sort of \<open>xs\<close> by \<open>lt\<close> is.\<close>

definition stable_sort_of :: "('a \<Rightarrow> 'a \<Rightarrow> bool) \<Rightarrow> 'a list \<Rightarrow> 'a list \<Rightarrow> bool" where
  "stable_sort_of lt xs ys \<longleftrightarrow> mset ys = mset xs \<and> sorted_wrt (\<lambda>a b. \<not> lt b a) ys
     \<and> (\<forall>k. filter (\<lambda>y. \<not> lt k y \<and> \<not> lt y k) ys = filter (\<lambda>y. \<not> lt k y \<and> \<not> lt y k) xs)"

lemma list_sort_loop_correct:
  assumes ord: "list_less lt" and "lrep m l xs"
  shows "\<exists>m' ys. list_sort_loop lt l m = Some m' \<and> lrep m' l ys \<and> stable_sort_of lt xs ys
           \<and> same_outside ({khead l, ktail l} \<union> set xs) m m'"
  using assms(2)
proof (induction "list_less.nruns lt xs" arbitrary: xs m rule: less_induct)
  case less
  let ?p = "merge_pass lt xs"
  note runs = list_less.merge_pass_runs [OF ord, of xs]
  note stab = list_less.merge_pass_stable [OF ord, of _ xs]
  obtain m1 where m1: "list_sort_pass lt (hd (xs @ [ktail l])) (ktail l) 0 m = Some (fst ?p, m1)"
    "lrep m1 l (snd ?p)" "same_outside ({khead l, ktail l} \<union> set xs) m m1"
    using lrep_sort_pass [OF less.prems] by blast
  have step: "list_sort_loop lt l m = (if fst ?p > 1 then list_sort_loop lt l m1 else Some m1)"
    using m1(1) lrep_begin_end [OF less.prems] by (simp add: list_sort_loop.simps [of lt l m])
  show ?case
  proof (cases "fst ?p > 1")
    case True
    then have "list_less.nruns lt (snd ?p) < list_less.nruns lt xs" using runs by linarith
    from less.hyps [OF this m1(2)] obtain m2 ys where
      "list_sort_loop lt l m1 = Some m2" "lrep m2 l ys" "stable_sort_of lt (snd ?p) ys"
      and so: "same_outside ({khead l, ktail l} \<union> set (snd ?p)) m1 m2" by blast
    moreover have "set (snd ?p) = set xs" using mset_merge_pass [of lt xs] by (metis set_mset_mset)
    ultimately show ?thesis
      unfolding step using True same_outside_trans [OF m1(3)] stab
      by (auto simp: stable_sort_of_def mset_merge_pass)
  next
    case False
    then have "list_less.nruns lt (snd ?p) \<le> 1" using runs by linarith
    then have "nondecreasing lt (snd ?p)"
      by (cases "snd ?p = []")
        (simp_all add: list_less.nruns_def [OF ord] list_less.descents_0 [OF ord] nondecreasing_def)
    then have "stable_sort_of lt xs (snd ?p)"
      using stab by (simp add: stable_sort_of_def mset_merge_pass list_less.nondecreasing_sorted [OF ord])
    then show ?thesis unfolding step using False m1 by auto
  qed
qed

lemma lrep_sort:
  assumes ord: "list_less lt" and r: "lrep m l xs"
  shows "\<exists>m' ys. list_sort lt l m = Some m' \<and> lrep m' l ys \<and> stable_sort_of lt xs ys
           \<and> same_outside ({khead l, ktail l} \<union> set xs) m m'"
proof -
  obtain m' ys where m': "list_sort_loop lt l m = Some m'" "lrep m' l ys" "stable_sort_of lt xs ys"
    "same_outside ({khead l, ktail l} \<union> set xs) m m'"
    using list_sort_loop_correct [OF assms] by blast
  have "nondecreasing lt ys"
    using m'(3) by (simp add: stable_sort_of_def list_less.nondecreasing_sorted [OF ord])
  then have "is_sorted m' lt (hd (ys @ [ktail l])) (ktail l) = Some True"
    using is_sorted_chain [of m' "[khead l]" ys "ktail l" "[]"] m'(2) by (simp add: lrep_Cons)
  then have "list_sort lt l m = Some m'"
    using m'(1) lrep_begin_end [OF m'(2)] lrep_headers [OF r] by (simp add: list_sort_def)
  with m' show ?thesis by blast
qed

section \<open>Reversal\<close>

lemma links_rev:
  assumes "\<forall>a \<in> set (butlast ns). lprev m' a = lnext m a" and "\<forall>a \<in> set (tl ns). lnext m' a = lprev m a"
  shows "links m' (rev ns) = links m ns"
  using assms
proof (induction ns rule: induct_list012)
  case (3 a b ns)
  then have "links m' (rev (b # ns)) = links m (b # ns)" by (cases ns) auto
  then show ?case using 3 links_append [of m' "rev ns" b a "[]"] by auto
qed auto

lemma list_reverse_loop_links:
  assumes "links m (xs @ [t])" and "distinct (xs @ [t])" and "NULL \<notin> set xs"
  shows "\<exists>m'. list_reverse_loop (hd (xs @ [t])) t m = Some m'
           \<and> (\<forall>y. lprev m' y = (if y \<in> set xs then lnext m y else lprev m y)
                 \<and> lnext m' y = (if y \<in> set xs then lprev m y else lnext m y))"
  using assms
proof (induction xs arbitrary: m)
  case Nil
  then show ?case by (simp add: list_reverse_loop.simps)
next
  case (Cons x xs)
  let ?m = "set_next x (lprev m x) (set_prev x (lnext m x) m)"
  have nx: "lnext m x = hd (xs @ [t])" using Cons.prems(1) by (cases xs) auto
  have "links m (xs @ [t])" using Cons.prems(1) by (cases xs) auto
  then have "links ?m (xs @ [t])"
    by (subst links_cong [of "xs @ [t]" ?m m]) (use Cons.prems(2) in \<open>auto dest: mem_tlD\<close>)
  from Cons.IH [OF this] Cons.prems obtain m' where "list_reverse_loop (hd (xs @ [t])) t ?m = Some m'"
    and "\<forall>y. lprev m' y = (if y \<in> set xs then lnext ?m y else lprev ?m y)
           \<and> lnext m' y = (if y \<in> set xs then lprev ?m y else lnext ?m y)" by auto
  with Cons.prems nx show ?case
    by (auto simp: list_reverse_loop.simps [of x] swap_links_def)
qed

lemma lrep_reverse:
  assumes r: "lrep m l xs"
  shows "\<exists>m'. list_reverse l m = Some m' \<and> lrep m' l (rev xs)
           \<and> same_outside ({khead l, ktail l} \<union> set xs) m m'"
proof (cases "xs = []")
  case True
  with r lrep_empty [OF r] show ?thesis by (simp add: list_reverse_def)
next
  case ne: False
  let ?h = "khead l" and ?t = "ktail l"
  have l: "links m xs" "lnext m ?h = hd xs" "lprev m (hd xs) = ?h" "lnext m (last xs) = ?t" "lprev m ?t = last xs"
    and d: "distinct xs" "?h \<notin> set xs" "?t \<notin> set xs" "?h \<noteq> ?t" "NULL \<notin> set xs" "?h \<noteq> NULL" "?t \<noteq> NULL"
      "lprev m ?h = NULL" "lnext m ?t = NULL"
    using r ne links_append2 [of "[?h]" "xs @ [?t]" m] links_append2 [of xs "[?t]" m]
    by (auto simp: lrep_def chain_def hd_append)
  have mem: "hd xs \<in> set xs" "last xs \<in> set xs" using ne by simp_all
  obtain m1 where m1: "list_reverse_loop (hd (xs @ [?t])) ?t m = Some m1"
    "\<forall>y. lprev m1 y = (if y \<in> set xs then lnext m y else lprev m y)
        \<and> lnext m1 y = (if y \<in> set xs then lprev m y else lnext m y)"
    using list_reverse_loop_links [of m xs ?t] l d ne by (auto simp: links_append2)
  let ?m2 = "set_next (hd xs) ?t (set_prev (last xs) ?h (set_prev ?t (hd xs) (set_next ?h (last xs) m1)))"
  have nn: "hd xs \<noteq> NULL" "last xs \<noteq> NULL" "hd xs \<noteq> ?h" "hd xs \<noteq> ?t" "last xs \<noteq> ?h" "last xs \<noteq> ?t"
    using mem d by metis+
  have rv: "list_reverse l m = Some ?m2"
    using m1 l d nn mem ne lrep_empty [OF r] lrep_begin_end [OF r]
    by (simp add: list_reverse_def Let_def)
  have "links ?m2 (rev xs) = links m xs"
    by (rule links_rev)
      (use m1(2) d ne in \<open>auto dest: in_set_butlastD mem_tlD simp: last_notin_butlast hd_notin_tl\<close>)
  then have "links ?m2 ([?h] @ rev xs @ [?t])"
    using l d ne nn mem links_append2 [of "[?h]" "rev xs @ [?t]" ?m2] links_append2 [of "rev xs" "[?t]" ?m2]
    by (simp add: hd_rev last_rev hd_append)
  moreover have "lprev ?m2 ?h = NULL" "lnext ?m2 ?t = NULL" using m1(2) d nn by auto
  ultimately have "lrep ?m2 l (rev xs)" using d by (simp add: lrep_def chain_def)
  moreover have "same_outside ({?h, ?t} \<union> set xs) m ?m2"
    using m1(2) mem by (auto simp: same_outside_def)
  ultimately show ?thesis using rv by blast
qed

section \<open>Removing duplicates\<close>

text \<open>The kept elements and the removed ones after \<open>x\<close>, for runs of equivalent elements.\<close>

fun split_unique :: "('a \<Rightarrow> 'a \<Rightarrow> bool) \<Rightarrow> 'a \<Rightarrow> 'a list \<Rightarrow> 'a list \<times> 'a list" where
  "split_unique lt x [] = ([], [])"
| "split_unique lt x (y # ys) =
     (if \<not> lt x y \<and> \<not> lt y x
      then let (k, d) = split_unique lt x ys in (k, y # d)
      else let (k, d) = split_unique lt y ys in (y # k, d))"

lemma list_unique_loop_dup:
  assumes "lrep m l (us @ x # xs)" and "lrep m dl ds"
    and "\<forall>a \<in> set (khead l # ktail l # us @ x # xs). a \<notin> set (khead dl # ktail dl # ds)"
  shows "\<exists>m'. list_unique_loop lt (Some dl) x (ktail l) m = Some m'
           \<and> lrep m' l (us @ x # fst (split_unique lt x xs)) \<and> lrep m' dl (ds @ snd (split_unique lt x xs))"
  using assms
proof (induction xs arbitrary: us x ds m)
  case Nil
  have "list_next m x = Some (ktail l)"
    using chain_step(1) [of m "khead l # us" x "[]" "ktail l" "[]"] Nil.prems(1) by (simp add: lrep_def)
  then show ?case using Nil.prems by (subst list_unique_loop.simps) simp
next
  case (Cons y xs)
  have nx: "list_next m x = Some y" and yt: "y \<noteq> ktail l"
    using chain_step(1) [of m "khead l # us" x "y # xs" "ktail l" "[]"] Cons.prems(1)
    by (auto simp: lrep_def chain_def)
  show ?case
  proof (cases "\<not> lt x y \<and> \<not> lt y x")
    case True
    obtain m1 n where m1: "list_remove y m = Some (n, m1)" "lrep m1 l ((us @ [x]) @ xs)"
      "same_outside ({khead l, ktail l} \<union> set ((us @ [x]) @ xs)) m m1"
      using lrep_remove_at [of m l "us @ [x]" y xs] Cons.prems(1) by auto
    have dl: "lrep m1 dl ds"
      by (rule lrep_frame [OF m1(3), THEN iffD2]) (use Cons.prems(2,3) in auto)
    have yd: "y \<noteq> NULL" "y \<notin> set ds" "y \<noteq> khead dl" "y \<noteq> ktail dl" "y \<notin> set (us @ x # xs)" "y \<noteq> khead l"
      using lrep_distinct [OF Cons.prems(1)] Cons.prems(3) by auto
    obtain m2 where m2: "list_push_back dl y m1 = Some m2" "lrep m2 dl (ds @ [y])"
      "same_outside ({khead dl, ktail dl, y} \<union> set ds) m1 m2"
      using lrep_push_back [OF dl yd(1-4)] by blast
    have "khead l \<notin> {khead dl, ktail dl, y} \<union> set ds" "ktail l \<notin> {khead dl, ktail dl, y} \<union> set ds"
      "set (us @ x # xs) \<inter> ({khead dl, ktail dl, y} \<union> set ds) = {}"
      using Cons.prems(3) yd(5,6) yt by auto
    from lrep_frame [OF m2(3) this] m1(2) have "lrep m2 l (us @ x # xs)" by simp
    moreover have "\<forall>a \<in> set (khead l # ktail l # us @ x # xs). a \<notin> set (khead dl # ktail dl # ds @ [y])"
      using Cons.prems(3) yd(5,6) yt by auto
    ultimately obtain m' where
      "list_unique_loop lt (Some dl) x (ktail l) m2 = Some m'"
      "lrep m' l (us @ x # fst (split_unique lt x xs))" "lrep m' dl ((ds @ [y]) @ snd (split_unique lt x xs))"
      using Cons.IH [OF _ m2(2)] by blast
    with True nx yt m1(1) m2(1) show ?thesis
      by (subst list_unique_loop.simps) (simp add: split_beta)
  next
    case False
    then have "split_unique lt x (y # xs) = (y # fst (split_unique lt y xs), snd (split_unique lt y xs))"
      by (auto simp: split_beta)
    moreover have "list_unique_loop lt (Some dl) x (ktail l) m = list_unique_loop lt (Some dl) y (ktail l) m"
      using False nx yt by (subst list_unique_loop.simps) auto
    ultimately show ?thesis using Cons.IH [of m "us @ [x]" y ds] Cons.prems by simp
  qed
qed

lemma lrep_unique:
  assumes "lrep m l (x # xs)" and "lrep m dl ds"
    and "\<forall>a \<in> set (khead l # ktail l # x # xs). a \<notin> set (khead dl # ktail dl # ds)"
  shows "\<exists>m'. list_unique lt l (Some dl) m = Some m'
           \<and> lrep m' l (x # fst (split_unique lt x xs)) \<and> lrep m' dl (ds @ snd (split_unique lt x xs))"
  using list_unique_loop_dup [of m l "[]" x xs dl ds lt] assms lrep_empty [OF assms(1)]
    lrep_begin_end [OF assms(1)] lrep_headers [OF assms(1)]
  by (simp add: list_unique_def)

text \<open>
  On a sorted list the kept elements are strictly increasing, and each removed element is
  equivalent to a kept one: \<open>list_unique\<close> leaves one representative of each class.
\<close>

lemma split_unique_mset: "mset (fst (split_unique lt x xs)) + mset (snd (split_unique lt x xs)) = mset xs"
  by (induction xs arbitrary: x) (auto simp: split_beta)

context list_less
begin

lemma split_unique_sorted:
  "sorted_wrt le (x # xs) \<Longrightarrow> sorted_wrt lt (x # fst (split_unique lt x xs))"
proof (induction xs arbitrary: x)
  case (Cons y ys)
  show ?case
  proof (cases "\<not> lt x y \<and> \<not> lt y x")
    case True
    have "sorted_wrt le (x # ys)" using Cons.prems by simp
    from Cons.IH [OF this] True show ?thesis by (simp add: split_beta)
  next
    case False
    then have xy: "lt x y" using Cons.prems by auto
    have "sorted_wrt le (y # ys)" using Cons.prems by simp
    from Cons.IH [OF this] have "sorted_wrt lt (y # fst (split_unique lt y ys))" .
    moreover have "\<forall>z \<in> set (fst (split_unique lt y ys)). lt x z"
      using calculation lt_le_trans [OF xy] lt_asym by simp
    ultimately show ?thesis using False xy by (simp add: split_beta)
  qed
qed simp

lemma split_unique_cover:
  "z \<in> set (snd (split_unique lt x xs)) \<Longrightarrow>
     \<exists>k \<in> set (x # fst (split_unique lt x xs)). \<not> lt k z \<and> \<not> lt z k"
proof (induction xs arbitrary: x)
  case (Cons y ys)
  show ?case
    using Cons.IH [of x] Cons.IH [of y] Cons.prems
    by (cases "\<not> lt x y \<and> \<not> lt y x") (auto simp: split_beta)
qed simp

end

section \<open>The list as a double-ended queue\<close>

text \<open>
  The contract a client of \<open>list.c\<close> relies on when it uses a list as a queue or a stack:
  \<open>rep\<close> relates a memory and a list header to the sequence held, \<open>ok\<close> says which elements may be
  linked. The laws are the functional behaviour of the four end operations; the locale proves what
  sequences of them do.
\<close>

locale deque =
  fixes rep :: "'m \<Rightarrow> 'l \<Rightarrow> 'e list \<Rightarrow> bool" and ok :: "'l \<Rightarrow> 'e \<Rightarrow> bool"
    and push_front :: "'l \<Rightarrow> 'e \<Rightarrow> 'm \<Rightarrow> 'm option" and push_back :: "'l \<Rightarrow> 'e \<Rightarrow> 'm \<Rightarrow> 'm option"
    and pop_front :: "'l \<Rightarrow> 'm \<Rightarrow> ('e \<times> 'm) option" and pop_back :: "'l \<Rightarrow> 'm \<Rightarrow> ('e \<times> 'm) option"
  assumes rep_push_front: "rep m l xs \<Longrightarrow> ok l e \<Longrightarrow> e \<notin> set xs \<Longrightarrow> \<exists>m'. push_front l e m = Some m' \<and> rep m' l (e # xs)"
    and rep_push_back: "rep m l xs \<Longrightarrow> ok l e \<Longrightarrow> e \<notin> set xs \<Longrightarrow> \<exists>m'. push_back l e m = Some m' \<and> rep m' l (xs @ [e])"
    and rep_pop_front: "rep m l (e # xs) \<Longrightarrow> \<exists>m'. pop_front l m = Some (e, m') \<and> rep m' l xs"
    and rep_pop_back: "rep m l (xs @ [e]) \<Longrightarrow> \<exists>m'. pop_back l m = Some (e, m') \<and> rep m' l xs"
begin

lemma rep_push_all:
  "rep m l xs \<Longrightarrow> \<forall>e \<in> set es. ok l e \<Longrightarrow> distinct es \<Longrightarrow> set es \<inter> set xs = {} \<Longrightarrow>
     \<exists>m'. push_all (push_back l) es m = Some m' \<and> rep m' l (xs @ es)"
proof (induction es arbitrary: m xs)
  case (Cons e es)
  obtain m1 where "push_back l e m = Some m1" "rep m1 l (xs @ [e])"
    using rep_push_back [of m l xs e] Cons.prems by auto
  moreover have "set es \<inter> set (xs @ [e]) = {}" using Cons.prems(3,4) by auto
  ultimately show ?case using Cons.IH [of m1 "xs @ [e]"] Cons.prems(2,3) by auto
qed simp

lemma rep_pop_all: "rep m l (es @ xs) \<Longrightarrow> \<exists>m'. pop_many (pop_front l) (length es) m = Some (es, m') \<and> rep m' l xs"
proof (induction es arbitrary: m)
  case (Cons e es)
  obtain m1 where "pop_front l m = Some (e, m1)" "rep m1 l (es @ xs)"
    using rep_pop_front [of m l e "es @ xs"] Cons.prems by auto
  with Cons.IH [of m1] show ?case by auto
qed simp

lemma rep_pop_all_back:
  "rep m l (xs @ rev es) \<Longrightarrow> \<exists>m'. pop_many (pop_back l) (length es) m = Some (es, m') \<and> rep m' l xs"
proof (induction es arbitrary: m)
  case (Cons e es)
  obtain m1 where "pop_back l m = Some (e, m1)" "rep m1 l (xs @ rev es)"
    using rep_pop_back [of m l "xs @ rev es" e] Cons.prems by auto
  with Cons.IH [of m1] show ?case by auto
qed simp

lemma fifo_lifo:
  assumes "rep m l []" and "\<forall>e \<in> set es. ok l e" and "distinct es"
  shows "\<exists>m1 m2 m3. push_all (push_back l) es m = Some m1
           \<and> pop_many (pop_front l) (length es) m1 = Some (es, m2) \<and> rep m2 l []
           \<and> pop_many (pop_back l) (length es) m1 = Some (rev es, m3) \<and> rep m3 l []"
proof -
  obtain m1 where "push_all (push_back l) es m = Some m1" "rep m1 l es"
    using rep_push_all [OF assms(1-3)] by auto
  with rep_pop_all [of m1 l es "[]"] rep_pop_all_back [of m1 l "[]" "rev es"] show ?thesis by auto
qed

end

definition linkable :: "klist \<Rightarrow> addr \<Rightarrow> bool" where
  "linkable l e \<longleftrightarrow> e \<noteq> NULL \<and> e \<noteq> khead l \<and> e \<noteq> ktail l"

interpretation kl: deque lrep linkable list_push_front list_push_back list_pop_front list_pop_back
proof
  show "lrep m l xs \<Longrightarrow> linkable l e \<Longrightarrow> e \<notin> set xs \<Longrightarrow> \<exists>m'. list_push_front l e m = Some m' \<and> lrep m' l (e # xs)" for m l xs e
    using lrep_push_front [of m l xs e] by (auto simp: linkable_def)
  show "lrep m l xs \<Longrightarrow> linkable l e \<Longrightarrow> e \<notin> set xs \<Longrightarrow> \<exists>m'. list_push_back l e m = Some m' \<and> lrep m' l (xs @ [e])" for m l xs e
    using lrep_push_back [of m l xs e] by (auto simp: linkable_def)
  show "lrep m l (e # xs) \<Longrightarrow> \<exists>m'. list_pop_front l m = Some (e, m') \<and> lrep m' l xs" for m l xs e
    using lrep_pop_front [of m l e xs] by auto
  show "lrep m l (xs @ [e]) \<Longrightarrow> \<exists>m'. list_pop_back l m = Some (e, m') \<and> lrep m' l xs" for m l xs e
    using lrep_pop_back [of m l xs e] by auto
qed

section \<open>Properties\<close>

text \<open>A concrete memory used in the witnesses: the list with headers 10 and 14 holds 11, 12, 13.\<close>

definition demo_mem :: lmem where
  "demo_mem = \<lparr> lprev = (\<lambda>_. 0)(11 := 10, 12 := 11, 13 := 12, 14 := 13),
                lnext = (\<lambda>_. 0)(10 := 11, 11 := 12, 12 := 13, 13 := 14) \<rparr>"

definition demo_list :: klist where
  "demo_list = \<lparr> khead = 10, ktail = 14 \<rparr>"

lemma demo_lrep: "lrep demo_mem demo_list [11, 12, 13]"
  by (simp add: lrep_def chain_def demo_mem_def demo_list_def)

lemma list_less_key: "list_less (\<lambda>a b. key a < (key b :: 'k :: linorder))"
  by unfold_locales auto

text \<open>
  C10: \<open>list_sort\<close>, run on a well-formed list with a strict weak order, returns; the list then holds
  a permutation of its elements that is sorted and keeps equivalent elements in their original
  order, and no link outside the list is written.
\<close>

theorem list_sort_correct:
  assumes "list_less lt" and "lrep m l xs"
  shows "\<exists>m' ys. list_sort lt l m = Some m' \<and> lrep m' l ys \<and> stable_sort_of lt xs ys
           \<and> same_outside ({khead l, ktail l} \<union> set xs) m m'"
  using assms by (rule lrep_sort)

theorem list_sort_correct_witness:
  "list_less (\<lambda>a b. (b :: nat) < a) \<and> lrep demo_mem demo_list [11, 12, 13] \<and>
   (\<exists>m' ys. list_sort (\<lambda>a b. b < a) demo_list demo_mem = Some m' \<and> lrep m' demo_list ys
      \<and> stable_sort_of (\<lambda>a b. b < a) [11, 12, 13] ys)"
proof -
  have ord: "list_less (\<lambda>a b. (b :: nat) < a)" by unfold_locales auto
  show ?thesis using list_sort_correct [OF ord demo_lrep] ord demo_lrep by blast
qed

text \<open>
  C11: used from both ends, a list is a queue and a stack: elements appended one after the other by
  \<open>list_push_back\<close> come back from \<open>list_pop_front\<close> in the same order and from \<open>list_pop_back\<close> in
  reverse order, with no assertion failing, and the list is empty afterwards.
\<close>

theorem list_fifo_lifo:
  assumes "lrep m l []" and "\<forall>e \<in> set es. linkable l e" and "distinct es"
  shows "\<exists>m1 m2 m3. push_all (list_push_back l) es m = Some m1
           \<and> pop_many (list_pop_front l) (length es) m1 = Some (es, m2) \<and> lrep m2 l []
           \<and> pop_many (list_pop_back l) (length es) m1 = Some (rev es, m3) \<and> lrep m3 l []"
  using assms by (rule kl.fifo_lifo)

theorem list_fifo_lifo_witness:
  "\<exists>m m1 m2. list_init demo_list demo_mem = Some m \<and> push_all (list_push_back demo_list) [3, 1, 2] m = Some m1
     \<and> pop_many (list_pop_front demo_list) (length [3, 1, 2 :: addr]) m1 = Some ([3, 1, 2], m2) \<and> lrep m2 demo_list []"
proof -
  obtain m where m: "list_init demo_list demo_mem = Some m" "lrep m demo_list []"
    using lrep_init [of demo_list demo_mem] by (auto simp: demo_list_def)
  have "\<forall>e \<in> set [3, 1, 2 :: addr]. linkable demo_list e" by (simp add: linkable_def demo_list_def)
  from list_fifo_lifo [OF m(2) this] m(1) show ?thesis by force
qed

text \<open>
  C12: \<open>list_reverse\<close> on a well-formed list returns, the list then holds its elements in reverse
  order, and no link outside the list is written.
\<close>

theorem list_reverse_correct:
  assumes "lrep m l xs"
  shows "\<exists>m'. list_reverse l m = Some m' \<and> lrep m' l (rev xs)
           \<and> same_outside ({khead l, ktail l} \<union> set xs) m m'"
  using assms by (rule lrep_reverse)

theorem list_reverse_correct_witness:
  "\<exists>m'. list_reverse demo_list demo_mem = Some m' \<and> lrep m' demo_list [13, 12, 11]"
  using list_reverse_correct [OF demo_lrep] by auto

text \<open>
  C13: inserting into a sorted list with \<open>list_insert_ordered\<close> returns and gives a sorted list with
  exactly the new element added, and writes no link outside the list and the element.
\<close>

theorem list_insert_ordered_correct:
  assumes "list_less lt" and "lrep m l xs" and "sorted_wrt (\<lambda>a b. \<not> lt b a) xs"
    and "linkable l e" and "e \<notin> set xs"
  shows "\<exists>m' ys. list_insert_ordered lt l e m = Some m' \<and> lrep m' l ys
           \<and> mset ys = add_mset e (mset xs) \<and> sorted_wrt (\<lambda>a b. \<not> lt b a) ys
           \<and> same_outside ({khead l, ktail l, e} \<union> set xs) m m'"
proof -
  obtain m' where "list_insert_ordered lt l e m = Some m'" "lrep m' l (ins_ordered lt e xs)"
    "same_outside ({khead l, ktail l, e} \<union> set xs) m m'"
    using lrep_insert_ordered [OF assms(2), of e lt] assms(4,5) by (auto simp: linkable_def)
  moreover have "mset (ins_ordered lt e xs) = add_mset e (mset xs)"
    unfolding ins_ordered_def using mset_append [of "takeWhile (\<lambda>y. \<not> lt e y) xs" "dropWhile (\<lambda>y. \<not> lt e y) xs"]
    by simp
  ultimately show ?thesis
    using list_less.sorted_ins_ordered [OF assms(1,3)] by blast
qed

theorem list_insert_ordered_correct_witness:
  "\<exists>m' ys. list_insert_ordered (<) demo_list 5 demo_mem = Some m' \<and> lrep m' demo_list ys
     \<and> mset ys = {#5, 11, 12, 13#} \<and> sorted_wrt (\<lambda>a b. \<not> b < a) ys"
proof -
  have ord: "list_less ((<) :: nat \<Rightarrow> nat \<Rightarrow> bool)" by unfold_locales auto
  have ok: "linkable demo_list 5" by (simp add: linkable_def demo_list_def)
  from list_insert_ordered_correct [OF ord demo_lrep _ ok] show ?thesis by fastforce
qed

text \<open>
  C14: on a sorted list, \<open>list_unique\<close> with a separate list of duplicates returns; the list keeps a
  strictly increasing selection, the duplicates are appended to the other list, together they are
  the elements of before, and every duplicate is equivalent to an element that was kept.
\<close>

theorem list_unique_correct:
  assumes "list_less lt" and "lrep m l (x # xs)" and "lrep m dl ds"
    and "\<forall>a \<in> set (khead l # ktail l # x # xs). a \<notin> set (khead dl # ktail dl # ds)"
    and "sorted_wrt (\<lambda>a b. \<not> lt b a) (x # xs)"
  shows "\<exists>m' ks dups. list_unique lt l (Some dl) m = Some m' \<and> lrep m' l ks \<and> lrep m' dl (ds @ dups)
           \<and> sorted_wrt lt ks \<and> mset ks + mset dups = mset (x # xs)
           \<and> (\<forall>d \<in> set dups. \<exists>k \<in> set ks. \<not> lt k d \<and> \<not> lt d k)"
proof -
  let ?ks = "x # fst (split_unique lt x xs)" and ?ds = "snd (split_unique lt x xs)"
  obtain m' where "list_unique lt l (Some dl) m = Some m'" "lrep m' l ?ks" "lrep m' dl (ds @ ?ds)"
    using lrep_unique [OF assms(2-4)] by blast
  moreover have "mset ?ks + mset ?ds = mset (x # xs)" using split_unique_mset [of lt x xs] by simp
  ultimately show ?thesis
    using list_less.split_unique_sorted [OF assms(1,5)] list_less.split_unique_cover [OF assms(1)] by blast
qed

theorem list_unique_correct_witness:
  "\<exists>m m' ks dups. list_init \<lparr> khead = 20, ktail = 21 \<rparr> demo_mem = Some m
     \<and> list_unique (\<lambda>a b. a div 3 < b div 3) demo_list (Some \<lparr> khead = 20, ktail = 21 \<rparr>) m = Some m'
     \<and> lrep m' demo_list ks \<and> lrep m' \<lparr> khead = 20, ktail = 21 \<rparr> dups
     \<and> mset ks + mset dups = {#11, 12, 13#}"
proof -
  let ?d = "\<lparr> khead = 20, ktail = 21 \<rparr>"
  obtain m where m: "list_init ?d demo_mem = Some m" "lrep m ?d []" "same_outside {20, 21} demo_mem m"
    using lrep_init [of ?d demo_mem] by auto
  have r: "lrep m demo_list [11, 12, 13]"
    using lrep_frame [OF m(3), of demo_list "[11, 12, 13]"] demo_lrep by (simp add: demo_list_def)
  have ord: "list_less (\<lambda>a b. a div 3 < b div (3 :: nat))" by (rule list_less_key)
  have "\<forall>a \<in> set (khead demo_list # ktail demo_list # 11 # [12, 13]). a \<notin> set (khead ?d # ktail ?d # [])"
    by (simp add: demo_list_def)
  from list_unique_correct [OF ord r m(2) this] m(1) show ?thesis by fastforce
qed

end
