(* ===== verification/Encoding.thy ===== *)
theory Encoding
  imports Prelude
begin

text \<open>
  The byte representation of 32-bit words on the (little-endian) machine: what the kernel relies on
  when it stores an array of \<open>uint32_t\<close> or \<open>unsigned long\<close> in a sector and reads it back.
\<close>

definition word_bytes :: "u32 \<Rightarrow> byte list" where
  "word_bytes w = [ucast w, ucast (drop_bit 8 w), ucast (drop_bit 16 w), ucast (drop_bit 24 w)]"

definition bytes_word :: "byte \<Rightarrow> byte \<Rightarrow> byte \<Rightarrow> byte \<Rightarrow> u32" where
  "bytes_word a b c d =
     ucast a OR push_bit 8 (ucast b) OR push_bit 16 (ucast c) OR push_bit 24 (ucast d)"

definition words_bytes :: "u32 list \<Rightarrow> byte list" where
  "words_bytes ws = concat (map word_bytes ws)"

fun bytes_words :: "byte list \<Rightarrow> u32 list" where
  "bytes_words (a # b # c # d # bs) = bytes_word a b c d # bytes_words bs"
| "bytes_words _ = []"

lemma length_word_bytes [simp]: "length (word_bytes w) = 4"
  by (simp add: word_bytes_def)

lemma bytes_word_bytes: "bytes_word (ucast w) (ucast (drop_bit 8 w)) (ucast (drop_bit 16 w)) (ucast (drop_bit 24 w)) = w"
proof (rule bit_word_eqI)
  fix n assume "n < LENGTH(32)"
  then consider "n < 8" | "8 \<le> n" "n < 16" | "16 \<le> n" "n < 24" | "24 \<le> n" "n < 32" by force
  then show "bit (bytes_word (ucast w) (ucast (drop_bit 8 w)) (ucast (drop_bit 16 w)) (ucast (drop_bit 24 w))) n = bit w n"
    by cases (auto simp: bytes_word_def bit_simps)
qed

lemma word_bytes_word: "word_bytes (bytes_word a b c d) = [a, b, c, d]"
proof -
  have "ucast (bytes_word a b c d) = a" "ucast (drop_bit 8 (bytes_word a b c d)) = b"
    "ucast (drop_bit 16 (bytes_word a b c d)) = c" "ucast (drop_bit 24 (bytes_word a b c d)) = d"
    by (rule bit_word_eqI; auto simp: bytes_word_def bit_simps dest: bit_imp_le_length)+
  then show ?thesis by (simp add: word_bytes_def)
qed

lemma words_bytes_simps [simp]:
  "words_bytes [] = []" "words_bytes (w # ws) = word_bytes w @ words_bytes ws"
  "words_bytes (us @ ws) = words_bytes us @ words_bytes ws"
  by (simp_all add: words_bytes_def)

lemma length_words_bytes [simp]: "length (words_bytes ws) = 4 * length ws"
  by (induction ws) simp_all

lemma bytes_words_bytes [simp]: "bytes_words (words_bytes ws) = ws"
  by (induction ws) (simp_all add: word_bytes_def bytes_word_bytes)

lemma not_four_times [simp]: "Suc (Suc 0) \<noteq> 4 * n" "Suc (Suc (Suc 0)) \<noteq> 4 * n"
  by presburger+

lemma words_bytes_words: "length bs = 4 * n \<Longrightarrow> words_bytes (bytes_words bs) = bs"
proof (induction bs arbitrary: n rule: bytes_words.induct)
  case (1 a b c d bs)
  then show ?case by (cases n) (auto simp: word_bytes_word)
qed auto

lemma length_bytes_words: "length (bytes_words bs) = length bs div 4"
  by (induction bs rule: bytes_words.induct) simp_all

lemma bytes_words_append: "length as = 4 * n \<Longrightarrow> bytes_words (as @ bs) = bytes_words as @ bytes_words bs"
proof (induction as arbitrary: n rule: bytes_words.induct)
  case (1 a b c d as)
  then show ?case by (cases n) auto
qed auto

lemma words_bytes_eq_iff [simp]: "words_bytes us = words_bytes ws \<longleftrightarrow> us = ws"
  by (metis bytes_words_bytes)

end
