(* ===== verification/Bitmap.thy ===== *)
theory Bitmap
  imports Encoding
begin

text \<open>
  Bitmaps, \<open>lib/kernel/bitmap.c\<close>. A bitmap is a bit count and an array of 32-bit elements
  (\<open>elem_type\<close>, \<open>unsigned long\<close> on the 32-bit target). Indexing the array outside its
  length is \<open>None\<close>, as is a failed assertion. The abstraction of a bitmap is the list of its bits
  (\<open>bmap\<close>); every operation is shown to be the obvious operation on that list.
\<close>

section \<open>The bitmap (bitmap.c)\<close>

record bitmap =
  bit_cnt :: nat
  bits :: "u32 list"

definition ELEM_BITS :: nat where
  "ELEM_BITS = 32"

definition BITMAP_ERROR :: nat where
  "BITMAP_ERROR = SIZE_MAX"

definition elem_idx :: "nat \<Rightarrow> nat" where
  "elem_idx bit_idx = bit_idx div ELEM_BITS"

definition bit_mask :: "nat \<Rightarrow> u32" where
  "bit_mask bit_idx = push_bit (bit_idx mod ELEM_BITS) 1"

definition elem_cnt :: "nat \<Rightarrow> nat" where
  "elem_cnt n = DIV_ROUND_UP n ELEM_BITS"

definition byte_cnt :: "nat \<Rightarrow> nat" where
  "byte_cnt n = 4 * elem_cnt n"

definition last_mask :: "bitmap \<Rightarrow> u32" where
  "last_mask b = (let last_bits = bit_cnt b mod ELEM_BITS
     in if last_bits \<noteq> 0 then push_bit last_bits 1 - 1 else - 1)"

definition bitmap_size :: "bitmap \<Rightarrow> nat" where
  "bitmap_size b = bit_cnt b"

definition bitmap_buf_size :: "nat \<Rightarrow> nat" where
  "bitmap_buf_size n = 8 + byte_cnt n"

text \<open>Reading and writing one element of \<open>bits\<close>.\<close>

definition elem_update :: "(u32 \<Rightarrow> u32) \<Rightarrow> nat \<Rightarrow> bitmap \<Rightarrow> bitmap option" where
  "elem_update f idx b =
     (if idx < length (bits b) then Some (b\<lparr>bits := (bits b)[idx := f (bits b ! idx)]\<rparr>) else None)"

definition bitmap_mark :: "bitmap \<Rightarrow> nat \<Rightarrow> bitmap option" where
  "bitmap_mark b bit_idx = (let idx = elem_idx bit_idx; mask = bit_mask bit_idx
     in elem_update (\<lambda>w. w OR mask) idx b)"

definition bitmap_reset :: "bitmap \<Rightarrow> nat \<Rightarrow> bitmap option" where
  "bitmap_reset b bit_idx = (let idx = elem_idx bit_idx; mask = bit_mask bit_idx
     in elem_update (\<lambda>w. w AND NOT mask) idx b)"

definition bitmap_flip :: "bitmap \<Rightarrow> nat \<Rightarrow> bitmap option" where
  "bitmap_flip b bit_idx = (let idx = elem_idx bit_idx; mask = bit_mask bit_idx
     in elem_update (\<lambda>w. w XOR mask) idx b)"

definition bitmap_set :: "bitmap \<Rightarrow> nat \<Rightarrow> bool \<Rightarrow> bitmap option" where
  "bitmap_set b idx value = do {
     assert_c (idx < bit_cnt b);
     if value then bitmap_mark b idx else bitmap_reset b idx }"

definition bitmap_test :: "bitmap \<Rightarrow> nat \<Rightarrow> bool option" where
  "bitmap_test b idx = do {
     assert_c (idx < bit_cnt b);
     assert_c (elem_idx idx < length (bits b));
     Some (bits b ! elem_idx idx AND bit_mask idx \<noteq> 0) }"

text \<open>The loop of \<open>bitmap_set_multiple\<close>, with \<open>n\<close> iterations left.\<close>

fun set_multiple_loop :: "nat \<Rightarrow> nat \<Rightarrow> bool \<Rightarrow> bitmap \<Rightarrow> bitmap option" where
  "set_multiple_loop 0 at value b = Some b"
| "set_multiple_loop (Suc n) at value b = do {
     b \<leftarrow> bitmap_set b at value;
     set_multiple_loop n (szadd at 1) value b }"

definition bitmap_set_multiple :: "bitmap \<Rightarrow> nat \<Rightarrow> nat \<Rightarrow> bool \<Rightarrow> bitmap option" where
  "bitmap_set_multiple b start cnt value = do {
     assert_c (start \<le> bit_cnt b);
     assert_c (szadd start cnt \<le> bit_cnt b);
     set_multiple_loop cnt start value b }"

definition bitmap_set_all :: "bitmap \<Rightarrow> bool \<Rightarrow> bitmap option" where
  "bitmap_set_all b value = bitmap_set_multiple b 0 (bitmap_size b) value"

text \<open>
  \<open>bitmap_create\<close> takes what its two calls of \<open>malloc\<close> return: whether the structure could
  be allocated, and the array with its old contents (\<open>None\<close> for a null pointer). The result is
  the C pointer: \<open>Some None\<close> is \<open>NULL\<close>. \<open>bitmap_create_in_buf\<close> takes the words of the
  buffer after the structure.
\<close>

definition bitmap_create :: "bool \<Rightarrow> u32 list option \<Rightarrow> nat \<Rightarrow> bitmap option option" where
  "bitmap_create b_ok mem n =
     (if b_ok
      then if mem \<noteq> None \<or> n = 0
           then do {
             b \<leftarrow> bitmap_set_all \<lparr> bit_cnt = n, bits = (case mem of None \<Rightarrow> [] | Some ws \<Rightarrow> ws) \<rparr> False;
             Some (Some b) }
           else Some None
      else Some None)"

definition bitmap_create_in_buf :: "nat \<Rightarrow> u32 list \<Rightarrow> nat \<Rightarrow> bitmap option" where
  "bitmap_create_in_buf n ws block_size = do {
     assert_c (block_size \<ge> bitmap_buf_size n);
     bitmap_set_all \<lparr> bit_cnt = n, bits = ws \<rparr> False }"

fun count_loop :: "nat \<Rightarrow> nat \<Rightarrow> bool \<Rightarrow> bitmap \<Rightarrow> nat \<Rightarrow> nat option" where
  "count_loop 0 at value b value_cnt = Some value_cnt"
| "count_loop (Suc n) at value b value_cnt = do {
     t \<leftarrow> bitmap_test b at;
     count_loop n (szadd at 1) value b (if t = value then value_cnt + 1 else value_cnt) }"

definition bitmap_count :: "bitmap \<Rightarrow> nat \<Rightarrow> nat \<Rightarrow> bool \<Rightarrow> nat option" where
  "bitmap_count b start cnt value = do {
     assert_c (start \<le> bit_cnt b);
     assert_c (szadd start cnt \<le> bit_cnt b);
     count_loop cnt start value b 0 }"

fun contains_loop :: "nat \<Rightarrow> nat \<Rightarrow> bool \<Rightarrow> bitmap \<Rightarrow> bool option" where
  "contains_loop 0 at value b = Some False"
| "contains_loop (Suc n) at value b = do {
     t \<leftarrow> bitmap_test b at;
     if t = value then Some True else contains_loop n (szadd at 1) value b }"

definition bitmap_contains :: "bitmap \<Rightarrow> nat \<Rightarrow> nat \<Rightarrow> bool \<Rightarrow> bool option" where
  "bitmap_contains b start cnt value = do {
     assert_c (start \<le> bit_cnt b);
     assert_c (szadd start cnt \<le> bit_cnt b);
     contains_loop cnt start value b }"

definition bitmap_any :: "bitmap \<Rightarrow> nat \<Rightarrow> nat \<Rightarrow> bool option" where
  "bitmap_any b start cnt = bitmap_contains b start cnt True"

definition bitmap_none :: "bitmap \<Rightarrow> nat \<Rightarrow> nat \<Rightarrow> bool option" where
  "bitmap_none b start cnt = map_option Not (bitmap_contains b start cnt True)"

definition bitmap_all :: "bitmap \<Rightarrow> nat \<Rightarrow> nat \<Rightarrow> bool option" where
  "bitmap_all b start cnt = map_option Not (bitmap_contains b start cnt False)"

text \<open>The search loop of \<open>bitmap_scan\<close>: \<open>i\<close> runs up to \<open>last\<close> inclusive.\<close>

function scan_loop :: "bitmap \<Rightarrow> nat \<Rightarrow> nat \<Rightarrow> nat \<Rightarrow> bool \<Rightarrow> nat option" where
  "scan_loop b i last1 cnt value =
     (if i \<le> last1
      then do {
        c \<leftarrow> bitmap_contains b i cnt (\<not> value);
        if \<not> c then Some i else scan_loop b (i + 1) last1 cnt value }
      else Some BITMAP_ERROR)"
  by pat_completeness auto
termination
  by (relation "measure (\<lambda>(b, i, last1, cnt, value). Suc last1 - i)") auto

declare scan_loop.simps [simp del]

definition bitmap_scan :: "bitmap \<Rightarrow> nat \<Rightarrow> nat \<Rightarrow> bool \<Rightarrow> nat option" where
  "bitmap_scan b start cnt value = do {
     assert_c (start \<le> bit_cnt b);
     if cnt \<le> bit_cnt b
     then (let last1 = bit_cnt b - cnt in scan_loop b start last1 cnt value)
     else Some BITMAP_ERROR }"

definition bitmap_scan_and_flip :: "bitmap \<Rightarrow> nat \<Rightarrow> nat \<Rightarrow> bool \<Rightarrow> (nat \<times> bitmap) option" where
  "bitmap_scan_and_flip b start cnt value = do {
     idx \<leftarrow> bitmap_scan b start cnt value;
     if idx \<noteq> BITMAP_ERROR
     then do { b \<leftarrow> bitmap_set_multiple b idx cnt (\<not> value); Some (idx, b) }
     else Some (idx, b) }"

text \<open>
  File input and output. The file system is the caller's: \<open>rd size ofs s\<close> is
  \<open>file_read_at\<close> on the file (the bytes read, possibly fewer than asked for) and
  \<open>wr data ofs s\<close> is \<open>file_write_at\<close> (the number of bytes written), both on a state \<open>s\<close>.
\<close>

definition bitmap_file_size :: "bitmap \<Rightarrow> nat" where
  "bitmap_file_size b = byte_cnt (bit_cnt b)"

definition bitmap_read :: "(nat \<Rightarrow> nat \<Rightarrow> 's \<Rightarrow> (byte list \<times> 's) option) \<Rightarrow> bitmap \<Rightarrow> 's \<Rightarrow> (bool \<times> bitmap \<times> 's) option" where
  "bitmap_read rd b s =
     (if bit_cnt b > 0
      then do {
        let size = byte_cnt (bit_cnt b);
        (bs, s) \<leftarrow> rd size 0 s;
        let success = (length bs = size);
        let b = b\<lparr>bits := bytes_words (bs @ drop (length bs) (words_bytes (bits b)))\<rparr>;
        b \<leftarrow> elem_update (\<lambda>w. w AND last_mask b) (elem_cnt (bit_cnt b) - 1) b;
        Some (success, b, s) }
      else Some (True, b, s))"

definition bitmap_write :: "(byte list \<Rightarrow> nat \<Rightarrow> 's \<Rightarrow> (nat \<times> 's) option) \<Rightarrow> bitmap \<Rightarrow> 's \<Rightarrow> (bool \<times> 's) option" where
  "bitmap_write wr b s = do {
     let size = byte_cnt (bit_cnt b);
     assert_c (size \<le> 4 * length (bits b));
     (n, s) \<leftarrow> wr (take size (words_bytes (bits b))) 0 s;
     Some (n = size, s) }"

section \<open>The abstraction to a list of bits\<close>

definition bitmap_wf :: "bitmap \<Rightarrow> bool" where
  "bitmap_wf b \<longleftrightarrow> bit_cnt b < SIZE_MAX \<and> elem_cnt (bit_cnt b) \<le> length (bits b)"

definition bmap :: "bitmap \<Rightarrow> bool list" where
  "bmap b = map (\<lambda>i. bit (bits b ! (i div 32)) (i mod 32)) [0..<bit_cnt b]"

text \<open>The first of the positions \<open>i\<close>, \<open>i + 1\<close>, \<dots> where \<open>cnt\<close> bits have the value asked for.\<close>

definition group_at :: "bool list \<Rightarrow> nat \<Rightarrow> bool \<Rightarrow> nat \<Rightarrow> bool" where
  "group_at xs cnt value i \<longleftrightarrow> i + cnt \<le> length xs \<and> (\<forall>j < cnt. xs ! (i + j) = value)"

definition first_group :: "bool list \<Rightarrow> nat \<Rightarrow> nat \<Rightarrow> bool \<Rightarrow> nat option" where
  "first_group xs start cnt value = find (group_at xs cnt value) [start..<Suc (length xs)]"

definition set_range :: "bool list \<Rightarrow> nat \<Rightarrow> nat \<Rightarrow> bool \<Rightarrow> bool list" where
  "set_range xs start cnt value = take start xs @ replicate cnt value @ drop (start + cnt) xs"

section \<open>Lemmas on the abstraction\<close>

lemma length_bmap [simp]: "length (bmap b) = bit_cnt b"
  by (simp add: bmap_def)

lemma bmap_nth [simp]: "i < bit_cnt b \<Longrightarrow> bmap b ! i = bit (bits b ! (i div 32)) (i mod 32)"
  by (simp add: bmap_def)

lemma elem_idx_bound:
  assumes "bitmap_wf b" and "i < bit_cnt b"
  shows "elem_idx i < length (bits b)"
proof -
  have "i div 32 * 32 < bit_cnt b" using assms(2) by (meson div_times_less_eq_dividend le_less_trans)
  then have "i div 32 < elem_cnt (bit_cnt b)" by (simp add: elem_cnt_def ELEM_BITS_def DIV_ROUND_UP_iff)
  then show ?thesis using assms(1) by (simp add: bitmap_wf_def elem_idx_def ELEM_BITS_def)
qed

lemma elem_update_wf: "bitmap_wf b \<Longrightarrow> elem_update f i b = Some b' \<Longrightarrow> bitmap_wf b' \<and> bit_cnt b' = bit_cnt b"
  by (auto simp: elem_update_def bitmap_wf_def split: if_splits)

text \<open>The three read-modify-write operations change one bit of the abstraction.\<close>

lemma elem_update_bit:
  assumes wf: "bitmap_wf b" and i: "i < bit_cnt b"
    and f: "\<And>w n. n < 32 \<Longrightarrow> bit (f w) n = (if n = i mod 32 then v (bit w n) else bit w n)"
  shows "\<exists>b'. elem_update f (elem_idx i) b = Some b' \<and> bitmap_wf b' \<and> bit_cnt b' = bit_cnt b
           \<and> bmap b' = (bmap b)[i := v (bmap b ! i)]"
proof -
  let ?b = "b\<lparr>bits := (bits b)[i div 32 := f (bits b ! (i div 32))]\<rparr>"
  have idx: "i div 32 < length (bits b)" using elem_idx_bound [OF wf i] by (simp add: elem_idx_def ELEM_BITS_def)
  then have upd: "elem_update f (elem_idx i) b = Some ?b" by (simp add: elem_update_def elem_idx_def ELEM_BITS_def)
  have "bmap ?b = (bmap b)[i := v (bmap b ! i)]"
  proof (rule nth_equalityI)
    fix j assume "j < length (bmap ?b)"
    then have j: "j < bit_cnt b" by simp
    have ij: "i = j \<longleftrightarrow> i div 32 = j div 32 \<and> i mod 32 = j mod 32"
      by (metis div_mult_mod_eq)
    have "bmap ?b ! j = bit ((bits b)[i div 32 := f (bits b ! (i div 32))] ! (j div 32)) (j mod 32)"
      using j by simp
    also have "\<dots> = (if j div 32 = i div 32 then bit (f (bits b ! (i div 32))) (j mod 32) else bit (bits b ! (j div 32)) (j mod 32))"
      using idx by (simp add: nth_list_update)
    also have "\<dots> = (bmap b)[i := v (bmap b ! i)] ! j"
      using i j ij f [of "j mod 32"] by (auto simp: nth_list_update)
    finally show "bmap ?b ! j = (bmap b)[i := v (bmap b ! i)] ! j" .
  qed simp
  then show ?thesis using upd elem_update_wf [OF wf upd] by auto
qed

lemma bitmap_mark_bmap:
  assumes "bitmap_wf b" and "i < bit_cnt b"
  shows "\<exists>b'. bitmap_mark b i = Some b' \<and> bitmap_wf b' \<and> bit_cnt b' = bit_cnt b \<and> bmap b' = (bmap b)[i := True]"
  unfolding bitmap_mark_def Let_def
  by (rule elem_update_bit [OF assms, where v = "\<lambda>_. True"]) (auto simp: bit_mask_def ELEM_BITS_def bit_simps)

lemma bitmap_reset_bmap:
  assumes "bitmap_wf b" and "i < bit_cnt b"
  shows "\<exists>b'. bitmap_reset b i = Some b' \<and> bitmap_wf b' \<and> bit_cnt b' = bit_cnt b \<and> bmap b' = (bmap b)[i := False]"
  unfolding bitmap_reset_def Let_def
  by (rule elem_update_bit [OF assms, where v = "\<lambda>_. False"]) (auto simp: bit_mask_def ELEM_BITS_def bit_simps)

lemma bitmap_flip_bmap:
  assumes "bitmap_wf b" and "i < bit_cnt b"
  shows "\<exists>b'. bitmap_flip b i = Some b' \<and> bitmap_wf b' \<and> bit_cnt b' = bit_cnt b
           \<and> bmap b' = (bmap b)[i := \<not> bmap b ! i]"
  unfolding bitmap_flip_def Let_def
  by (rule elem_update_bit [OF assms]) (auto simp: bit_mask_def ELEM_BITS_def bit_simps)

lemma bitmap_set_bmap:
  assumes "bitmap_wf b" and "i < bit_cnt b"
  shows "\<exists>b'. bitmap_set b i v = Some b' \<and> bitmap_wf b' \<and> bit_cnt b' = bit_cnt b \<and> bmap b' = (bmap b)[i := v]"
  using bitmap_mark_bmap [OF assms] bitmap_reset_bmap [OF assms] assms(2)
  by (cases v) (simp_all add: bitmap_set_def)

lemma bitmap_test_bmap:
  assumes "bitmap_wf b" and "i < bit_cnt b"
  shows "bitmap_test b i = Some (bmap b ! i)"
  using elem_idx_bound [OF assms] assms(2)
  by (simp add: bitmap_test_def elem_idx_def bit_mask_def ELEM_BITS_def bit_iff_and_push_bit_not_eq_0)

section \<open>Ranges of bits\<close>

lemma bitmap_wf_SIZE_MAX: "bitmap_wf b \<Longrightarrow> i \<le> bit_cnt b \<Longrightarrow> i < SIZE_MAX"
  by (simp add: bitmap_wf_def)

lemma set_range_Suc:
  assumes "start + Suc n \<le> length xs"
  shows "set_range (xs[start := v]) (Suc start) n v = set_range xs start (Suc n) v"
proof -
  have "take (Suc start) (xs[start := v]) = take start xs @ [v]"
    using assms by (simp add: take_Suc_conv_app_nth)
  then show ?thesis using assms by (simp add: set_range_def)
qed

lemma set_multiple_loop_bmap:
  assumes "bitmap_wf b" and "start + n \<le> bit_cnt b"
  shows "\<exists>b'. set_multiple_loop n start v b = Some b' \<and> bitmap_wf b' \<and> bit_cnt b' = bit_cnt b
           \<and> bmap b' = set_range (bmap b) start n v"
  using assms
proof (induction n arbitrary: b start)
  case 0
  then show ?case by (simp add: set_range_def)
next
  case (Suc n)
  obtain b1 where b1: "bitmap_set b start v = Some b1" "bitmap_wf b1" "bit_cnt b1 = bit_cnt b"
    "bmap b1 = (bmap b)[start := v]"
    using bitmap_set_bmap [of b start v] Suc.prems by auto
  have "szadd start 1 = Suc start"
    using bitmap_wf_SIZE_MAX [of b start] Suc.prems by simp
  then show ?case
    using b1 Suc.IH [of b1 "Suc start"] Suc.prems(2) by (simp add: set_range_Suc)
qed

lemma bitmap_set_multiple_bmap:
  assumes "bitmap_wf b" and "start + cnt \<le> bit_cnt b"
  shows "\<exists>b'. bitmap_set_multiple b start cnt v = Some b' \<and> bitmap_wf b' \<and> bit_cnt b' = bit_cnt b
           \<and> bmap b' = set_range (bmap b) start cnt v"
proof -
  have "szadd start cnt = start + cnt" using bitmap_wf_SIZE_MAX [of b "start + cnt"] assms by simp
  then show ?thesis using set_multiple_loop_bmap [OF assms, of v] assms(2)
    by (simp add: bitmap_set_multiple_def)
qed

lemma contains_loop_bmap:
  assumes "bitmap_wf b" and "start + n \<le> bit_cnt b"
  shows "contains_loop n start v b = Some (\<exists>j < n. bmap b ! (start + j) = v)"
  using assms
proof (induction n arbitrary: start)
  case (Suc n)
  have "szadd start 1 = Suc start"
    using bitmap_wf_SIZE_MAX [of b start] Suc.prems by simp
  moreover have "(\<exists>j < Suc n. bmap b ! (start + j) = v) \<longleftrightarrow>
      bmap b ! start = v \<or> (\<exists>j < n. bmap b ! (Suc start + j) = v)"
    by (simp add: Ex_less_Suc2 del: bmap_nth)
  ultimately show ?case
    using Suc.IH [of "Suc start"] Suc.prems bitmap_test_bmap [of b start]
    by (simp del: bmap_nth)
qed simp

lemma bitmap_contains_bmap:
  assumes "bitmap_wf b" and "start + cnt \<le> bit_cnt b"
  shows "bitmap_contains b start cnt v = Some (\<exists>j < cnt. bmap b ! (start + j) = v)"
proof -
  have "szadd start cnt = start + cnt" using bitmap_wf_SIZE_MAX [of b "start + cnt"] assms by simp
  then show ?thesis using contains_loop_bmap [OF assms, of v] assms(2)
    by (simp add: bitmap_contains_def)
qed

lemma count_loop_bmap:
  assumes "bitmap_wf b" and "start + n \<le> bit_cnt b"
  shows "count_loop n start v b acc = Some (acc + card {j. j < n \<and> bmap b ! (start + j) = v})"
  using assms
proof (induction n arbitrary: start acc)
  case (Suc n)
  have sz: "szadd start 1 = Suc start"
    using bitmap_wf_SIZE_MAX [of b start] Suc.prems by simp
  let ?S = "{j. j < n \<and> bmap b ! (Suc start + j) = v}"
  have "{j. j < Suc n \<and> bmap b ! (start + j) = v} =
      (if bmap b ! start = v then {0} else {}) \<union> Suc ` ?S"
    by (auto simp: image_iff less_Suc_eq_0_disj simp del: bmap_nth)
  moreover have "card (insert 0 (Suc ` ?S)) = Suc (card ?S)" "card (Suc ` ?S) = card ?S"
    by (simp_all add: card_image)
  ultimately show ?case
    using Suc.IH [of "Suc start"] Suc.prems bitmap_test_bmap [of b start] sz
    by (simp del: bmap_nth)
qed simp

section \<open>Searching\<close>

lemma first_group_Some:
  "first_group xs start cnt v = Some r \<longleftrightarrow>
     start \<le> r \<and> group_at xs cnt v r \<and> (\<forall>k. start \<le> k \<longrightarrow> k < r \<longrightarrow> \<not> group_at xs cnt v k)"
proof
  assume "first_group xs start cnt v = Some r"
  then obtain i where i: "i < Suc (length xs) - start" "group_at xs cnt v (start + i)" "r = start + i"
    "\<forall>j < i. \<not> group_at xs cnt v (start + j)"
    by (auto simp: first_group_def find_Some_iff simp del: upt_Suc)
  have "\<not> group_at xs cnt v k" if "start \<le> k" "k < r" for k
    using i(3) i(4) [rule_format, of "k - start"] that by simp
  with i show "start \<le> r \<and> group_at xs cnt v r \<and> (\<forall>k. start \<le> k \<longrightarrow> k < r \<longrightarrow> \<not> group_at xs cnt v k)"
    by auto
next
  assume r: "start \<le> r \<and> group_at xs cnt v r \<and> (\<forall>k. start \<le> k \<longrightarrow> k < r \<longrightarrow> \<not> group_at xs cnt v k)"
  then have "r < Suc (length xs)" by (auto simp: group_at_def)
  with r show "first_group xs start cnt v = Some r"
    unfolding first_group_def find_Some_iff
    by (intro exI [of _ "r - start"]) (auto simp del: upt_Suc)
qed

lemma first_group_None: "first_group xs start cnt v = None \<longleftrightarrow> (\<forall>k \<ge> start. \<not> group_at xs cnt v k)"
proof -
  have "group_at xs cnt v k \<Longrightarrow> k < Suc (length xs)" for k by (auto simp: group_at_def)
  then show ?thesis by (auto simp: first_group_def find_None_iff simp del: upt_Suc)
qed

lemma first_group_step:
  "\<not> group_at xs cnt v i \<Longrightarrow> first_group xs i cnt v = first_group xs (Suc i) cnt v"
  by (cases "i < Suc (length xs)") (simp_all add: first_group_def upt_conv_Cons del: upt_Suc)

lemma scan_loop_bmap:
  assumes "bitmap_wf b" and "last1 + cnt = bit_cnt b"
  shows "scan_loop b i last1 cnt v = Some (case first_group (bmap b) i cnt v of None \<Rightarrow> BITMAP_ERROR | Some r \<Rightarrow> r)"
  using assms
proof (induction b i last1 cnt v rule: scan_loop.induct)
  case (1 b i last1 cnt v)
  show ?case
  proof (cases "i \<le> last1")
    case False
    then have "first_group (bmap b) i cnt v = None"
      using 1(3) by (auto simp: first_group_None group_at_def)
    then show ?thesis using False by (simp add: scan_loop.simps)
  next
    case True
    have c: "bitmap_contains b i cnt (\<not> v) = Some (\<not> group_at (bmap b) cnt v i)"
      using bitmap_contains_bmap [of b i cnt "\<not> v"] 1(2,3) True by (auto simp: group_at_def simp del: bmap_nth)
    show ?thesis
    proof (cases "group_at (bmap b) cnt v i")
      case g: True
      then have "first_group (bmap b) i cnt v = Some i" by (auto simp: first_group_Some)
      then show ?thesis using True c g by (simp add: scan_loop.simps)
    next
      case g: False
      then show ?thesis
        using True c 1(1) [OF True c] 1(2,3) by (simp add: scan_loop.simps [of b i] first_group_step)
    qed
  qed
qed

lemma bitmap_scan_bmap:
  assumes wf: "bitmap_wf b" and start: "start \<le> bit_cnt b"
  shows "bitmap_scan b start cnt v =
           Some (case first_group (bmap b) start cnt v of None \<Rightarrow> BITMAP_ERROR | Some r \<Rightarrow> r)"
proof (cases "cnt \<le> bit_cnt b")
  case True
  then show ?thesis
    using scan_loop_bmap [OF wf, of "bit_cnt b - cnt" cnt start v] start
    by (simp add: bitmap_scan_def)
next
  case False
  then have "first_group (bmap b) start cnt v = None" by (auto simp: first_group_None group_at_def)
  then show ?thesis using False start by (simp add: bitmap_scan_def)
qed

lemma group_at_bound: "bitmap_wf b \<Longrightarrow> group_at (bmap b) cnt v r \<Longrightarrow> r \<noteq> BITMAP_ERROR \<and> r + cnt \<le> bit_cnt b"
  by (auto simp: group_at_def BITMAP_ERROR_def bitmap_wf_def)

lemma bitmap_scan_and_flip_bmap:
  assumes wf: "bitmap_wf b" and start: "start \<le> bit_cnt b"
  shows "case first_group (bmap b) start cnt v of
           None \<Rightarrow> bitmap_scan_and_flip b start cnt v = Some (BITMAP_ERROR, b)
         | Some r \<Rightarrow> r \<noteq> BITMAP_ERROR \<and>
             (\<exists>b'. bitmap_scan_and_flip b start cnt v = Some (r, b') \<and> bitmap_wf b'
                 \<and> bit_cnt b' = bit_cnt b \<and> bmap b' = set_range (bmap b) r cnt (\<not> v))"
proof (cases "first_group (bmap b) start cnt v")
  case None
  then show ?thesis using bitmap_scan_bmap [OF assms, of cnt v] by (simp add: bitmap_scan_and_flip_def)
next
  case (Some r)
  then have g: "r \<noteq> BITMAP_ERROR" "r + cnt \<le> bit_cnt b"
    using group_at_bound [OF wf] by (auto simp: first_group_Some)
  then show ?thesis
    using Some bitmap_scan_bmap [OF assms, of cnt v] bitmap_set_multiple_bmap [OF wf g(2), of "\<not> v"]
    by (auto simp: bitmap_scan_and_flip_def)
qed

section \<open>Creation, files\<close>

lemma bitmap_set_all_bmap:
  assumes "bitmap_wf b"
  shows "\<exists>b'. bitmap_set_all b v = Some b' \<and> bitmap_wf b' \<and> bit_cnt b' = bit_cnt b
           \<and> bmap b' = replicate (bit_cnt b) v"
  using bitmap_set_multiple_bmap [OF assms, of 0 "bit_cnt b" v]
  by (simp add: bitmap_set_all_def bitmap_size_def set_range_def)

lemma elem_cnt_bits: "n \<le> 32 * elem_cnt n"
  using DIV_ROUND_UP_le_iff [of 32 n "elem_cnt n"] by (simp add: elem_cnt_def ELEM_BITS_def)

lemma elem_cnt_pos: "0 < n \<Longrightarrow> 0 < elem_cnt n"
  using elem_cnt_bits [of n] by (cases "elem_cnt n") auto

lemma last_mask_bit:
  assumes "n < 32"
  shows "bit (last_mask b) n \<longleftrightarrow> bit_cnt b mod 32 = 0 \<or> n < bit_cnt b mod 32"
proof -
  have "bit (push_bit k 1 - 1 :: u32) n \<longleftrightarrow> n < k" if "k < 32" for k
    using assms that by (simp add: push_bit_eq_mult bit_mask_iff flip: mask_eq_exp_minus_1)
  then show ?thesis using assms by (auto simp: last_mask_def ELEM_BITS_def Let_def)
qed

text \<open>Masking the unused bits of the last element changes no bit of the bitmap.\<close>

lemma mask_last_bmap:
  assumes wf: "bitmap_wf b" and pos: "0 < bit_cnt b"
  shows "\<exists>b'. elem_update (\<lambda>w. w AND last_mask b) (elem_cnt (bit_cnt b) - 1) b = Some b'
           \<and> bitmap_wf b' \<and> bit_cnt b' = bit_cnt b \<and> bmap b' = bmap b"
proof -
  let ?k = "elem_cnt (bit_cnt b) - 1"
  let ?b = "b\<lparr>bits := (bits b)[?k := bits b ! ?k AND last_mask b]\<rparr>"
  have k: "?k < length (bits b)" using elem_cnt_pos [OF pos] wf by (auto simp: bitmap_wf_def)
  then have upd: "elem_update (\<lambda>w. w AND last_mask b) ?k b = Some ?b" by (simp add: elem_update_def)
  have "bmap ?b = bmap b"
  proof (rule nth_equalityI)
    fix j assume "j < length (bmap ?b)"
    then have j: "j < bit_cnt b" by simp
    have "bit (last_mask b) (j mod 32)" if "j div 32 = ?k"
    proof -
      have "bit_cnt b \<le> 32 * (j div 32) + 32" using elem_cnt_bits [of "bit_cnt b"] that by simp
      then have "bit_cnt b mod 32 = 0 \<or> j mod 32 < bit_cnt b mod 32"
        using j div_mult_mod_eq [of "bit_cnt b" 32] div_mult_mod_eq [of j 32] div_le_mono [OF less_imp_le [OF j], of 32]
        by (cases "j div 32 < bit_cnt b div 32") linarith+
      then show ?thesis by (simp add: last_mask_bit)
    qed
    then show "bmap ?b ! j = bmap b ! j"
      using j k by (cases "j div 32 = ?k") (simp_all add: bit_and_iff)
  qed simp
  then show ?thesis using upd elem_update_wf [OF wf upd] by auto
qed

lemma bitmap_create_bmap:
  assumes "n < SIZE_MAX" and "elem_cnt n \<le> length ws"
  shows "\<exists>b. bitmap_create True (Some ws) n = Some (Some b) \<and> bitmap_wf b \<and> bmap b = replicate n False \<and> bit_cnt b = n"
  using bitmap_set_all_bmap [of "\<lparr> bit_cnt = n, bits = ws \<rparr>" False] assms
  by (auto simp: bitmap_create_def bitmap_wf_def)

lemma bytes_words_take:
  "k \<le> length ws \<Longrightarrow> take (4 * k) (words_bytes ws) = words_bytes (take k ws)"
proof (induction ws arbitrary: k)
  case (Cons w ws)
  then show ?case by (cases k) simp_all
qed simp

lemma bytes_words_drop:
  "k \<le> length ws \<Longrightarrow> drop (4 * k) (words_bytes ws) = words_bytes (drop k ws)"
proof (induction ws arbitrary: k)
  case (Cons w ws)
  then show ?case by (cases k) simp_all
qed simp

lemma bmap_cong:
  assumes "bit_cnt b = bit_cnt b'" and "\<forall>i < elem_cnt (bit_cnt b). bits b ! i = bits b' ! i"
  shows "bmap b = bmap b'"
proof (rule nth_equalityI)
  fix j assume "j < length (bmap b)"
  then have j: "j < bit_cnt b" by simp
  then have "j div 32 * 32 < bit_cnt b" by (meson div_times_less_eq_dividend le_less_trans)
  then have "j div 32 < elem_cnt (bit_cnt b)" by (simp add: elem_cnt_def ELEM_BITS_def DIV_ROUND_UP_iff)
  with j assms show "bmap b ! j = bmap b' ! j" by simp
qed (use assms in simp)

text \<open>What \<open>bitmap_write\<close> hands to the file, read back in full by \<open>bitmap_read\<close>, gives the same bits.\<close>

lemma bitmap_read_written:
  assumes b: "bitmap_wf b" and c: "bitmap_wf c" "bit_cnt c = bit_cnt b"
    and rd: "rd (byte_cnt (bit_cnt b)) 0 s = Some (take (byte_cnt (bit_cnt b)) (words_bytes (bits b)), s')"
  shows "\<exists>c' s''. bitmap_read rd c s = Some (True, c', s'') \<and> bitmap_wf c' \<and> bit_cnt c' = bit_cnt b
           \<and> bmap c' = bmap b \<and> (0 < bit_cnt b \<longrightarrow> s'' = s')"
proof (cases "bit_cnt b = 0")
  case True
  then show ?thesis using b c by (auto simp: bitmap_read_def bmap_def)
next
  case False
  let ?k = "elem_cnt (bit_cnt b)"
  let ?ws = "take ?k (bits b) @ drop ?k (bits c)"
  have k: "?k \<le> length (bits b)" "?k \<le> length (bits c)" using b c by (auto simp: bitmap_wf_def)
  let ?bs = "take (byte_cnt (bit_cnt b)) (words_bytes (bits b))"
  have bs: "?bs = words_bytes (take ?k (bits b))" using k by (simp add: byte_cnt_def bytes_words_take)
  then have len: "length ?bs = 4 * ?k" using k by simp
  have "bytes_words (?bs @ drop (length ?bs) (words_bytes (bits c))) = ?ws"
    unfolding len bs using k by (simp add: bytes_words_drop flip: words_bytes_simps(3))
  moreover let ?c = "c\<lparr>bits := ?ws\<rparr>"
  have wf: "bitmap_wf ?c" using c k by (auto simp: bitmap_wf_def)
  have "bmap ?c = bmap b" using c(2) k by (intro bmap_cong) (auto simp: nth_append)
  moreover obtain c' where "elem_update (\<lambda>w. w AND last_mask ?c) (?k - 1) ?c = Some c'" "bitmap_wf c'"
    "bit_cnt c' = bit_cnt b" "bmap c' = bmap ?c"
    using mask_last_bmap [OF wf] False c(2) by auto
  ultimately show ?thesis
    using False c(2) rd len by (simp add: bitmap_read_def Let_def byte_cnt_def)
qed

section \<open>A bitmap as an allocator of extents\<close>

text \<open>
  The contract the page allocator and the free map of the file system rely on. \<open>inuse\<close> is the set
  of allocated units; a request returns \<open>err\<close> or the first unit of a free extent.
\<close>

fun alloc_all :: "(nat \<Rightarrow> 's \<Rightarrow> (nat \<times> 's) option) \<Rightarrow> nat list \<Rightarrow> 's \<Rightarrow> ((nat \<times> nat) list \<times> 's) option" where
  "alloc_all alloc [] s = Some ([], s)"
| "alloc_all alloc (n # ns) s = do {
     (r, s) \<leftarrow> alloc n s;
     (rs, s) \<leftarrow> alloc_all alloc ns s;
     Some ((r, n) # rs, s) }"

definition extent :: "nat \<Rightarrow> nat \<times> nat \<Rightarrow> nat set" where
  "extent err e = (if fst e = err then {} else {fst e..<fst e + snd e})"

locale extent_allocator =
  fixes ok :: "'s \<Rightarrow> bool" and inuse :: "'s \<Rightarrow> nat set"
    and alloc :: "nat \<Rightarrow> 's \<Rightarrow> (nat \<times> 's) option" and err :: nat
    and release :: "nat \<Rightarrow> nat \<Rightarrow> 's \<Rightarrow> 's option"
  assumes alloc_ok: "ok s \<Longrightarrow> \<exists>r s'. alloc n s = Some (r, s') \<and> ok s'
      \<and> extent err (r, n) \<inter> inuse s = {} \<and> inuse s' = inuse s \<union> extent err (r, n)"
    and release_ok: "ok s \<Longrightarrow> 0 < n \<Longrightarrow> {i..<i + n} \<subseteq> inuse s \<Longrightarrow>
      \<exists>s'. release i n s = Some s' \<and> ok s' \<and> inuse s' = inuse s - {i..<i + n}"
begin

lemma alloc_all_disjoint:
  "ok s \<Longrightarrow> \<exists>rs s'. alloc_all alloc ns s = Some (rs, s') \<and> ok s' \<and> map snd rs = ns
     \<and> inuse s' = inuse s \<union> (\<Union>e \<in> set rs. extent err e)
     \<and> (\<forall>e \<in> set rs. extent err e \<inter> inuse s = {})
     \<and> sorted_wrt (\<lambda>e f. extent err e \<inter> extent err f = {}) rs"
proof (induction ns arbitrary: s)
  case (Cons n ns)
  obtain r s1 where r: "alloc n s = Some (r, s1)" "ok s1" "extent err (r, n) \<inter> inuse s = {}"
    "inuse s1 = inuse s \<union> extent err (r, n)"
    using alloc_ok [OF Cons.prems, of n] by blast
  obtain rs s2 where rs: "alloc_all alloc ns s1 = Some (rs, s2)" "ok s2" "map snd rs = ns"
    "inuse s2 = inuse s1 \<union> (\<Union>e \<in> set rs. extent err e)"
    "\<forall>e \<in> set rs. extent err e \<inter> inuse s1 = {}"
    "sorted_wrt (\<lambda>e f. extent err e \<inter> extent err f = {}) rs"
    using Cons.IH [OF r(2)] by blast
  have "\<forall>e \<in> set rs. extent err e \<inter> inuse s = {} \<and> extent err (r, n) \<inter> extent err e = {}"
    using rs(5) unfolding r(4) by blast
  then show ?case using r rs by (auto simp: Un_assoc)
qed simp

lemma alloc_release:
  assumes "ok s" and "alloc n s = Some (r, s1)" and "r \<noteq> err" and "0 < n"
  shows "\<exists>s2. release r n s1 = Some s2 \<and> ok s2 \<and> inuse s2 = inuse s"
proof -
  have a: "ok s1" "{r..<r + n} \<inter> inuse s = {}" "inuse s1 = inuse s \<union> {r..<r + n}"
    using alloc_ok [OF assms(1), of n] assms(2,3) by (auto simp: extent_def)
  then obtain s2 where "release r n s1 = Some s2" "ok s2" "inuse s2 = inuse s1 - {r..<r + n}"
    using release_ok [of s1 n r] assms(4) by auto
  with a show ?thesis by auto
qed

end

definition used_bits :: "bitmap \<Rightarrow> nat set" where
  "used_bits b = {i. i < bit_cnt b \<and> bmap b ! i}"

lemma set_range_nth:
  "start + n \<le> length xs \<Longrightarrow> i < length xs \<Longrightarrow>
     set_range xs start n v ! i = (if start \<le> i \<and> i < start + n then v else xs ! i)"
  by (auto simp: set_range_def nth_append)

lemma used_bits_set_range:
  assumes "bmap b' = set_range (bmap b) start n v" and "bit_cnt b' = bit_cnt b" and "start + n \<le> bit_cnt b"
  shows "used_bits b' = (if v then used_bits b \<union> {start..<start + n} else used_bits b - {start..<start + n})"
  using assms(2,3) by (auto simp: used_bits_def assms(1) set_range_nth simp del: bmap_nth split: if_splits)

interpretation bm: extent_allocator bitmap_wf used_bits
  "\<lambda>n b. bitmap_scan_and_flip b 0 n False" BITMAP_ERROR "\<lambda>i n b. bitmap_set_multiple b i n False"
proof
  fix b n assume wf: "bitmap_wf b"
  show "\<exists>r b'. bitmap_scan_and_flip b 0 n False = Some (r, b') \<and> bitmap_wf b'
      \<and> extent BITMAP_ERROR (r, n) \<inter> used_bits b = {} \<and> used_bits b' = used_bits b \<union> extent BITMAP_ERROR (r, n)"
  proof (cases "first_group (bmap b) 0 n False")
    case None
    then show ?thesis using bitmap_scan_and_flip_bmap [OF wf, of 0 n False] wf by (auto simp: extent_def)
  next
    case (Some r)
    then obtain b' where b': "r \<noteq> BITMAP_ERROR" "bitmap_scan_and_flip b 0 n False = Some (r, b')" "bitmap_wf b'"
      "bit_cnt b' = bit_cnt b" "bmap b' = set_range (bmap b) r n True"
      using bitmap_scan_and_flip_bmap [OF wf, of 0 n False] by auto
    have g: "group_at (bmap b) n False r" using Some by (simp add: first_group_Some)
    then have "\<not> bmap b ! i" if "r \<le> i" "i < r + n" for i
      using that by (auto simp: group_at_def dest: spec [of _ "i - r"])
    then have "{r..<r + n} \<inter> used_bits b = {}" by (auto simp: used_bits_def simp del: bmap_nth)
    then show ?thesis
      using b' used_bits_set_range [OF b'(5,4)] g by (auto simp: extent_def group_at_def)
  qed
next
  fix b i and n :: nat assume wf: "bitmap_wf b" and n: "0 < n" and sub: "{i..<i + n} \<subseteq> used_bits b"
  have "i + n - 1 \<in> used_bits b" using sub n by auto
  then have le: "i + n \<le> bit_cnt b" using n by (auto simp: used_bits_def)
  from bitmap_set_multiple_bmap [OF wf this, of False]
  show "\<exists>b'. bitmap_set_multiple b i n False = Some b' \<and> bitmap_wf b' \<and> used_bits b' = used_bits b - {i..<i + n}"
    using used_bits_set_range [OF _ _ le, of _ False] by auto
qed

section \<open>Properties\<close>

definition demo_bitmap :: bitmap where
  "demo_bitmap = \<lparr> bit_cnt = 40, bits = [7, 0] \<rparr>"

lemma demo_bitmap_wf: "bitmap_wf demo_bitmap"
  by (simp add: demo_bitmap_def bitmap_wf_def elem_cnt_def DIV_ROUND_UP_def ELEM_BITS_def SIZE_MAX_def)



text \<open>
  C16: requests served from one bitmap never overlap: running any list of requests for consecutive
  free bits through \<open>bitmap_scan_and_flip\<close> returns, the extents handed out are pairwise disjoint and
  disjoint from the bits that were set before, and the set bits afterwards are the old ones and
  the extents.
\<close>

theorem bitmap_extents_disjoint:
  assumes "bitmap_wf b"
  shows "\<exists>rs b'. alloc_all (\<lambda>n b. bitmap_scan_and_flip b 0 n False) ns b = Some (rs, b') \<and> bitmap_wf b'
     \<and> map snd rs = ns
     \<and> used_bits b' = used_bits b \<union> (\<Union>e \<in> set rs. extent BITMAP_ERROR e)
     \<and> (\<forall>e \<in> set rs. extent BITMAP_ERROR e \<inter> used_bits b = {})
     \<and> sorted_wrt (\<lambda>e f. extent BITMAP_ERROR e \<inter> extent BITMAP_ERROR f = {}) rs"
  using bm.alloc_all_disjoint [OF assms] .

theorem bitmap_extents_disjoint_witness:
  "\<exists>rs b'. alloc_all (\<lambda>n b. bitmap_scan_and_flip b 0 n False) [5, 64, 2] demo_bitmap = Some (rs, b')
     \<and> map snd rs = [5, 64, 2] \<and> sorted_wrt (\<lambda>e f. extent BITMAP_ERROR e \<inter> extent BITMAP_ERROR f = {}) rs"
  using bitmap_extents_disjoint [OF demo_bitmap_wf, of "[5, 64, 2]"] by (elim exE conjE) (intro exI conjI)



end
