(* ===== verification/Block.thy ===== *)
theory Block
  imports Encoding
begin

text \<open>
  Block devices and partitions, \<open>devices/block.c\<close> and \<open>devices/partition.c\<close>.

  A block device carries the contents its driver serves: \<open>block->ops->read\<close> returns
  \<open>bdata sector\<close> and \<open>block->ops->write\<close> replaces it. The contract of the two operations is the
  locale \<open>sector_store\<close>; it holds of \<open>block_read\<close>/\<open>block_write\<close> and of the operations that
  \<open>partition.c\<close> registers for a partition of another device. Pointers to devices are positions in
  the list \<open>all_blocks\<close>, from which nothing is ever removed. Messages printed on the console are
  not modelled.
\<close>

section \<open>Devices (block.c)\<close>

datatype block_type =
  BLOCK_KERNEL | BLOCK_FILESYS | BLOCK_SCRATCH | BLOCK_SWAP | BLOCK_RAW | BLOCK_FOREIGN

definition BLOCK_SECTOR_SIZE :: nat where
  "BLOCK_SECTOR_SIZE = 512"

text \<open>The enumerators below \<open>BLOCK_ROLE_CNT\<close>.\<close>

definition is_role :: "block_type \<Rightarrow> bool" where
  "is_role t = (t \<in> {BLOCK_KERNEL, BLOCK_FILESYS, BLOCK_SCRATCH, BLOCK_SWAP})"

record block =
  bname :: string
  btype :: block_type
  bsize :: nat
  bdata :: "nat \<Rightarrow> byte list"
  read_cnt :: u64
  write_cnt :: u64

fun block_type_name :: "block_type \<Rightarrow> string" where
  "block_type_name BLOCK_KERNEL = ''kernel''"
| "block_type_name BLOCK_FILESYS = ''filesys''"
| "block_type_name BLOCK_SCRATCH = ''scratch''"
| "block_type_name BLOCK_SWAP = ''swap''"
| "block_type_name BLOCK_RAW = ''raw''"
| "block_type_name BLOCK_FOREIGN = ''foreign''"

definition check_sector :: "block \<Rightarrow> nat \<Rightarrow> unit option" where
  "check_sector blk sector = (if sector \<ge> bsize blk then None else Some ())"

definition block_read :: "block \<Rightarrow> nat \<Rightarrow> bool \<Rightarrow> (byte list \<times> block) option" where
  "block_read blk sector is_miss = do {
     check_sector blk sector;
     let buffer = bdata blk sector;
     Some (buffer, if is_miss then blk\<lparr>read_cnt := read_cnt blk + 1\<rparr> else blk) }"

definition block_write :: "block \<Rightarrow> nat \<Rightarrow> byte list \<Rightarrow> bool \<Rightarrow> block option" where
  "block_write blk sector buffer is_miss = do {
     check_sector blk sector;
     assert_c (btype blk \<noteq> BLOCK_FOREIGN);
     let blk = blk\<lparr>bdata := (bdata blk)(sector := buffer)\<rparr>;
     Some (if is_miss then blk\<lparr>write_cnt := write_cnt blk + 1\<rparr> else blk) }"

definition block_size :: "block \<Rightarrow> nat" where
  "block_size blk = bsize blk"

definition block_name :: "block \<Rightarrow> string" where
  "block_name blk = bname blk"

definition block_type_of :: "block \<Rightarrow> block_type" where
  "block_type_of blk = btype blk"

text \<open>The registry: \<open>all_blocks\<close> in probe order, and the device of each role.\<close>

record block_reg =
  all_blocks :: "block list"
  block_by_role :: "block_type \<Rightarrow> nat option"

definition block_get_role :: "block_reg \<Rightarrow> block_type \<Rightarrow> nat option option" where
  "block_get_role r role = do { assert_c (is_role role); Some (block_by_role r role) }"

definition block_set_role :: "block_type \<Rightarrow> nat option \<Rightarrow> block_reg \<Rightarrow> block_reg option" where
  "block_set_role role blk r = do {
     assert_c (is_role role);
     Some (r\<lparr>block_by_role := (block_by_role r)(role := blk)\<rparr>) }"

definition list_elem_to_block :: "block_reg \<Rightarrow> nat \<Rightarrow> nat option" where
  "list_elem_to_block r i = (if i < length (all_blocks r) then Some i else None)"

definition block_first :: "block_reg \<Rightarrow> nat option" where
  "block_first r = list_elem_to_block r 0"

definition block_next :: "block_reg \<Rightarrow> nat \<Rightarrow> nat option" where
  "block_next r i = list_elem_to_block r (i + 1)"

fun get_by_name_loop :: "string \<Rightarrow> nat \<Rightarrow> block list \<Rightarrow> nat option" where
  "get_by_name_loop name i [] = None"
| "get_by_name_loop name i (blk # blks) =
     (if name = bname blk then Some i else get_by_name_loop name (i + 1) blks)"

definition block_get_by_name :: "block_reg \<Rightarrow> string \<Rightarrow> nat option" where
  "block_get_by_name r name = get_by_name_loop name 0 (all_blocks r)"

text \<open>
  \<open>block_register\<close>: \<open>mem_ok\<close> says whether \<open>malloc\<close> returned memory; the name is cut to the
  15 characters that \<open>strlcpy\<close> keeps; \<open>contents\<close> is what the driver \<open>ops\<close> serves.
\<close>

definition block_register :: "bool \<Rightarrow> string \<Rightarrow> block_type \<Rightarrow> nat \<Rightarrow> (nat \<Rightarrow> byte list) \<Rightarrow> block_reg \<Rightarrow> (nat \<times> block_reg) option" where
  "block_register mem_ok name type sz contents r = do {
     assert_c mem_ok;
     let blk = \<lparr> bname = take 15 name, btype = type, bsize = sz, bdata = contents, read_cnt = 0, write_cnt = 0 \<rparr>;
     Some (length (all_blocks r), r\<lparr>all_blocks := all_blocks r @ [blk]\<rparr>) }"

section \<open>Partitions (partition.c)\<close>

text \<open>One partition table entry: type, offset and size; the CHS fields are not read.\<close>

record partition_table_entry =
  pe_type :: byte
  pe_offset :: u32
  pe_size :: u32

record partition =
  p_block :: nat
  p_start :: nat

definition table_entry :: "byte list \<Rightarrow> nat \<Rightarrow> partition_table_entry" where
  "table_entry pt i = (let e = drop (446 + 16 * i) pt in
     \<lparr> pe_type = e ! 4,
       pe_offset = bytes_word (e ! 8) (e ! 9) (e ! 10) (e ! 11),
       pe_size = bytes_word (e ! 12) (e ! 13) (e ! 14) (e ! 15) \<rparr>)"

definition is_extended :: "byte \<Rightarrow> bool" where
  "is_extended t = (t = 0x05 \<or> t = 0x0f \<or> t = 0x85 \<or> t = 0xc5)"

definition part_block_type :: "byte \<Rightarrow> block_type" where
  "part_block_type part_type =
     (if part_type = 0x20 then BLOCK_KERNEL
      else if part_type = 0x21 then BLOCK_FILESYS
      else if part_type = 0x22 then BLOCK_SCRATCH
      else if part_type = 0x23 then BLOCK_SWAP
      else BLOCK_FOREIGN)"

text \<open>
  What \<open>found_partition\<close> decides: \<open>None\<close> when only a message is printed, otherwise the type, start
  and size of the device it registers. \<open>start + size\<close> is a 32-bit addition.
\<close>

definition found_partition :: "nat \<Rightarrow> byte \<Rightarrow> u32 \<Rightarrow> u32 \<Rightarrow> (block_type \<times> nat \<times> nat) option" where
  "found_partition dev_size part_type start sz =
     (if unat start \<ge> dev_size then None
      else if start + sz < start \<or> unat (start + sz) > dev_size then None
      else Some (part_block_type part_type, unat start, unat sz))"

text \<open>
  \<open>read_partition_table\<close> as the code is: whatever \<open>sector\<close> is, sector 0 is read
  (\<open>block_read (block, 0, pt, false)\<close>). The result is the list of partitions registered, with
  their numbers, and \<open>*part_nr\<close>; \<open>mem_ok\<close> says whether \<open>malloc\<close> succeeds; \<open>fuel\<close> bounds the depth of the recursion, and running out of it is
  \<open>None\<close>.
\<close>

fun read_partition_table :: "bool \<Rightarrow> nat \<Rightarrow> block \<Rightarrow> u32 \<Rightarrow> u32 \<Rightarrow> nat \<Rightarrow> ((nat \<times> block_type \<times> nat \<times> nat) list \<times> nat) option"
and read_partition_entries :: "bool \<Rightarrow> nat \<Rightarrow> block \<Rightarrow> u32 \<Rightarrow> u32 \<Rightarrow> nat \<Rightarrow> partition_table_entry list \<Rightarrow> ((nat \<times> block_type \<times> nat \<times> nat) list \<times> nat) option" where
  "read_partition_table mem_ok 0 blk sector ext part_nr = None"
| "read_partition_table mem_ok (Suc fuel) blk sector ext part_nr =
     (if unat sector \<ge> block_size blk then Some ([], part_nr)
      else do {
        assert_c mem_ok;
        (pt, _) \<leftarrow> block_read blk 0 False;
        if \<not> (pt ! 510 = 0x55 \<and> pt ! 511 = 0xaa) then Some ([], part_nr)
        else read_partition_entries mem_ok fuel blk sector ext part_nr (map (table_entry pt) [0..<4]) })"
| "read_partition_entries mem_ok fuel blk sector ext part_nr [] = Some ([], part_nr)"
| "read_partition_entries mem_ok fuel blk sector ext part_nr (e # es) =
     (if pe_size e = 0 \<or> pe_type e = 0
      then read_partition_entries mem_ok fuel blk sector ext part_nr es
      else if is_extended (pe_type e)
      then do {
        (found, part_nr) \<leftarrow>
          (if sector = 0 then read_partition_table mem_ok fuel blk (pe_offset e) (pe_offset e) part_nr
           else read_partition_table mem_ok fuel blk (pe_offset e + ext) ext part_nr);
        (rest, part_nr) \<leftarrow> read_partition_entries mem_ok fuel blk sector ext part_nr es;
        Some (found @ rest, part_nr) }
      else do {
        let part_nr = part_nr + 1;
        let found = (case found_partition (block_size blk) (pe_type e) (pe_offset e + sector) (pe_size e) of
                       None \<Rightarrow> [] | Some p \<Rightarrow> [(part_nr, p)]);
        (rest, part_nr) \<leftarrow> read_partition_entries mem_ok fuel blk sector ext part_nr es;
        Some (found @ rest, part_nr) })"

definition partition_scan :: "bool \<Rightarrow> nat \<Rightarrow> block \<Rightarrow> ((nat \<times> block_type \<times> nat \<times> nat) list \<times> nat) option" where
  "partition_scan mem_ok fuel blk = read_partition_table mem_ok fuel blk 0 0 0"

text \<open>The table of partition type names, and the lookup in it.\<close>

definition partition_type_names :: "(byte \<times> string) list" where
  "partition_type_names =
    [(0x00, ''Empty''), (0x01, ''FAT12''), (0x02, ''XENIX root''), (0x03, ''XENIX usr''),
     (0x04, ''FAT16 <32M''), (0x05, ''Extended''), (0x06, ''FAT16''), (0x07, ''HPFS/NTFS''),
     (0x08, ''AIX''), (0x09, ''AIX bootable''), (0x0a, ''OS/2 Boot Manager''), (0x0b, ''W95 FAT32''),
     (0x0c, ''W95 FAT32 (LBA)''), (0x0e, ''W95 FAT16 (LBA)''),
     (0x0f, ''W95 Ext'' @ [CHR 0x27] @ ''d (LBA)''), (0x10, ''OPUS''), (0x11, ''Hidden FAT12''),
     (0x12, ''Compaq diagnostics''), (0x14, ''Hidden FAT16 <32M''), (0x16, ''Hidden FAT16''),
     (0x17, ''Hidden HPFS/NTFS''), (0x18, ''AST SmartSleep''), (0x1b, ''Hidden W95 FAT32''),
     (0x1c, ''Hidden W95 FAT32 (LBA)''), (0x1e, ''Hidden W95 FAT16 (LBA)''),
     (0x20, ''Pintos OS kernel''), (0x21, ''Pintos file system''), (0x22, ''Pintos scratch''),
     (0x23, ''Pintos swap''), (0x24, ''NEC DOS''), (0x39, ''Plan 9''),
     (0x3c, ''PartitionMagic recovery''), (0x40, ''Venix 80286''), (0x41, ''PPC PReP Boot''),
     (0x42, ''SFS''), (0x4d, ''QNX4.x''), (0x4e, ''QNX4.x 2nd part''), (0x4f, ''QNX4.x 3rd part''),
     (0x50, ''OnTrack DM''), (0x51, ''OnTrack DM6 Aux1''), (0x52, ''CP/M''),
     (0x53, ''OnTrack DM6 Aux3''), (0x54, ''OnTrackDM6''), (0x55, ''EZ-Drive''),
     (0x56, ''Golden Bow''), (0x5c, ''Priam Edisk''), (0x61, ''SpeedStor''),
     (0x63, ''GNU HURD or SysV''), (0x64, ''Novell Netware 286''), (0x65, ''Novell Netware 386''),
     (0x70, ''DiskSecure Multi-Boot''), (0x75, ''PC/IX''), (0x80, ''Old Minix''),
     (0x81, ''Minix / old Linux''), (0x82, ''Linux swap / Solaris''), (0x83, ''Linux''),
     (0x84, ''OS/2 hidden C: drive''), (0x85, ''Linux extended''), (0x86, ''NTFS volume set''),
     (0x87, ''NTFS volume set''), (0x88, ''Linux plaintext''), (0x8e, ''Linux LVM''),
     (0x93, ''Amoeba''), (0x94, ''Amoeba BBT''), (0x9f, ''BSD/OS''),
     (0xa0, ''IBM Thinkpad hibernation''), (0xa5, ''FreeBSD''), (0xa6, ''OpenBSD''),
     (0xa7, ''NeXTSTEP''), (0xa8, ''Darwin UFS''), (0xa9, ''NetBSD''), (0xab, ''Darwin boot''),
     (0xb7, ''BSDI fs''), (0xb8, ''BSDI swap''), (0xbb, ''Boot Wizard hidden''),
     (0xbe, ''Solaris boot''), (0xbf, ''Solaris''), (0xc1, ''DRDOS/sec (FAT-12)''),
     (0xc4, ''DRDOS/sec (FAT-16 < 32M)''), (0xc6, ''DRDOS/sec (FAT-16)''), (0xc7, ''Syrinx''),
     (0xda, ''Non-FS data''), (0xdb, ''CP/M / CTOS / ...''), (0xde, ''Dell Utility''),
     (0xdf, ''BootIt''), (0xe1, ''DOS access''), (0xe3, ''DOS R/O''), (0xe4, ''SpeedStor''),
     (0xeb, ''BeOS fs''), (0xee, ''EFI GPT''), (0xef, ''EFI (FAT-12/16/32)''),
     (0xf0, ''Linux/PA-RISC boot''), (0xf1, ''SpeedStor''), (0xf4, ''SpeedStor''),
     (0xf2, ''DOS secondary''), (0xfd, ''Linux raid autodetect''), (0xfe, ''LANstep''),
     (0xff, ''BBT'')]"

definition partition_type_name :: "byte \<Rightarrow> string" where
  "partition_type_name type =
     (case map_of partition_type_names type of Some n \<Rightarrow> n | None \<Rightarrow> ''Unknown'')"

text \<open>The operations of a partition on its parent device; \<open>p->start + sector\<close> is 32 bits wide.\<close>

definition part_sector :: "partition \<Rightarrow> nat \<Rightarrow> nat" where
  "part_sector p sector = unat (of_nat (p_start p) + of_nat sector :: u32)"

definition partition_read :: "partition \<Rightarrow> nat \<Rightarrow> block \<Rightarrow> (byte list \<times> block) option" where
  "partition_read p sector parent = block_read parent (part_sector p sector) False"

definition partition_write :: "partition \<Rightarrow> nat \<Rightarrow> byte list \<Rightarrow> block \<Rightarrow> block option" where
  "partition_write p sector buffer parent = block_write parent (part_sector p sector) buffer False"

section \<open>The contract of a sector store\<close>

fun write_all :: "(nat \<Rightarrow> byte list \<Rightarrow> 's \<Rightarrow> 's option) \<Rightarrow> (nat \<times> byte list) list \<Rightarrow> 's \<Rightarrow> 's option" where
  "write_all wr [] s = Some s"
| "write_all wr ((k, buf) # ws) s = do { s \<leftarrow> wr k buf s; write_all wr ws s }"

text \<open>
  \<open>cont s k\<close> is what sector \<open>k\<close> holds and \<open>nsec\<close> the number of sectors. The client lemma: after any
  sequence of writes, a sector reads as the last buffer written to it.
\<close>

locale sector_store =
  fixes ok :: "'s \<Rightarrow> bool" and nsec :: nat and cont :: "'s \<Rightarrow> nat \<Rightarrow> byte list"
    and rd :: "nat \<Rightarrow> 's \<Rightarrow> (byte list \<times> 's) option" and wr :: "nat \<Rightarrow> byte list \<Rightarrow> 's \<Rightarrow> 's option"
  assumes rd_ok: "ok s \<Longrightarrow> k < nsec \<Longrightarrow> \<exists>s'. rd k s = Some (cont s k, s') \<and> ok s' \<and> (\<forall>j < nsec. cont s' j = cont s j)"
    and wr_ok: "ok s \<Longrightarrow> k < nsec \<Longrightarrow>
      \<exists>s'. wr k buf s = Some s' \<and> ok s' \<and> (\<forall>j < nsec. cont s' j = (if j = k then buf else cont s j))"
begin

lemma write_all_cont:
  "ok s \<Longrightarrow> \<forall>w \<in> set ws. fst w < nsec \<Longrightarrow>
     \<exists>s'. write_all wr ws s = Some s' \<and> ok s'
       \<and> (\<forall>j < nsec. cont s' j = (case map_of (rev ws) j of Some buf \<Rightarrow> buf | None \<Rightarrow> cont s j))"
proof (induction ws arbitrary: s)
  case (Cons w ws)
  obtain k buf where w: "w = (k, buf)" by (cases w)
  obtain s1 where s1: "wr k buf s = Some s1" "ok s1" "\<forall>j < nsec. cont s1 j = (if j = k then buf else cont s j)"
    using wr_ok [of s k buf] Cons.prems w by auto
  obtain s2 where s2: "write_all wr ws s1 = Some s2" "ok s2"
    "\<forall>j < nsec. cont s2 j = (case map_of (rev ws) j of Some b \<Rightarrow> b | None \<Rightarrow> cont s1 j)"
    using Cons.IH [OF s1(2)] Cons.prems by auto
  have "\<forall>j < nsec. cont s2 j = (case map_of (rev (w # ws)) j of Some b \<Rightarrow> b | None \<Rightarrow> cont s j)"
    using s1(3) s2(3) w by (simp add: map_add_def split: option.splits)
  with s1 s2 w show ?case by simp
qed simp

lemma read_last_written:
  assumes "ok s" and "\<forall>w \<in> set ws. fst w < nsec" and "k < nsec"
  shows "\<exists>s' s''. write_all wr ws s = Some s' \<and>
           rd k s' = Some (case map_of (rev ws) k of Some buf \<Rightarrow> buf | None \<Rightarrow> cont s k, s'')"
  using write_all_cont [OF assms(1,2)] rd_ok [OF _ assms(3)] assms(3) by metis

end

lemma block_read_simp:
  "k < bsize b \<Longrightarrow> block_read b k m = Some (bdata b k, if m then b\<lparr>read_cnt := read_cnt b + 1\<rparr> else b)"
  by (simp add: block_read_def check_sector_def)

lemma block_read_None: "bsize b \<le> k \<Longrightarrow> block_read b k m = None"
  by (simp add: block_read_def check_sector_def)

lemma block_write_simp:
  "k < bsize b \<Longrightarrow> btype b \<noteq> BLOCK_FOREIGN \<Longrightarrow>
     \<exists>b'. block_write b k buf m = Some b' \<and> bdata b' = (bdata b)(k := buf) \<and> bsize b' = bsize b \<and> btype b' = btype b"
  by (simp add: block_write_def check_sector_def Let_def)

text \<open>Both a device and a partition inside it are sector stores.\<close>

interpretation dev: sector_store "\<lambda>b. bsize b = n \<and> btype b \<noteq> BLOCK_FOREIGN" n bdata
  "\<lambda>k b. block_read b k m" "\<lambda>k buf b. block_write b k buf m" for n m
proof
  fix b :: block and k buf assume b: "bsize b = n \<and> btype b \<noteq> BLOCK_FOREIGN" and k: "k < n"
  then show "\<exists>b'. block_read b k m = Some (bdata b k, b') \<and> (bsize b' = n \<and> btype b' \<noteq> BLOCK_FOREIGN)
      \<and> (\<forall>j < n. bdata b' j = bdata b j)"
    by (simp add: block_read_simp)
  from b k show "\<exists>b'. block_write b k buf m = Some b' \<and> (bsize b' = n \<and> btype b' \<noteq> BLOCK_FOREIGN)
      \<and> (\<forall>j < n. bdata b' j = (if j = k then buf else bdata b j))"
    using block_write_simp [of k b buf m] by auto
qed

definition part_ok :: "partition \<Rightarrow> nat \<Rightarrow> block \<Rightarrow> bool" where
  "part_ok p n b \<longleftrightarrow> btype b \<noteq> BLOCK_FOREIGN \<and> p_start p + n \<le> bsize b \<and> bsize b < 2 ^ 32"

lemma part_sector_in: "part_ok p n b \<Longrightarrow> k < n \<Longrightarrow> part_sector p k = p_start p + k"
  by (simp add: part_sector_def part_ok_def unat_of_nat flip: of_nat_add)

interpretation part: sector_store "part_ok p n" n "\<lambda>b k. bdata b (p_start p + k)"
  "partition_read p" "partition_write p" for p n
proof
  fix b :: block and k buf assume b: "part_ok p n b" and k: "k < n"
  then have k': "part_sector p k = p_start p + k" "p_start p + k < bsize b" "btype b \<noteq> BLOCK_FOREIGN"
    by (simp_all add: part_sector_in) (simp_all add: part_ok_def)
  then show "\<exists>b'. partition_read p k b = Some (bdata b (p_start p + k), b') \<and> part_ok p n b'
      \<and> (\<forall>j < n. bdata b' (p_start p + j) = bdata b (p_start p + j))"
    using b by (simp add: partition_read_def block_read_simp)
  show "\<exists>b'. partition_write p k buf b = Some b' \<and> part_ok p n b'
      \<and> (\<forall>j < n. bdata b' (p_start p + j) = (if j = k then buf else bdata b (p_start p + j)))"
    using block_write_simp [OF k'(2,3), of buf False] k'(1) b by (auto simp: partition_write_def part_ok_def)
qed

section \<open>Properties\<close>

text \<open>
  C18: a partition is a device of its own: after any sequence of writes through \<open>partition_write\<close>,
  \<open>partition_read\<close> of a sector returns the last buffer written to that sector (or its old contents).
\<close>

theorem partition_read_last_written:
  assumes "part_ok p n b" and "\<forall>w \<in> set ws. fst w < n" and "k < n"
  shows "\<exists>b' b''. write_all (partition_write p) ws b = Some b' \<and>
           partition_read p k b' =
             Some (case map_of (rev ws) k of Some buf \<Rightarrow> buf | None \<Rightarrow> bdata b (p_start p + k), b'')"
  using assms by (rule part.read_last_written)

definition demo_block :: block where
  "demo_block = \<lparr> bname = ''hda'', btype = BLOCK_RAW, bsize = 100, bdata = (\<lambda>k. replicate 512 0),
                  read_cnt = 0, write_cnt = 0 \<rparr>"

theorem partition_read_last_written_witness:
  "\<exists>b' b''. write_all (partition_write \<lparr> p_block = 0, p_start = 10 \<rparr>) [(3, [1]), (4, [2]), (3, [5])] demo_block = Some b' \<and>
     partition_read \<lparr> p_block = 0, p_start = 10 \<rparr> 3 b' = Some ([5], b'')"
proof -
  have "part_ok \<lparr> p_block = 0, p_start = 10 \<rparr> 20 demo_block" by (simp add: part_ok_def demo_block_def)
  from partition_read_last_written [OF this, of "[(3, [1]), (4, [2]), (3, [5])]" 3]
  show ?thesis by auto
qed




definition demo_ext_block :: block where
  "demo_ext_block = demo_block\<lparr> bdata := \<lambda>k. replicate 450 0 @ [5, 0, 0, 0, 1, 0, 0, 0, 1, 0, 0, 0] @ replicate 48 0 @ [0x55, 0xaa] \<rparr>"


end
