(* ===== verification/Cache.thy ===== *)
theory Cache
  imports Block Kernel_List_Sort
begin

text \<open>
  The buffer cache, \<open>filesys/cache.c\<close>, on top of the file system device. The cached blocks are the
  list \<open>cached_blocks\<close> in list order; the address of an entry is its \<open>cid\<close>, and \<open>cache_pointer\<close> is
  the null pointer, the end of the list or such an address. The list operations are the functional
  counterparts proved for \<open>list.c\<close> in \<open>Kernel_List\<close>.

  Memory allocation is part of the state: \<open>mok n\<close> says whether the \<open>n\<close>-th request succeeds and
  \<open>mcnt\<close> counts the requests, so every out-of-memory branch is taken by some state. A successful
  request returns an address that no earlier one returned.

  The state is an extensible record: the file system layers above add their own fields, and the
  operations here leave those alone.
\<close>

section \<open>State\<close>

record cache =
  cid :: nat
  index :: nat
  is_dirty :: bool
  is_used :: bool
  cdata :: "byte list"

datatype cptr = Pnull | Pend | Pelem nat

record cfs =
  fs_device :: block
  cached_blocks :: "cache list"
  cache_size :: int
  cache_pointer :: cptr
  mok :: "nat \<Rightarrow> bool"
  mcnt :: nat

definition CACHE_BLOCK_SIZE :: int where
  "CACHE_BLOCK_SIZE = 64"

definition malloc :: "'z cfs_scheme \<Rightarrow> nat \<times> 'z cfs_scheme" where
  "malloc s = (if mok s (mcnt s) then Suc (mcnt s) else NULL, s\<lparr>mcnt := Suc (mcnt s)\<rparr>)"

definition dev_read :: "nat \<Rightarrow> bool \<Rightarrow> 'z cfs_scheme \<Rightarrow> (byte list \<times> 'z cfs_scheme) option" where
  "dev_read sector is_miss s = do {
     (buf, d) \<leftarrow> block_read (fs_device s) sector is_miss;
     Some (buf, s\<lparr>fs_device := d\<rparr>) }"

definition dev_write :: "nat \<Rightarrow> byte list \<Rightarrow> bool \<Rightarrow> 'z cfs_scheme \<Rightarrow> 'z cfs_scheme option" where
  "dev_write sector buf is_miss s = do {
     d \<leftarrow> block_write (fs_device s) sector buf is_miss;
     Some (s\<lparr>fs_device := d\<rparr>) }"

section \<open>Operations (cache.c)\<close>

definition init_cache :: "'z cfs_scheme \<Rightarrow> 'z cfs_scheme" where
  "init_cache s = s\<lparr>cached_blocks := [], cache_size := 0, cache_pointer := Pnull\<rparr>"

definition index_cmp :: "cache \<Rightarrow> cache \<Rightarrow> bool" where
  "index_cmp ca_a ca_b = (index ca_a < index ca_b)"

fun get_cache_loop :: "nat \<Rightarrow> cache list \<Rightarrow> cache option" where
  "get_cache_loop idx [] = None"
| "get_cache_loop idx (ca # cas) =
     (if index ca = idx then Some ca
      else if index ca > idx then None
      else get_cache_loop idx cas)"

definition get_cache :: "nat \<Rightarrow> 'z cfs_scheme \<Rightarrow> cache option" where
  "get_cache idx s = get_cache_loop idx (cached_blocks s)"

text \<open>Access to the entry at an address, and the list positions \<open>list_begin\<close> and \<open>list_next\<close>.\<close>

definition entry :: "nat \<Rightarrow> 'z cfs_scheme \<Rightarrow> cache option" where
  "entry p s = find (\<lambda>c. cid c = p) (cached_blocks s)"

definition upd_entry :: "nat \<Rightarrow> (cache \<Rightarrow> cache) \<Rightarrow> 'z cfs_scheme \<Rightarrow> 'z cfs_scheme" where
  "upd_entry p f s = s\<lparr>cached_blocks := map (\<lambda>c. if cid c = p then f c else c) (cached_blocks s)\<rparr>"

fun begin_ptr :: "cache list \<Rightarrow> cptr" where
  "begin_ptr [] = Pend"
| "begin_ptr (c # cs) = Pelem (cid c)"

fun next_ptr :: "cache list \<Rightarrow> nat \<Rightarrow> cptr" where
  "next_ptr [] p = Pend"
| "next_ptr (c # cs) p = (if cid c = p then begin_ptr cs else next_ptr cs p)"

definition update_cache :: "nat \<Rightarrow> byte list \<Rightarrow> nat \<Rightarrow> 'z cfs_scheme \<Rightarrow> 'z cfs_scheme" where
  "update_cache p buf offset s =
     upd_entry p (\<lambda>ca. ca\<lparr>cdata := memcpy_at (cdata ca) offset buf, is_dirty := True, is_used := True\<rparr>) s"

definition remove_cache :: "nat \<Rightarrow> 'z cfs_scheme \<Rightarrow> 'z cfs_scheme" where
  "remove_cache p s = s\<lparr>cached_blocks := filter (\<lambda>c. cid c \<noteq> p) (cached_blocks s), cache_size := cache_size s - 1\<rparr>"

definition write_back :: "nat \<Rightarrow> bool \<Rightarrow> 'z cfs_scheme \<Rightarrow> 'z cfs_scheme option" where
  "write_back p mode s = do {
     ca \<leftarrow> entry p s;
     s \<leftarrow> dev_write (index ca) (cdata ca) mode s;
     Some (upd_entry p (\<lambda>ca. ca\<lparr>is_dirty := False\<rparr>) s) }"

text \<open>The second half of a round of the clock: clear \<open>is_used\<close> and move the hand, around the end.\<close>

definition clock_advance :: "nat \<Rightarrow> 'z cfs_scheme \<Rightarrow> 'z cfs_scheme" where
  "clock_advance p s =
     (let s = upd_entry p (\<lambda>ca. ca\<lparr>is_used := False\<rparr>) s;
          s = s\<lparr>cache_pointer := next_ptr (cached_blocks s) p\<rparr>
      in if cache_pointer s = Pend then s\<lparr>cache_pointer := begin_ptr (cached_blocks s)\<rparr> else s)"

text \<open>
  One round of the loop of \<open>apply_clock_algorithm\<close>; the flag says that an entry was removed, which
  ends the loop.
\<close>

definition clock_visit :: "'z cfs_scheme \<Rightarrow> (bool \<times> 'z cfs_scheme) option" where
  "clock_visit s = (case cache_pointer s of
     Pelem p \<Rightarrow> do {
       ca \<leftarrow> entry p s;
       s \<leftarrow> (if is_dirty ca then write_back p True s else Some s);
       if \<not> is_used ca
       then do {
         let s = s\<lparr>cache_pointer := next_ptr (cached_blocks s) p\<rparr>;
         Some (True, remove_cache p s) }
       else Some (False, clock_advance p s) }
   | _ \<Rightarrow> None)"

definition used_count :: "'z cfs_scheme \<Rightarrow> nat" where
  "used_count s = length (filter is_used (cached_blocks s))"

lemma used_count_upd:
  assumes "c \<in> set cs" and "cid c = p" and "is_used c"
  shows "length (filter is_used (map (\<lambda>c. if cid c = p then c\<lparr>is_used := False\<rparr> else c) cs)) < length (filter is_used cs)"
proof -
  have le: "length (filter is_used (map (\<lambda>c. if cid c = p then c\<lparr>is_used := False\<rparr> else c) xs)) \<le> length (filter is_used xs)" for xs
    by (induction xs) auto
  from assms show ?thesis
  proof (induction cs)
    case (Cons x xs)
    then show ?case using le [of xs] by (cases "x = c") (auto simp: less_Suc_eq_le)
  qed simp
qed

lemma write_back_used:
  assumes "write_back p m s = Some s'"
  shows "map (\<lambda>c. (cid c, is_used c)) (cached_blocks s') = map (\<lambda>c. (cid c, is_used c)) (cached_blocks s)"
  using assms by (auto simp: write_back_def dev_write_def upd_entry_def ret_iff comp_def)

lemma clock_visitE:
  assumes "clock_visit s = Some (b, s')"
  obtains p ca s1 where "cache_pointer s = Pelem p" and "entry p s = Some ca"
    and "(if is_dirty ca then write_back p True s else Some s) = Some s1" and "b = (\<not> is_used ca)"
    and "s' = (if is_used ca then clock_advance p s1
               else remove_cache p (s1\<lparr>cache_pointer := next_ptr (cached_blocks s1) p\<rparr>))"
proof (cases "cache_pointer s")
  case (Pelem p)
  then obtain ca where ca: "entry p s = Some ca" using assms by (cases "entry p s") (auto simp: clock_visit_def)
  then obtain s1 where "(if is_dirty ca then write_back p True s else Some s) = Some s1"
    using assms Pelem by (cases "if is_dirty ca then write_back p True s else Some s") (auto simp: clock_visit_def)
  with Pelem ca assms show thesis by (intro that) (auto simp: clock_visit_def split: if_splits)
qed (use assms in \<open>simp_all add: clock_visit_def\<close>)

lemma clock_advance_blocks:
  "cached_blocks (clock_advance p s) = map (\<lambda>c. if cid c = p then c\<lparr>is_used := False\<rparr> else c) (cached_blocks s)"
  by (simp add: clock_advance_def upd_entry_def Let_def)

lemma clock_visit_used:
  assumes "clock_visit s = Some (False, s')"
  shows "used_count s' < used_count s"
proof -
  obtain p ca s1 where ca: "cache_pointer s = Pelem p" "entry p s = Some ca" "is_used ca"
    and s1: "s1 = s \<or> write_back p True s = Some s1"
    and s': "cached_blocks s' = map (\<lambda>c. if cid c = p then c\<lparr>is_used := False\<rparr> else c) (cached_blocks s1)"
    using assms by (elim clock_visitE) (auto simp: clock_advance_blocks split: if_splits)
  have m: "map (\<lambda>c. (cid c, is_used c)) (cached_blocks s1) = map (\<lambda>c. (cid c, is_used c)) (cached_blocks s)"
    using s1 write_back_used [of p True s s1] by auto
  have filter_snd: "length (filter is_used cs) = length (filter snd (map (\<lambda>c. (cid c, is_used c)) cs))" for cs
    by (induction cs) auto
  have cnt: "used_count s1 = used_count s" unfolding used_count_def filter_snd m ..
  have "ca \<in> set (cached_blocks s) \<and> cid ca = p" using ca(2) by (auto simp: entry_def find_Some_iff)
  then have "(p, True) \<in> set (map (\<lambda>c. (cid c, is_used c)) (cached_blocks s))" using ca(3) by force
  then have "(p, True) \<in> set (map (\<lambda>c. (cid c, is_used c)) (cached_blocks s1))" using m by simp
  then obtain c where "c \<in> set (cached_blocks s1)" "cid c = p" "is_used c" by auto
  from used_count_upd [OF this] show ?thesis
    using s' cnt by (simp add: used_count_def)
qed

function clock_loop :: "'z cfs_scheme \<Rightarrow> 'z cfs_scheme option" where
  "clock_loop s = (case clock_visit s of
     None \<Rightarrow> None
   | Some (done1, s') \<Rightarrow> if done1 then Some s' else clock_loop s')"
  by pat_completeness auto
termination
  by (relation "measure used_count") (auto dest: clock_visit_used)

declare clock_loop.simps [simp del]

definition apply_clock_algorithm :: "'z cfs_scheme \<Rightarrow> 'z cfs_scheme option" where
  "apply_clock_algorithm s =
     (let s = (if cache_pointer s = Pnull \<or> cache_pointer s = Pend
               then s\<lparr>cache_pointer := begin_ptr (cached_blocks s)\<rparr> else s)
      in clock_loop s)"

definition set_cache :: "nat \<Rightarrow> byte list \<Rightarrow> 'z cfs_scheme \<Rightarrow> 'z cfs_scheme option" where
  "set_cache idx buf s =
     (let (ca_p, s) = malloc s in
      if ca_p = NULL then Some s
      else let (data_p, s) = malloc s in
      if data_p = NULL then Some s
      else let ca = \<lparr> cid = ca_p, index = idx, is_dirty = False, is_used = True, cdata = take BLOCK_SECTOR_SIZE buf \<rparr>;
               s = s\<lparr>cached_blocks := ins_ordered index_cmp ca (cached_blocks s), cache_size := cache_size s + 1\<rparr>
      in if cache_size s > CACHE_BLOCK_SIZE then apply_clock_algorithm s else Some s)"

fun write_back_loop :: "nat list \<Rightarrow> 'z cfs_scheme \<Rightarrow> 'z cfs_scheme option" where
  "write_back_loop [] s = Some s"
| "write_back_loop (p # ps) s = do {
     ca \<leftarrow> entry p s;
     s \<leftarrow> (if is_dirty ca then write_back p False s else Some s);
     write_back_loop ps s }"

definition write_back_all_cache :: "'z cfs_scheme \<Rightarrow> 'z cfs_scheme option" where
  "write_back_all_cache s = write_back_loop (map cid (cached_blocks s)) s"

section \<open>The contents seen through the cache\<close>

text \<open>
  \<open>disk s k\<close> is what the device holds; \<open>view s k\<close> is what a read of sector \<open>k\<close> through the cache
  returns. \<open>cinv\<close> is the invariant of the cache, \<open>cinv0\<close> without the bound on its size, which the
  insertion of a 65th entry breaks until the clock has removed one.
\<close>

definition disk :: "'z cfs_scheme \<Rightarrow> nat \<Rightarrow> byte list" where
  "disk s k = bdata (fs_device s) k"

definition view :: "'z cfs_scheme \<Rightarrow> nat \<Rightarrow> byte list" where
  "view s k = (case get_cache k s of Some c \<Rightarrow> cdata c | None \<Rightarrow> disk s k)"

definition nsectors :: "'z cfs_scheme \<Rightarrow> nat" where
  "nsectors s = bsize (fs_device s)"

definition ptr_ok :: "'z cfs_scheme \<Rightarrow> bool" where
  "ptr_ok s = (case cache_pointer s of Pelem p \<Rightarrow> p \<in> cid ` set (cached_blocks s) | _ \<Rightarrow> True)"

definition cinv0 :: "'z cfs_scheme \<Rightarrow> bool" where
  "cinv0 s \<longleftrightarrow> sorted_wrt index_cmp (cached_blocks s) \<and> distinct (map cid (cached_blocks s))
     \<and> (\<forall>c \<in> set (cached_blocks s). cid c \<le> mcnt s \<and> index c < nsectors s \<and> length (cdata c) = BLOCK_SECTOR_SIZE)
     \<and> cache_size s = int (length (cached_blocks s)) \<and> ptr_ok s
     \<and> btype (fs_device s) \<noteq> BLOCK_FOREIGN \<and> (\<forall>k < nsectors s. length (disk s k) = BLOCK_SECTOR_SIZE)"

definition cinv :: "'z cfs_scheme \<Rightarrow> bool" where
  "cinv s \<longleftrightarrow> cinv0 s \<and> cache_size s \<le> CACHE_BLOCK_SIZE"

text \<open>
  \<open>coh D\<close>: the clean entries for sectors of \<open>D\<close> agree with the device. \<open>clean M\<close>: no entry for a
  sector of \<open>M\<close> is dirty. The layers above keep file data in \<open>D\<close> and metadata, which they read and
  write past the cache, in \<open>M\<close>.
\<close>

definition coh :: "nat set \<Rightarrow> 'z cfs_scheme \<Rightarrow> bool" where
  "coh D s \<longleftrightarrow> (\<forall>c \<in> set (cached_blocks s). index c \<in> D \<longrightarrow> \<not> is_dirty c \<longrightarrow> cdata c = disk s (index c))"

definition clean :: "nat set \<Rightarrow> 'z cfs_scheme \<Rightarrow> bool" where
  "clean M s \<longleftrightarrow> (\<forall>c \<in> set (cached_blocks s). index c \<in> M \<longrightarrow> \<not> is_dirty c)"

text \<open>\<open>ceq0 D M s s'\<close>: the step from \<open>s\<close> to \<open>s'\<close> only moved data between cache and device.\<close>

definition ceq0 :: "nat set \<Rightarrow> nat set \<Rightarrow> 'z cfs_scheme \<Rightarrow> 'z cfs_scheme \<Rightarrow> bool" where
  "ceq0 D M s s' \<longleftrightarrow> cinv0 s' \<and> coh D s' \<and> clean M s'
     \<and> (\<forall>k \<in> D. view s' k = view s k) \<and> (\<forall>k \<in> M. disk s' k = disk s k)
     \<and> nsectors s' = nsectors s \<and> mok s' = mok s \<and> mcnt s \<le> mcnt s' \<and> cfs.more s' = cfs.more s"

section \<open>Lookup\<close>

interpretation idx: list_less index_cmp
  by unfold_locales (auto simp: index_cmp_def)

lemma get_cache_Some:
  "sorted_wrt index_cmp cs \<Longrightarrow> get_cache_loop k cs = Some c \<longleftrightarrow> c \<in> set cs \<and> index c = k"
  by (induction cs) (auto simp: index_cmp_def)

lemma get_cache_None: "sorted_wrt index_cmp cs \<Longrightarrow> get_cache_loop k cs = None \<longleftrightarrow> k \<notin> index ` set cs"
  by (induction cs) (auto simp: index_cmp_def)

lemma index_unique:
  assumes "sorted_wrt index_cmp cs" and "c \<in> set cs" and "d \<in> set cs" and "index c = index d"
  shows "c = d"
  using get_cache_Some [OF assms(1), of "index d"] assms(2-4) by (metis option.inject)

lemma entry_Some:
  assumes "distinct (map cid (cached_blocks s))"
  shows "entry p s = Some c \<longleftrightarrow> c \<in> set (cached_blocks s) \<and> cid c = p"
proof
  assume "entry p s = Some c"
  then show "c \<in> set (cached_blocks s) \<and> cid c = p" by (auto simp: entry_def find_Some_iff)
next
  assume c: "c \<in> set (cached_blocks s) \<and> cid c = p"
  then obtain d where d: "entry p s = Some d" by (cases "entry p s") (auto simp: entry_def find_None_iff)
  then have "d \<in> set (cached_blocks s)" "cid d = p" by (auto simp: entry_def find_Some_iff)
  with c assms have "c = d" by (auto simp: distinct_map dest: inj_onD)
  with d show "entry p s = Some c" by simp
qed

lemma cinv0D:
  assumes "cinv0 s"
  shows "sorted_wrt index_cmp (cached_blocks s)" and "distinct (map cid (cached_blocks s))"
    and "btype (fs_device s) \<noteq> BLOCK_FOREIGN" and "ptr_ok s" and "cache_size s = int (length (cached_blocks s))"
  using assms by (simp_all add: cinv0_def)

lemma cinv0_mem:
  assumes "cinv0 s" and "c \<in> set (cached_blocks s)"
  shows "cid c \<le> mcnt s" and "index c < nsectors s" and "length (cdata c) = BLOCK_SECTOR_SIZE"
  using assms by (simp_all add: cinv0_def)

lemma view_cached: "cinv0 s \<Longrightarrow> c \<in> set (cached_blocks s) \<Longrightarrow> view s (index c) = cdata c"
  using get_cache_Some [OF cinv0D(1), of s "index c" c] by (simp add: view_def get_cache_def)

lemma view_uncached: "cinv0 s \<Longrightarrow> k \<notin> index ` set (cached_blocks s) \<Longrightarrow> view s k = disk s k"
  using get_cache_None [OF cinv0D(1), of s k] by (simp add: view_def get_cache_def)

lemma get_cache_view: "cinv0 s \<Longrightarrow> get_cache k s = Some c \<Longrightarrow> cdata c = view s k \<and> c \<in> set (cached_blocks s) \<and> index c = k"
  using get_cache_Some [OF cinv0D(1), of s k c] view_cached [of s c] by (auto simp: get_cache_def)

lemma get_cache_uncached: "cinv0 s \<Longrightarrow> get_cache k s = None \<longleftrightarrow> k \<notin> index ` set (cached_blocks s)"
  using get_cache_None [OF cinv0D(1), of s k] by (simp add: get_cache_def)

lemma length_view: "cinv0 s \<Longrightarrow> k < nsectors s \<Longrightarrow> length (view s k) = BLOCK_SECTOR_SIZE"
proof (cases "get_cache k s")
  case (Some c)
  assume "cinv0 s"
  with Some get_cache_view [of s k c] cinv0_mem(3) [of s c] show ?thesis by (simp add: view_def)
qed (auto simp: view_def cinv0_def)

text \<open>Two states with the same entries up to flags have the same lookup results.\<close>

lemma view_cong:
  assumes "map (\<lambda>c. (index c, cdata c)) (cached_blocks s') = map (\<lambda>c. (index c, cdata c)) (cached_blocks s)"
    and "k \<notin> index ` set (cached_blocks s) \<Longrightarrow> disk s' k = disk s k"
    and "cinv0 s"
  shows "view s' k = view s k"
proof -
  have "map_option cdata (get_cache_loop k cs') = map_option cdata (get_cache_loop k cs)"
    if "map (\<lambda>c. (index c, cdata c)) cs' = map (\<lambda>c. (index c, cdata c)) cs" for cs cs'
    using that
  proof (induction cs arbitrary: cs')
    case (Cons c cs)
    obtain d ds where cs': "cs' = d # ds" using Cons.prems by (cases cs') auto
    show ?case using Cons.IH [of ds] Cons.prems unfolding cs' by simp
  qed simp
  note eq = this [OF assms(1)]
  show ?thesis
  proof (cases "get_cache_loop k (cached_blocks s)")
    case None
    then have "disk s' k = disk s k" using assms(2) get_cache_None [OF cinv0D(1) [OF assms(3)], of k] by simp
    with None eq show ?thesis by (simp add: view_def get_cache_def)
  next
    case (Some c)
    with eq show ?thesis by (auto simp: view_def get_cache_def)
  qed
qed

section \<open>One round of the clock\<close>

lemma ceq0_refl: "cinv0 s \<Longrightarrow> coh D s \<Longrightarrow> clean M s \<Longrightarrow> ceq0 D M s s"
  by (simp add: ceq0_def)

lemma ceq0_trans: "ceq0 D M s s' \<Longrightarrow> ceq0 D M s' s'' \<Longrightarrow> ceq0 D M s s''"
  by (simp add: ceq0_def)

lemma sorted_wrt_map_upd:
  assumes "\<And>c. index (f c) = index c"
  shows "sorted_wrt index_cmp (map (\<lambda>c. if P c then f c else c) cs) = sorted_wrt index_cmp cs"
proof -
  have "index (if P c then f c else c) = index c" for c using assms by simp
  then show ?thesis by (simp add: sorted_wrt_map index_cmp_def [abs_def])
qed

lemma upd_entry_mem:
  assumes "c \<in> set (cached_blocks (upd_entry p f s))"
  obtains d where "d \<in> set (cached_blocks s)" and "c = (if cid d = p then f d else d)"
  using assms unfolding upd_entry_def by force

lemma upd_entry_simps [simp]:
  "fs_device (upd_entry p f s) = fs_device s" "cache_size (upd_entry p f s) = cache_size s"
  "cache_pointer (upd_entry p f s) = cache_pointer s" "mok (upd_entry p f s) = mok s"
  "mcnt (upd_entry p f s) = mcnt s" "cfs.more (upd_entry p f s) = cfs.more s"
  "length (cached_blocks (upd_entry p f s)) = length (cached_blocks s)"
  "disk (upd_entry p f s) = disk s" "nsectors (upd_entry p f s) = nsectors s"
  by (simp_all add: upd_entry_def disk_def nsectors_def fun_eq_iff)

lemma upd_entry_cinv0:
  assumes "cinv0 s" and "\<And>c. index (f c) = index c" and "\<And>c. cid (f c) = cid c"
    and "\<And>c. c \<in> set (cached_blocks s) \<Longrightarrow> cid c = p \<Longrightarrow> length (cdata (f c)) = length (cdata c)"
  shows "cinv0 (upd_entry p f s)"
proof -
  let ?g = "\<lambda>c. if cid c = p then f c else c"
  have cids: "map cid (cached_blocks (upd_entry p f s)) = map cid (cached_blocks s)"
    using assms(3) by (auto simp: upd_entry_def)
  have dist: "distinct (map cid (cached_blocks (upd_entry p f s)))"
    unfolding cids by (rule cinv0D(2) [OF assms(1)])
  have srt: "sorted_wrt index_cmp (cached_blocks (upd_entry p f s))"
    using cinv0D(1) [OF assms(1)] assms(2) by (simp add: upd_entry_def sorted_wrt_map_upd)
  have mem: "cid (?g c) \<le> mcnt s \<and> index (?g c) < nsectors s \<and> length (cdata (?g c)) = BLOCK_SECTOR_SIZE"
    if "c \<in> set (cached_blocks s)" for c
    using cinv0_mem [OF assms(1) that] assms(2-) that by auto
  have "cid ` set (cached_blocks (upd_entry p f s)) = cid ` set (cached_blocks s)"
    using cids by (metis list.set_map)
  then have ptr: "ptr_ok (upd_entry p f s)"
    using cinv0D(4) [OF assms(1)] by (simp add: ptr_ok_def split: cptr.splits)
  have "\<forall>c \<in> set (cached_blocks (upd_entry p f s)).
      cid c \<le> mcnt s \<and> index c < nsectors s \<and> length (cdata c) = BLOCK_SECTOR_SIZE"
    by (auto elim!: upd_entry_mem dest!: mem)
  with dist srt ptr assms(1) show ?thesis
    unfolding cinv0_def by simp
qed

lemma write_back_ceq0:
  assumes inv: "cinv0 s" and coh: "coh D s" and cl: "clean M s"
    and e: "entry p s = Some ca" and d: "is_dirty ca"
  shows "\<exists>s'. write_back p m s = Some s' \<and> ceq0 D M s s' \<and> cache_pointer s' = cache_pointer s
           \<and> cached_blocks s' = map (\<lambda>c. if cid c = p then c\<lparr>is_dirty := False\<rparr> else c) (cached_blocks s)
           \<and> (\<forall>k. view s' k = view s k) \<and> disk s' = (disk s)(index ca := cdata ca)"
proof -
  have ca: "ca \<in> set (cached_blocks s)" "cid ca = p" using e entry_Some [OF cinv0D(2) [OF inv]] by auto
  obtain dv where dv: "block_write (fs_device s) (index ca) (cdata ca) m = Some dv"
    "bdata dv = (bdata (fs_device s))(index ca := cdata ca)" "bsize dv = bsize (fs_device s)" "btype dv = btype (fs_device s)"
    using block_write_simp [of "index ca" "fs_device s" "cdata ca" m] cinv0_mem(2) [OF inv ca(1)] cinv0D(3) [OF inv]
    by (auto simp: nsectors_def)
  let ?s1 = "s\<lparr>fs_device := dv\<rparr>"
  let ?s' = "upd_entry p (\<lambda>c. c\<lparr>is_dirty := False\<rparr>) ?s1"
  have wb: "write_back p m s = Some ?s'" using e dv(1) by (simp add: write_back_def dev_write_def)
  have "cinv0 ?s1" using inv dv cinv0_mem(3) [OF inv ca(1)]
    by (simp add: cinv0_def ptr_ok_def disk_def nsectors_def split: cptr.splits)
  then have inv': "cinv0 ?s'" by (rule upd_entry_cinv0) simp_all
  have dk: "disk ?s' = (disk s)(index ca := cdata ca)" using dv(2) by (simp add: disk_def upd_entry_def fun_eq_iff)
  have vw: "view ?s' k = view s k" for k
    by (rule view_cong [OF _ _ inv]) (use ca dk in \<open>auto simp: upd_entry_def comp_def\<close>)
  have uniq: "c = ca" if "c \<in> set (cached_blocks s)" "index c = index ca" for c
    using index_unique [OF cinv0D(1) [OF inv] that(1) ca(1) that(2)] .
  have "coh D ?s'"
    unfolding coh_def
  proof (intro ballI impI)
    fix c' assume c': "c' \<in> set (cached_blocks ?s')" "index c' \<in> D" "\<not> is_dirty c'"
    then obtain c where c: "c \<in> set (cached_blocks s)" "c' = (if cid c = p then c\<lparr>is_dirty := False\<rparr> else c)"
      by (auto simp: upd_entry_def)
    show "cdata c' = disk ?s' (index c')"
    proof (cases "cid c = p")
      case True
      then have "c = ca" using e c(1) entry_Some [OF cinv0D(2) [OF inv], of p c] by simp
      then show ?thesis using c True dk by simp
    next
      case False
      then have "index c \<noteq> index ca" using uniq [OF c(1)] ca(2) by auto
      then show ?thesis using c c' False coh dk by (simp add: coh_def)
    qed
  qed
  moreover have "clean M ?s'" using cl by (auto simp: clean_def upd_entry_def)
  moreover have "index ca \<notin> M" using cl ca(1) d by (auto simp: clean_def)
  then have "\<forall>k \<in> M. disk ?s' k = disk s k" unfolding dk by auto
  ultimately have "ceq0 D M s ?s'"
    using inv' vw dv(3) by (simp add: ceq0_def nsectors_def upd_entry_def)
  then show ?thesis using wb vw dk by (auto simp: upd_entry_def)
qed

lemma begin_ptr_cases: "begin_ptr cs = Pend \<and> cs = [] \<or> (\<exists>q. begin_ptr cs = Pelem q \<and> q \<in> cid ` set cs)"
  by (cases cs) auto

lemma next_ptr_cases:
  assumes "distinct (map cid cs)"
  shows "next_ptr cs p = Pend \<or> (\<exists>q. next_ptr cs p = Pelem q \<and> q \<noteq> p \<and> q \<in> cid ` set cs)"
  using assms
proof (induction cs)
  case (Cons c cs)
  show ?case
  proof (cases "cid c = p")
    case True
    then have "p \<notin> cid ` set cs" using Cons.prems by auto
    then show ?thesis using True begin_ptr_cases [of cs] by (metis image_insert insertCI list.set(2) next_ptr.simps(2))
  next
    case False
    then show ?thesis using Cons by auto
  qed
qed simp

lemma filter_cid_length:
  assumes "distinct (map cid cs)" and "p \<in> cid ` set cs"
  shows "Suc (length (filter (\<lambda>c. cid c \<noteq> p) cs)) = length cs"
  using assms
proof (induction cs)
  case (Cons c cs)
  show ?case
  proof (cases "cid c = p")
    case True
    then have "filter (\<lambda>c. cid c \<noteq> p) cs = cs" using Cons.prems(1) by (auto simp: filter_id_conv image_iff)
    then show ?thesis using True by simp
  next
    case False
    then show ?thesis using Cons by simp
  qed
qed simp

lemma remove_ceq0:
  assumes inv: "cinv0 s" and coh: "coh D s" and cl: "clean M s"
    and ca: "ca \<in> set (cached_blocks s)" "cid ca = p" "\<not> is_dirty ca"
  shows "ceq0 D M s (remove_cache p (s\<lparr>cache_pointer := next_ptr (cached_blocks s) p\<rparr>))" (is "ceq0 D M s ?s'")
proof -
  note srt = cinv0D(1) [OF inv] and dist = cinv0D(2) [OF inv]
  have blocks: "cached_blocks ?s' = filter (\<lambda>c. cid c \<noteq> p) (cached_blocks s)" by (simp add: remove_cache_def)
  have len: "Suc (length (cached_blocks ?s')) = length (cached_blocks s)"
    unfolding blocks using filter_cid_length [OF dist] ca by auto
  have "ptr_ok ?s'"
    using next_ptr_cases [OF dist, of p] by (auto simp: ptr_ok_def remove_cache_def)
  moreover have "cache_size ?s' = int (length (cached_blocks ?s'))"
    using len cinv0D(5) [OF inv] by (simp add: remove_cache_def)
  moreover have "sorted_wrt index_cmp (cached_blocks ?s')" "distinct (map cid (cached_blocks ?s'))"
    unfolding blocks using srt dist by (simp_all add: sorted_wrt_filter distinct_map_filter)
  ultimately have inv': "cinv0 ?s'"
    using inv by (simp add: cinv0_def remove_cache_def disk_def nsectors_def)
  have dk: "disk ?s' = disk s" by (simp add: remove_cache_def disk_def fun_eq_iff)
  have keep: "c \<in> set (cached_blocks ?s') \<longleftrightarrow> c \<in> set (cached_blocks s) \<and> c \<noteq> ca" for c
    unfolding blocks using ca dist by (auto simp: distinct_map dest: inj_onD)
  have "view ?s' k = view s k" if "k \<in> D" for k
  proof (cases "k \<in> index ` set (cached_blocks s)")
    case True
    then obtain c where c: "c \<in> set (cached_blocks s)" "k = index c" by auto
    show ?thesis
    proof (cases "c = ca")
      case True
      have "index d \<noteq> k" if "d \<in> set (cached_blocks ?s')" for d
        using that keep c True index_unique [OF srt, of d c] by auto
      then have "view ?s' k = disk s k" using view_uncached [OF inv', of k] dk by auto
      also have "\<dots> = cdata ca" using coh ca True c(2) \<open>k \<in> D\<close> by (simp add: coh_def)
      finally show ?thesis using view_cached [OF inv c(1)] c True by simp
    next
      case False
      then show ?thesis using view_cached [OF inv c(1)] view_cached [OF inv', of c] keep c by simp
    qed
  next
    case False
    then have "k \<notin> index ` set (cached_blocks ?s')" using keep by auto
    then show ?thesis using view_uncached [OF inv False] view_uncached [OF inv'] dk by simp
  qed
  moreover have "coh D ?s'" "clean M ?s'" using coh cl keep dk by (simp_all add: coh_def clean_def)
  ultimately show ?thesis
    using inv' dk by (simp add: ceq0_def remove_cache_def nsectors_def)
qed

lemma clock_advance_ceq0:
  assumes inv: "cinv0 s" and coh: "coh D s" and cl: "clean M s" and p: "p \<in> cid ` set (cached_blocks s)"
  shows "ceq0 D M s (clock_advance p s) \<and> (\<exists>q. cache_pointer (clock_advance p s) = Pelem q)"
proof -
  let ?u = "upd_entry p (\<lambda>ca. ca\<lparr>is_used := False\<rparr>) s" and ?s' = "clock_advance p s"
  have u: "cinv0 ?u" by (rule upd_entry_cinv0 [OF inv]) simp_all
  have blocks: "cached_blocks ?s' = cached_blocks ?u" by (simp add: clock_advance_def Let_def)
  have ne: "cached_blocks ?u \<noteq> []" using p by (auto simp: upd_entry_def)
  obtain q where q: "cache_pointer ?s' = Pelem q" "q \<in> cid ` set (cached_blocks ?u)"
    using next_ptr_cases [OF cinv0D(2) [OF u], of p] begin_ptr_cases [of "cached_blocks ?u"] ne
    by (auto simp: clock_advance_def Let_def)
  have flds: "fs_device ?s' = fs_device s" "cache_size ?s' = cache_size s" "mok ?s' = mok s" "mcnt ?s' = mcnt s"
    "cfs.more ?s' = cfs.more s" "disk ?s' = disk s" "nsectors ?s' = nsectors s"
    by (simp_all add: clock_advance_def Let_def disk_def nsectors_def fun_eq_iff)
  have inv': "cinv0 ?s'" using u q flds by (simp add: cinv0_def ptr_ok_def blocks)
  have "view ?s' k = view s k" for k
    by (rule view_cong [OF _ _ inv]) (simp_all add: blocks flds, simp add: upd_entry_def)
  moreover have "coh D ?s'" "clean M ?s'"
    unfolding coh_def clean_def blocks flds
    using coh cl by (auto simp: coh_def clean_def elim!: upd_entry_mem split: if_splits)
  ultimately show ?thesis using inv' flds q(1) by (simp add: ceq0_def)
qed

lemma clock_visit_ceq0:
  assumes inv: "cinv0 s" and coh: "coh D s" and cl: "clean M s" and p: "cache_pointer s = Pelem p"
  shows "\<exists>b s'. clock_visit s = Some (b, s') \<and> ceq0 D M s s' \<and>
           (if b then Suc (length (cached_blocks s')) = length (cached_blocks s)
            else length (cached_blocks s') = length (cached_blocks s) \<and> (\<exists>q. cache_pointer s' = Pelem q))"
proof -
  have "p \<in> cid ` set (cached_blocks s)" using cinv0D(4) [OF inv] p by (simp add: ptr_ok_def)
  then obtain ca where ca: "ca \<in> set (cached_blocks s)" "cid ca = p" by auto
  have e: "entry p s = Some ca" using entry_Some [OF cinv0D(2) [OF inv]] ca by simp
  obtain s1 where s1: "(if is_dirty ca then write_back p True s else Some s) = Some s1" "ceq0 D M s s1"
    "cached_blocks s1 = map (\<lambda>c. if cid c = p then c\<lparr>is_dirty := False\<rparr> else c) (cached_blocks s)"
  proof (cases "is_dirty ca")
    case True
    then show ?thesis using write_back_ceq0 [OF inv coh cl e True, of True] that by auto
  next
    case False
    have "map (\<lambda>c. if cid c = p then c\<lparr>is_dirty := False\<rparr> else c) (cached_blocks s) = cached_blocks s"
    proof (rule map_idI)
      fix x assume "x \<in> set (cached_blocks s)"
      then have "cid x = p \<Longrightarrow> x = ca" using entry_Some [OF cinv0D(2) [OF inv], of p x] e by simp
      then show "(if cid x = p then x\<lparr>is_dirty := False\<rparr> else x) = x" using False by (cases x) auto
    qed
    then show ?thesis using False that ceq0_refl [OF inv coh cl] by simp
  qed
  have inv1: "cinv0 s1" "coh D s1" "clean M s1" using s1(2) by (simp_all add: ceq0_def)
  have ca1: "ca\<lparr>is_dirty := False\<rparr> \<in> set (cached_blocks s1)" using ca by (force simp: s1(3))
  from imageI [OF this, of cid] have p1: "p \<in> cid ` set (cached_blocks s1)" using ca by simp
  show ?thesis
  proof (cases "is_used ca")
    case True
    have "clock_visit s = Some (False, clock_advance p s1)" using p e s1(1) True by (simp add: clock_visit_def)
    moreover have "length (cached_blocks (clock_advance p s1)) = length (cached_blocks s)"
      using s1(3) by (simp add: clock_advance_blocks)
    ultimately show ?thesis using clock_advance_ceq0 [OF inv1 p1] ceq0_trans [OF s1(2)] by auto
  next
    case False
    let ?s' = "remove_cache p (s1\<lparr>cache_pointer := next_ptr (cached_blocks s1) p\<rparr>)"
    have "clock_visit s = Some (True, ?s')" using p e s1(1) False by (simp add: clock_visit_def)
    moreover have "ceq0 D M s1 ?s'" by (rule remove_ceq0 [OF inv1 ca1]) (use ca in simp_all)
    moreover have "Suc (length (cached_blocks ?s')) = length (cached_blocks s)"
      using filter_cid_length [OF cinv0D(2) [OF inv1(1)] p1] s1(3) by (simp add: remove_cache_def)
    ultimately show ?thesis using ceq0_trans [OF s1(2)] by auto
  qed
qed

section \<open>The clock, insertion, writing back\<close>

lemma clock_loop_ceq0:
  assumes "cinv0 s" and "coh D s" and "clean M s" and "cache_pointer s = Pelem p"
  shows "\<exists>s'. clock_loop s = Some s' \<and> ceq0 D M s s' \<and> Suc (length (cached_blocks s')) = length (cached_blocks s)"
  using assms
proof (induction s arbitrary: p rule: clock_loop.induct)
  case (1 s)
  obtain b s1 where v: "clock_visit s = Some (b, s1)" "ceq0 D M s s1"
    "if b then Suc (length (cached_blocks s1)) = length (cached_blocks s)
     else length (cached_blocks s1) = length (cached_blocks s) \<and> (\<exists>q. cache_pointer s1 = Pelem q)"
    using clock_visit_ceq0 [OF 1(2-)] by blast
  show ?case
  proof (cases b)
    case True
    then show ?thesis using v by (auto simp: clock_loop.simps [of s])
  next
    case False
    then obtain q where q: "cache_pointer s1 = Pelem q" "length (cached_blocks s1) = length (cached_blocks s)"
      using v(3) by auto
    have "cinv0 s1" "coh D s1" "clean M s1" using v(2) by (simp_all add: ceq0_def)
    from 1(1) [OF v(1) refl False this q(1)] v q False show ?thesis
      by (auto simp: clock_loop.simps [of s] dest: ceq0_trans)
  qed
qed

lemma apply_clock_ceq0:
  assumes inv: "cinv0 s" and coh: "coh D s" and cl: "clean M s" and ne: "cached_blocks s \<noteq> []"
  shows "\<exists>s'. apply_clock_algorithm s = Some s' \<and> ceq0 D M s s'
           \<and> Suc (length (cached_blocks s')) = length (cached_blocks s)"
proof -
  let ?s = "if cache_pointer s = Pnull \<or> cache_pointer s = Pend
            then s\<lparr>cache_pointer := begin_ptr (cached_blocks s)\<rparr> else s"
  have b: "cached_blocks ?s = cached_blocks s" "disk ?s = disk s" by (simp_all add: disk_def fun_eq_iff)
  have i: "cinv0 ?s" using inv ne begin_ptr_cases [of "cached_blocks s"]
    by (auto simp: cinv0_def ptr_ok_def disk_def nsectors_def)
  have c: "coh D ?s" "clean M ?s" using coh cl unfolding coh_def clean_def b by simp_all
  obtain p where p: "cache_pointer ?s = Pelem p"
    using ne begin_ptr_cases [of "cached_blocks s"] by (cases "cache_pointer s") auto
  have "view ?s k = view s k" for k by (simp only: view_def get_cache_def b)
  then have "ceq0 D M s ?s" using i c b by (auto simp: ceq0_def nsectors_def)
  with clock_loop_ceq0 [OF i c p] show ?thesis
    unfolding apply_clock_algorithm_def Let_def using ceq0_trans b(1) by metis
qed

lemma sorted_ins_index:
  "sorted_wrt index_cmp cs \<Longrightarrow> index e \<notin> index ` set cs \<Longrightarrow> sorted_wrt index_cmp (ins_ordered index_cmp e cs)"
  by (induction cs) (auto simp: index_cmp_def)

text \<open>Inserting a clean entry for a sector that is not cached and whose contents it holds.\<close>

lemma insert_ceq0:
  assumes inv: "cinv0 s" and coh: "coh D s" and cl: "clean M s"
    and k: "k < nsectors s" "k \<notin> index ` set (cached_blocks s)"
    and ca: "ca = \<lparr> cid = p, index = k, is_dirty = False, is_used = True, cdata = disk s k \<rparr>"
    and p: "mcnt s < p" "p \<le> n"
  shows "ceq0 D M s (s\<lparr>mcnt := n, cached_blocks := ins_ordered index_cmp ca (cached_blocks s), cache_size := cache_size s + 1\<rparr>)"
    (is "ceq0 D M s ?s'")
proof -
  let ?cs = "cached_blocks s" and ?cs' = "ins_ordered index_cmp ca (cached_blocks s)"
  have nc: "p \<notin> cid ` set ?cs" using cinv0_mem(1) [OF inv] p by force
  have srt: "sorted_wrt index_cmp ?cs'"
    using sorted_ins_index [OF cinv0D(1) [OF inv], of ca] k(2) ca by simp
  have inv': "cinv0 ?s'"
    unfolding cinv0_def
  proof (intro conjI)
    show "sorted_wrt index_cmp (cached_blocks ?s')" using srt by simp
    show "distinct (map cid (cached_blocks ?s'))"
      using nc cinv0D(2) [OF inv] ca by (simp add: distinct_map_ins_ordered)
    show "\<forall>c \<in> set (cached_blocks ?s'). cid c \<le> mcnt ?s' \<and> index c < nsectors ?s' \<and> length (cdata c) = BLOCK_SECTOR_SIZE"
      using inv ca k(1) p by (auto simp: cinv0_def nsectors_def)
    show "cache_size ?s' = int (length (cached_blocks ?s'))" using cinv0D(5) [OF inv] by simp
    show "ptr_ok ?s'" using cinv0D(4) [OF inv] by (auto simp: ptr_ok_def split: cptr.splits)
    show "btype (fs_device ?s') \<noteq> BLOCK_FOREIGN" "\<forall>k < nsectors ?s'. length (disk ?s' k) = BLOCK_SECTOR_SIZE"
      using inv by (simp_all add: cinv0_def nsectors_def disk_def)
  qed
  have dk: "disk ?s' = disk s" by (simp add: disk_def fun_eq_iff)
  have "view ?s' j = view s j" for j
  proof (cases "j \<in> index ` set (cached_blocks s)")
    case True
    then obtain c where c: "c \<in> set (cached_blocks s)" "j = index c" by auto
    then show ?thesis using view_cached [OF inv c(1)] view_cached [OF inv', of c] by simp
  next
    case False
    then have v: "view s j = disk s j" by (rule view_uncached [OF inv])
    show ?thesis
    proof (cases "j = k")
      case True
      then show ?thesis using v view_cached [OF inv', of ca] ca by simp
    next
      case ne: False
      then have "j \<notin> index ` set (cached_blocks ?s')" using False ca by auto
      then show ?thesis using v view_uncached [OF inv', of j] dk by simp
    qed
  qed
  moreover have "coh D ?s'" using coh ca dk by (auto simp: coh_def)
  moreover have "clean M ?s'" using cl ca by (auto simp: clean_def)
  ultimately show ?thesis using inv' dk p by (simp add: ceq0_def nsectors_def)
qed

definition ceq :: "nat set \<Rightarrow> nat set \<Rightarrow> 'z cfs_scheme \<Rightarrow> 'z cfs_scheme \<Rightarrow> bool" where
  "ceq D M s s' \<longleftrightarrow> ceq0 D M s s' \<and> cinv s'"

lemma ceq_refl: "cinv s \<Longrightarrow> coh D s \<Longrightarrow> clean M s \<Longrightarrow> ceq D M s s"
  by (simp add: ceq_def cinv_def ceq0_refl)

lemma ceq_trans: "ceq D M s s' \<Longrightarrow> ceq D M s' s'' \<Longrightarrow> ceq D M s s''"
  unfolding ceq_def using ceq0_trans by blast

lemma ceqD:
  assumes "ceq D M s s'"
  shows "cinv s'" and "coh D s'" and "clean M s'" and "k \<in> D \<Longrightarrow> view s' k = view s k" and "k \<in> M \<Longrightarrow> disk s' k = disk s k"
    and "nsectors s' = nsectors s" and "mok s' = mok s" and "mcnt s \<le> mcnt s'" and "cfs.more s' = cfs.more s"
  using assms by (simp_all add: ceq_def ceq0_def)

lemma mcnt_ceq:
  assumes "cinv s" and "coh D s" and "clean M s" and "mcnt s \<le> n"
  shows "ceq D M s (s\<lparr>mcnt := n\<rparr>)"
proof -
  have "disk (s\<lparr>mcnt := n\<rparr>) = disk s" by (simp add: disk_def fun_eq_iff)
  then have "view (s\<lparr>mcnt := n\<rparr>) k = view s k" for k by (simp add: view_def get_cache_def split: option.split)
  with assms show ?thesis
    by (fastforce simp: ceq_def ceq0_def cinv_def cinv0_def coh_def clean_def ptr_ok_def nsectors_def disk_def split: cptr.splits)
qed

lemma set_cache_ceq:
  assumes inv: "cinv s" and coh: "coh D s" and cl: "clean M s"
    and k: "k < nsectors s" "get_cache k s = None"
  shows "\<exists>s'. set_cache k (disk s k) s = Some s' \<and> ceq D M s s'"
proof -
  have inv0: "cinv0 s" and sz: "cache_size s \<le> CACHE_BLOCK_SIZE" using inv by (simp_all add: cinv_def)
  have uc: "k \<notin> index ` set (cached_blocks s)" using k(2) get_cache_uncached [OF inv0] by simp
  have len: "take BLOCK_SECTOR_SIZE (disk s k) = disk s k" using inv0 k(1) by (simp add: cinv0_def)
  consider "\<not> mok s (mcnt s)" | "mok s (mcnt s)" "\<not> mok s (Suc (mcnt s))" | "mok s (mcnt s)" "mok s (Suc (mcnt s))"
    by blast
  then show ?thesis
  proof cases
    case 1
    then show ?thesis using mcnt_ceq [OF inv coh cl, of "Suc (mcnt s)"] by (simp add: set_cache_def malloc_def)
  next
    case 2
    then show ?thesis using mcnt_ceq [OF inv coh cl, of "Suc (Suc (mcnt s))"] by (simp add: set_cache_def malloc_def)
  next
    case 3
    let ?ca = "\<lparr> cid = Suc (mcnt s), index = k, is_dirty = False, is_used = True, cdata = disk s k \<rparr>"
    let ?s1 = "s\<lparr>mcnt := Suc (Suc (mcnt s)), cached_blocks := ins_ordered index_cmp ?ca (cached_blocks s), cache_size := cache_size s + 1\<rparr>"
    have c1: "ceq0 D M s ?s1" by (rule insert_ceq0 [OF inv0 coh cl k(1) uc refl]) simp_all
    then have i1: "cinv0 ?s1" "coh D ?s1" "clean M ?s1" by (simp_all add: ceq0_def)
    have st: "set_cache k (disk s k) s = (if cache_size ?s1 > CACHE_BLOCK_SIZE then apply_clock_algorithm ?s1 else Some ?s1)"
      using 3 len by (simp add: set_cache_def malloc_def)
    show ?thesis
    proof (cases "cache_size ?s1 > CACHE_BLOCK_SIZE")
      case False
      then show ?thesis unfolding st using c1 i1 by (auto simp: ceq_def cinv_def)
    next
      case True
      have "cached_blocks ?s1 \<noteq> []" by (cases "cached_blocks s") auto
      then obtain s2 where s2: "apply_clock_algorithm ?s1 = Some s2" "ceq0 D M ?s1 s2"
        "Suc (length (cached_blocks s2)) = length (cached_blocks ?s1)"
        using apply_clock_ceq0 [OF i1] by blast
      have "cache_size s2 = int (length (cached_blocks s2))" using s2(2) by (simp add: ceq0_def cinv0_def)
      then have "cache_size s2 \<le> CACHE_BLOCK_SIZE" using s2(3) sz cinv0D(5) [OF inv0] by simp
      then show ?thesis unfolding st using True s2 ceq0_trans [OF c1 s2(2)] by (simp add: ceq_def cinv_def ceq0_def)
    qed
  qed
qed

lemma update_cache_view:
  assumes inv: "cinv s" and c: "get_cache k s = Some c" and len: "off + length buf \<le> BLOCK_SECTOR_SIZE"
    and s': "s' = update_cache (cid c) buf off s"
  shows "cinv s'" and "view s' = (view s)(k := memcpy_at (view s k) off buf)" and "disk s' = disk s"
    and "coh D s \<Longrightarrow> coh D s'" and "clean M s \<Longrightarrow> k \<notin> M \<Longrightarrow> clean M s'"
proof -
  have inv0: "cinv0 s" using inv by (simp add: cinv_def)
  have cm: "c \<in> set (cached_blocks s)" "index c = k" "cdata c = view s k" using get_cache_view [OF inv0 c] by auto
  let ?f = "\<lambda>ca. ca\<lparr>cdata := memcpy_at (cdata ca) off buf, is_dirty := True, is_used := True\<rparr>"
  have s'u: "s' = upd_entry (cid c) ?f s" using s' by (simp add: update_cache_def)
  have inv': "cinv0 s'"
    unfolding s'u by (rule upd_entry_cinv0 [OF inv0]) (use cinv0_mem(3) [OF inv0] len in simp_all)
  then show "cinv s'" using inv by (simp add: cinv_def s'u)
  show dk: "disk s' = disk s" by (simp add: s'u)
  have same: "d = c" if "d \<in> set (cached_blocks s)" "cid d = cid c" for d
    using that cm(1) cinv0D(2) [OF inv0] by (auto simp: distinct_map dest: inj_onD)
  have new: "d \<in> set (cached_blocks s) \<Longrightarrow> (if cid d = cid c then ?f d else d) \<in> set (cached_blocks s')" for d
    by (auto simp: s'u upd_entry_def)
  show "view s' = (view s)(k := memcpy_at (view s k) off buf)"
  proof
    fix j
    show "view s' j = ((view s)(k := memcpy_at (view s k) off buf)) j"
    proof (cases "j \<in> index ` set (cached_blocks s)")
      case True
      then obtain d where d: "d \<in> set (cached_blocks s)" "j = index d" by auto
      show ?thesis
      proof (cases "d = c")
        case True
        then show ?thesis using view_cached [OF inv' new [OF d(1)]] d cm by simp
      next
        case False
        then have "cid d \<noteq> cid c" "j \<noteq> k" using same [OF d(1)] index_unique [OF cinv0D(1) [OF inv0] d(1) cm(1)] d cm by auto
        then show ?thesis using view_cached [OF inv' new [OF d(1)]] view_cached [OF inv0 d(1)] d by simp
      qed
    next
      case False
      then have "j \<notin> index ` set (cached_blocks s')"
        unfolding s'u by (auto elim!: upd_entry_mem split: if_splits)
      moreover have "j \<noteq> k" using False cm by auto
      ultimately show ?thesis using view_uncached [OF inv' , of j] view_uncached [OF inv0 False] dk by simp
    qed
  qed
  show "coh D s \<Longrightarrow> coh D s'"
    unfolding coh_def dk unfolding s'u by (auto elim!: upd_entry_mem split: if_splits)
  show "clean M s \<Longrightarrow> k \<notin> M \<Longrightarrow> clean M s'"
    unfolding clean_def s'u using cm by (auto elim!: upd_entry_mem dest: same split: if_splits)
qed

lemma dev_write_view:
  assumes inv: "cinv s" and k: "k < nsectors s" and len: "length buf = BLOCK_SECTOR_SIZE"
  shows "\<exists>s'. dev_write k buf m s = Some s' \<and> cinv s' \<and> disk s' = (disk s)(k := buf)
           \<and> (\<forall>j. j \<noteq> k \<longrightarrow> view s' j = view s j) \<and> (get_cache k s = None \<longrightarrow> view s' k = buf)
           \<and> (\<forall>j. get_cache j s' = get_cache j s) \<and> cached_blocks s' = cached_blocks s
           \<and> nsectors s' = nsectors s \<and> mok s' = mok s \<and> mcnt s' = mcnt s \<and> cfs.more s' = cfs.more s"
proof -
  obtain d where d: "block_write (fs_device s) k buf m = Some d" "bdata d = (bdata (fs_device s))(k := buf)"
    "bsize d = bsize (fs_device s)" "btype d = btype (fs_device s)"
    using block_write_simp [of k "fs_device s" buf m] k inv by (auto simp: nsectors_def cinv_def cinv0_def)
  let ?s = "s\<lparr>fs_device := d\<rparr>"
  have dk: "disk ?s = (disk s)(k := buf)" using d by (simp add: disk_def fun_eq_iff)
  have gc: "get_cache j ?s = get_cache j s" for j by (simp add: get_cache_def)
  have "cinv ?s" using inv d len dk
    by (simp add: cinv_def cinv0_def ptr_ok_def nsectors_def split: cptr.splits)
  then show ?thesis using d dk gc by (auto simp: dev_write_def view_def nsectors_def split: option.split)
qed

lemma dev_read_disk:
  assumes "cinv s" and "k < nsectors s"
  shows "\<exists>s'. dev_read k m s = Some (disk s k, s') \<and> cinv s' \<and> disk s' = disk s \<and> view s' = view s
           \<and> cached_blocks s' = cached_blocks s
           \<and> (\<forall>j. get_cache j s' = get_cache j s) \<and> nsectors s' = nsectors s \<and> mok s' = mok s \<and> mcnt s' = mcnt s
           \<and> cfs.more s' = cfs.more s"
proof -
  let ?d = "if m then (fs_device s)\<lparr>read_cnt := read_cnt (fs_device s) + 1\<rparr> else fs_device s"
  let ?s = "s\<lparr>fs_device := ?d\<rparr>"
  have dk: "disk ?s = disk s" by (simp add: disk_def fun_eq_iff)
  have "view ?s = view s" by (simp add: view_def get_cache_def disk_def fun_eq_iff split: option.split)
  moreover have "cinv ?s" using assms(1) dk
    by (simp add: cinv_def cinv0_def ptr_ok_def nsectors_def split: cptr.splits)
  ultimately show ?thesis using assms(2) dk
    by (simp add: dev_read_def block_read_simp nsectors_def get_cache_def disk_def)
qed

text \<open>Writing back: afterwards no entry is dirty, and a coherent cache agrees with the device everywhere.\<close>

lemma write_back_loop_clean:
  assumes "cinv0 s" and "coh UNIV s" and "set ps \<subseteq> cid ` set (cached_blocks s)"
    and "\<forall>c \<in> set (cached_blocks s). is_dirty c \<longrightarrow> cid c \<in> set ps"
  shows "\<exists>s'. write_back_loop ps s = Some s' \<and> cinv0 s' \<and> coh UNIV s' \<and> clean UNIV s' \<and> view s' = view s
           \<and> length (cached_blocks s') = length (cached_blocks s)"
  using assms
proof (induction ps arbitrary: s)
  case Nil
  then show ?case by (auto simp: clean_def)
next
  case (Cons p ps)
  note inv = Cons.prems(1) and coh = Cons.prems(2)
  obtain ca where ca: "ca \<in> set (cached_blocks s)" "cid ca = p" using Cons.prems(3) by auto
  then have e: "entry p s = Some ca" using entry_Some [OF cinv0D(2) [OF inv]] by simp
  have only: "c = ca" if "c \<in> set (cached_blocks s)" "cid c = p" for c
    using entry_Some [OF cinv0D(2) [OF inv], of p c] e that by simp
  show ?case
  proof (cases "is_dirty ca")
    case False
    then have "\<forall>c \<in> set (cached_blocks s). is_dirty c \<longrightarrow> cid c \<in> set ps" using Cons.prems(4) only by auto
    then show ?thesis using Cons.IH [of s] Cons.prems e False by simp
  next
    case True
    obtain s1 where s1: "write_back p False s = Some s1" "ceq0 UNIV {} s s1" "\<forall>k. view s1 k = view s k"
      "cached_blocks s1 = map (\<lambda>c. if cid c = p then c\<lparr>is_dirty := False\<rparr> else c) (cached_blocks s)"
      using write_back_ceq0 [OF inv coh _ e True, of "{}" False] by (auto simp: clean_def)
    have "map cid (cached_blocks s1) = map cid (cached_blocks s)" unfolding s1(4) by auto
    then have "cid ` set (cached_blocks s1) = cid ` set (cached_blocks s)" by (metis list.set_map)
    moreover have "\<forall>c \<in> set (cached_blocks s1). is_dirty c \<longrightarrow> cid c \<in> set ps"
      unfolding s1(4) using Cons.prems(4) by auto
    ultimately obtain s2 where "write_back_loop ps s1 = Some s2" "cinv0 s2" "coh UNIV s2" "clean UNIV s2" "view s2 = view s1"
      "length (cached_blocks s2) = length (cached_blocks s1)"
      using Cons.IH [of s1] s1(2) Cons.prems(3) by (auto simp: ceq0_def)
    with s1 e True show ?thesis by (auto simp: fun_eq_iff)
  qed
qed

lemma write_back_all_disk:
  assumes inv: "cinv s" and coh: "coh UNIV s"
  shows "\<exists>s'. write_back_all_cache s = Some s' \<and> cinv s' \<and> clean UNIV s' \<and> view s' = view s \<and> disk s' = view s"
proof -
  have inv0: "cinv0 s" using inv by (simp add: cinv_def)
  obtain s' where s': "write_back_all_cache s = Some s'" "cinv0 s'" "coh UNIV s'" "clean UNIV s'" "view s' = view s"
    "length (cached_blocks s') = length (cached_blocks s)"
    using write_back_loop_clean [OF inv0 coh, of "map cid (cached_blocks s)"] by (auto simp: write_back_all_cache_def)
  have "disk s' k = view s' k" for k
  proof (cases "get_cache k s'")
    case (Some c)
    then have "c \<in> set (cached_blocks s')" "index c = k" "cdata c = view s' k" using get_cache_view [OF s'(2)] by auto
    then show ?thesis using s'(3,4) by (simp add: coh_def clean_def)
  qed (simp add: view_def)
  moreover have "cinv s'" using s'(2,6) inv cinv0D(5) [OF s'(2)] cinv0D(5) [OF inv0] by (simp add: cinv_def)
  ultimately show ?thesis using s' by auto
qed

section \<open>Properties\<close>

definition demo_cfs :: cfs where
  "demo_cfs = \<lparr> fs_device = demo_block, cached_blocks = [], cache_size = 0, cache_pointer = Pnull,
                mok = (\<lambda>_. True), mcnt = 0 \<rparr>"

lemma demo_cfs_ok: "cinv demo_cfs" "coh D demo_cfs" "clean M demo_cfs"
  by (simp_all add: demo_cfs_def demo_block_def cinv_def cinv0_def coh_def clean_def ptr_ok_def disk_def nsectors_def
      BLOCK_SECTOR_SIZE_def CACHE_BLOCK_SIZE_def)

text \<open>
  C21: caching a sector is invisible. From a state that satisfies the cache invariant (entries sorted
  by sector without repetition, at most 64, hand valid) and whose clean entries agree with the
  device, \<open>set_cache\<close> of an uncached sector with the contents just read returns without panic, keeps
  the invariant and the agreement, and every sector reads as before, even when the clock had to
  write back and evict an entry or memory ran out.
\<close>

theorem set_cache_transparent:
  assumes "cinv s" and "coh UNIV s" and "k < nsectors s" and "get_cache k s = None"
  shows "\<exists>s'. set_cache k (disk s k) s = Some s' \<and> cinv s' \<and> coh UNIV s' \<and> view s' = view s"
  using set_cache_ceq [OF assms(1,2), of "{}" k] assms(3,4) ceqD(1,2,4) [of UNIV "{}" s]
  by (fastforce simp: clean_def)

theorem set_cache_transparent_witness:
  "\<exists>s'. set_cache 7 (replicate 512 0) demo_cfs = Some s' \<and> cinv s' \<and> coh UNIV s' \<and> view s' = view demo_cfs"
proof -
  have "7 < nsectors demo_cfs" "get_cache 7 demo_cfs = None" "disk demo_cfs 7 = replicate 512 0"
    by (simp_all add: demo_cfs_def demo_block_def nsectors_def get_cache_def disk_def)
  with set_cache_transparent [OF demo_cfs_ok(1,2), of 7] show ?thesis by simp
qed

text \<open>
  C22: after \<open>write_back_all_cache\<close> (run when the file system shuts down) the device holds, in every
  sector, exactly what was visible through the cache, and no entry is dirty any more.
\<close>

theorem write_back_all_cache_flushes:
  assumes "cinv s" and "coh UNIV s"
  shows "\<exists>s'. write_back_all_cache s = Some s' \<and> disk s' = view s \<and> view s' = view s \<and> clean UNIV s' \<and> cinv s'"
  using write_back_all_disk [OF assms] by blast

theorem write_back_all_cache_flushes_witness:
  "\<exists>s'. write_back_all_cache demo_cfs = Some s' \<and> disk s' = view demo_cfs"
  using write_back_all_cache_flushes [OF demo_cfs_ok(1,2)] by blast

text \<open>
  C23: the clock always comes to an end: on a nonempty cache that satisfies the invariant without the
  bound on its size, \<open>apply_clock_algorithm\<close> returns and has removed exactly one entry.
\<close>

theorem clock_evicts_one:
  assumes "cinv0 s" and "coh D s" and "clean M s" and "cached_blocks s \<noteq> []"
  shows "\<exists>s'. apply_clock_algorithm s = Some s' \<and> cinv0 s' \<and> Suc (length (cached_blocks s')) = length (cached_blocks s)"
  using apply_clock_ceq0 [OF assms] by (auto simp: ceq0_def)

theorem clock_evicts_one_witness:
  "\<exists>s s'. set_cache 7 (replicate 512 0) demo_cfs = Some s \<and> apply_clock_algorithm s = Some s' \<and> cached_blocks s' = []"
proof -
  let ?s = "demo_cfs\<lparr>mcnt := 2, cached_blocks := [\<lparr> cid = 1, index = 7, is_dirty = False, is_used = True, cdata = replicate 512 0 \<rparr>], cache_size := 1\<rparr>"
  have st: "set_cache 7 (replicate 512 0) demo_cfs = Some ?s"
    by (simp add: set_cache_def malloc_def demo_cfs_def BLOCK_SECTOR_SIZE_def CACHE_BLOCK_SIZE_def numeral_2_eq_2)
  have "cinv0 ?s" "coh UNIV ?s" "clean {} ?s"
    by (simp_all add: demo_cfs_def demo_block_def cinv0_def coh_def clean_def ptr_ok_def disk_def nsectors_def BLOCK_SECTOR_SIZE_def)
  from clock_evicts_one [OF this] st show ?thesis by fastforce
qed

text \<open>
  C24: a sector that is still cached dirty and is meanwhile rewritten on the device, past the cache,
  loses the rewrite: \<open>write_back_all_cache\<close> puts the cached bytes back. This is what happens to a
  freed data sector that is allocated again for inode or pointer-block metadata.
\<close>

theorem stale_write_back:
  assumes "cinv s" and "coh UNIV s" and "get_cache k s = Some c" and "is_dirty c" and "length buf = BLOCK_SECTOR_SIZE"
  shows "\<exists>s' s''. dev_write k buf False s = Some s' \<and> disk s' k = buf
           \<and> write_back_all_cache s' = Some s'' \<and> disk s'' k = cdata c"
proof -
  have inv0: "cinv0 s" using assms(1) by (simp add: cinv_def)
  have c: "c \<in> set (cached_blocks s)" "index c = k" using get_cache_view [OF inv0 assms(3)] by auto
  have k: "k < nsectors s" using cinv0_mem(2) [OF inv0 c(1)] c(2) by simp
  obtain s' where s': "dev_write k buf False s = Some s'" "cinv s'" "disk s' = (disk s)(k := buf)"
    "cached_blocks s' = cached_blocks s"
    using dev_write_view [OF assms(1) k assms(5), of False] by auto
  have uniq: "d = c" if "d \<in> set (cached_blocks s)" "index d = k" for d
    using index_unique [OF cinv0D(1) [OF inv0] that(1) c(1)] that(2) c(2) by simp
  have "coh UNIV s'"
    unfolding coh_def s'(3,4) using assms(2,4) uniq by (auto simp: coh_def)
  from write_back_all_disk [OF s'(2) this] obtain s'' where "write_back_all_cache s' = Some s''" "disk s'' = view s'" by blast
  moreover have "view s' k = cdata c"
    using view_cached [of s' c] s'(2,4) c by (simp add: cinv_def)
  ultimately show ?thesis using s' by auto
qed

theorem stale_write_back_witness:
  "\<exists>(s :: cfs) s' s''. get_cache 7 s \<noteq> None \<and> dev_write 7 (replicate 512 1) False s = Some s'
     \<and> write_back_all_cache s' = Some s'' \<and> disk s'' 7 = replicate 512 2"
proof -
  let ?c = "\<lparr> cid = 1, index = 7, is_dirty = True, is_used = True, cdata = replicate 512 2 \<rparr>"
  let ?s = "demo_cfs\<lparr>mcnt := 2, cached_blocks := [?c], cache_size := 1\<rparr>"
  have g: "get_cache 7 ?s = Some ?c" by (simp add: get_cache_def)
  have "cinv ?s" "coh UNIV ?s"
    by (simp_all add: demo_cfs_def demo_block_def cinv_def cinv0_def coh_def ptr_ok_def disk_def nsectors_def
        BLOCK_SECTOR_SIZE_def CACHE_BLOCK_SIZE_def)
  then obtain s' s'' where "dev_write 7 (replicate 512 1) False ?s = Some s'"
    "write_back_all_cache s' = Some s''" "disk s'' 7 = replicate 512 2"
    using stale_write_back [OF _ _ g, of "replicate 512 1"] by (auto simp: BLOCK_SECTOR_SIZE_def)
  then show ?thesis using g by (intro exI [of _ ?s] exI [of _ s'] exI [of _ s'']) simp
qed

end
