(* ===== verification/Arithmetic.thy ===== *)
theory Arithmetic
  imports Prelude "HOL-Library.Signed_Division"
begin

text \<open>
  64-bit division on a 32-bit machine, \<open>lib/arithmetic.c\<close>. \<open>None\<close> is the divide error that the
  \<open>divl\<close> instruction raises. The routines are shown equal to the division of HOL's words and
  integers, including that \<open>divl\<close> never traps when the divisor is not zero.
\<close>

section \<open>The routines (arithmetic.c)\<close>

definition divl :: "u64 \<Rightarrow> u32 \<Rightarrow> u32 option" where
  "divl n d = (if d = 0 \<or> unat n div unat d \<ge> 2 ^ 32 then None
               else Some (of_nat (unat n div unat d)))"

definition nlz :: "u32 \<Rightarrow> nat" where
  "nlz x =
     (let n = 0;
          (n, x) = (if x \<le> 0x0000FFFF then (n + 16, push_bit 16 x) else (n, x));
          (n, x) = (if x \<le> 0x00FFFFFF then (n + 8, push_bit 8 x) else (n, x));
          (n, x) = (if x \<le> 0x0FFFFFFF then (n + 4, push_bit 4 x) else (n, x));
          (n, x) = (if x \<le> 0x3FFFFFFF then (n + 2, push_bit 2 x) else (n, x))
      in if x \<le> 0x7FFFFFFF then n + 1 else n)"

definition udiv64 :: "u64 \<Rightarrow> u64 \<Rightarrow> u64 option" where
  "udiv64 n d =
     (if drop_bit 32 d = 0
      then do {
        let b = push_bit 32 (1 :: u64);
        let n1 = (ucast (drop_bit 32 n) :: u32);
        let n0 = (ucast n :: u32);
        let d0 = (ucast d :: u32);
        assert_c (d0 \<noteq> 0);
        q \<leftarrow> divl (b * ucast (n1 mod d0) + ucast n0) d0;
        Some (ucast q + b * ucast (n1 div d0)) }
      else if n < d then Some 0
      else do {
        let d1 = (ucast (drop_bit 32 d) :: u32);
        let s = nlz d1;
        q \<leftarrow> divl (drop_bit 1 n) (ucast (drop_bit 32 (push_bit s d)));
        let q = (ucast (drop_bit (31 - s) q) :: u64);
        Some (if n - (q - 1) * d < d then q - 1 else q) })"

definition umod64 :: "u64 \<Rightarrow> u64 \<Rightarrow> u32 option" where
  "umod64 n d = do { q \<leftarrow> udiv64 n d; Some (ucast (n - d * q)) }"

definition sdiv64 :: "u64 \<Rightarrow> u64 \<Rightarrow> u64 option" where
  "sdiv64 n d = do {
     let n_abs = (if 0 \<le>s n then n else - n);
     let d_abs = (if 0 \<le>s d then d else - d);
     q_abs \<leftarrow> udiv64 n_abs d_abs;
     Some (if (n <s 0) = (d <s 0) then q_abs else - q_abs) }"

definition smod64 :: "u64 \<Rightarrow> u64 \<Rightarrow> u32 option" where
  "smod64 n d = do { q \<leftarrow> sdiv64 n d; Some (ucast (n - d * q)) }"

text \<open>
  The entry points the compiler calls: the 32-bit remainders are converted back to 64 bits, without
  sign in \<open>__umoddi3\<close> and with sign in \<open>__moddi3\<close>.
\<close>

definition divdi3 :: "u64 \<Rightarrow> u64 \<Rightarrow> u64 option" where
  "divdi3 n d = sdiv64 n d"

definition moddi3 :: "u64 \<Rightarrow> u64 \<Rightarrow> u64 option" where
  "moddi3 n d = map_option scast (smod64 n d)"

definition udivdi3 :: "u64 \<Rightarrow> u64 \<Rightarrow> u64 option" where
  "udivdi3 n d = udiv64 n d"

definition umoddi3 :: "u64 \<Rightarrow> u64 \<Rightarrow> u64 option" where
  "umoddi3 n d = map_option ucast (umod64 n d)"

section \<open>Leading zeros\<close>

lemma unat_shift:
  fixes x :: u32
  assumes "unat x * 2 ^ k < 2 ^ 32"
  shows "unat (push_bit k x) = unat x * 2 ^ k"
  unfolding unsigned_push_bit_eq using assms by (simp add: push_bit_eq_mult take_bit_nat_eq_self)

text \<open>One test-and-shift step of \<open>nlz\<close>: afterwards the number is at least \<open>2 ^ (32 - k)\<close>.\<close>

definition nlz_step :: "nat \<Rightarrow> nat \<times> u32 \<Rightarrow> nat \<times> u32" where
  "nlz_step k p = (if unat (snd p) < 2 ^ (32 - k) then (fst p + k, push_bit k (snd p)) else p)"

lemma nlz_step_inv:
  assumes "unat (snd p) = unat x0 * 2 ^ fst p" and "2 ^ m \<le> unat (snd p)" and "m + 2 * k = 32"
  shows "unat (snd (nlz_step k p)) = unat x0 * 2 ^ fst (nlz_step k p) \<and> 2 ^ (m + k) \<le> unat (snd (nlz_step k p))
    \<and> fst (nlz_step k p) \<le> fst p + k"
proof (cases "unat (snd p) < 2 ^ (32 - k)")
  case True
  have "unat (snd p) * 2 ^ k < 2 ^ (32 - k) * 2 ^ k" using True by simp
  also have "\<dots> = 2 ^ 32" using assms(3) by (simp flip: power_add)
  finally have "unat (push_bit k (snd p)) = unat (snd p) * 2 ^ k" by (rule unat_shift)
  then show ?thesis using True assms(1,2) by (simp add: nlz_step_def power_add)
next
  case False
  moreover have "32 - k = m + k" using assms(3) by simp
  ultimately show ?thesis using assms(1) by (simp add: nlz_step_def)
qed

lemma nlz_steps: "nlz x = (let p = nlz_step 2 (nlz_step 4 (nlz_step 8 (nlz_step 16 (0, x))))
    in if unat (snd p) < 2 ^ 31 then fst p + 1 else fst p)"
proof -
  have le: "y \<le> 0x0000FFFF \<longleftrightarrow> unat y < 2 ^ 16" "y \<le> 0x00FFFFFF \<longleftrightarrow> unat y < 2 ^ 24"
    "y \<le> 0x0FFFFFFF \<longleftrightarrow> unat y < 2 ^ 28" "y \<le> 0x3FFFFFFF \<longleftrightarrow> unat y < 2 ^ 30"
    "y \<le> 0x7FFFFFFF \<longleftrightarrow> unat y < 2 ^ 31" for y :: u32
    by (auto simp: word_le_nat_alt)
  show ?thesis by (simp add: nlz_def nlz_step_def le Let_def split_beta)
qed

lemma nlz_correct:
  assumes "x \<noteq> 0"
  shows "2 ^ 31 \<le> unat x * 2 ^ nlz x \<and> unat x * 2 ^ nlz x < 2 ^ 32 \<and> nlz x \<le> 31"
proof -
  let ?p1 = "nlz_step 16 (0, x)" and ?p2 = "nlz_step 8 (nlz_step 16 (0, x))"
  let ?p3 = "nlz_step 4 ?p2" and ?p4 = "nlz_step 2 (nlz_step 4 ?p2)"
  have "1 \<le> unat x" using assms by (simp add: unat_gt_0 Suc_le_eq)
  then have 1: "unat (snd ?p1) = unat x * 2 ^ fst ?p1" "2 ^ 16 \<le> unat (snd ?p1)" "fst ?p1 \<le> 16"
    using nlz_step_inv [of "(0, x)" x 0 16] by simp_all
  have 2: "unat (snd ?p2) = unat x * 2 ^ fst ?p2" "2 ^ 24 \<le> unat (snd ?p2)" "fst ?p2 \<le> 24"
    using nlz_step_inv [OF 1(1,2), of 8] 1(3) by simp_all
  have 3: "unat (snd ?p3) = unat x * 2 ^ fst ?p3" "2 ^ 28 \<le> unat (snd ?p3)" "fst ?p3 \<le> 28"
    using nlz_step_inv [OF 2(1,2), of 4] 2(3) by simp_all
  have 4: "unat (snd ?p4) = unat x * 2 ^ fst ?p4" "2 ^ 30 \<le> unat (snd ?p4)" "fst ?p4 \<le> 30"
    using nlz_step_inv [OF 3(1,2), of 2] 3(3) by simp_all
  have "unat (snd ?p4) < 2 ^ 32" by simp
  with 4 show ?thesis by (auto simp: nlz_steps Let_def)
qed

section \<open>Unsigned division\<close>

text \<open>The estimate of Hacker's Delight, on natural numbers.\<close>

lemma quotient_estimate:
  fixes n d v e :: nat
  assumes n: "n < 2 ^ 64" and v: "2 ^ 31 \<le> v" and e: "2 \<le> e" and lo: "v * e \<le> d" and hi: "d < (v + 1) * e"
  shows "n div d \<le> n div (v * e) \<and> n div (v * e) \<le> n div d + 1"
proof
  have D: "0 < v * e" using v e by simp
  show "n div d \<le> n div (v * e)" by (rule div_le_mono2 [OF D lo])
  let ?D = "v * e" and ?k = "n div d"
  have dpos: "0 < d" using D lo by linarith
  have gap: "d - ?D \<le> e - 1" using hi lo by (simp add: algebra_simps)
  have "4 * (e - 1) \<le> e * e"
  proof -
    obtain t where "e = t + 2" using e by (metis add.commute le_Suc_ex)
    then show ?thesis by (simp add: algebra_simps)
  qed
  then have ee: "2 ^ 64 * (e - 1) \<le> (2 ^ 31 * e) * (2 ^ 31 * e)" by (simp add: algebra_simps)
  have vD: "2 ^ 31 * e \<le> ?D" using v by simp
  have "n * (d - ?D) \<le> n * (e - 1)" using gap by simp
  also have "\<dots> < 2 ^ 64 * (e - 1)" using n e by simp
  also have "\<dots> \<le> (2 ^ 31 * e) * (2 ^ 31 * e)" by (rule ee)
  also have "\<dots> \<le> d * ?D" by (rule mult_le_mono) (use vD lo in linarith)+
  finally have "n * (d - ?D) < d * ?D" .
  then have c: "n * d < ?D * (n + d)" using lo by (simp add: diff_mult_distrib2 algebra_simps)
  show "n div ?D \<le> n div d + 1"
  proof (rule ccontr)
    assume "\<not> n div ?D \<le> n div d + 1"
    then have "(?k + 2) * ?D \<le> n" using D by (metis Suc_1 add_Suc_right less_eq_div_iff_mult_less_eq not_less_eq_eq plus_1_eq_Suc add.commute)
    then have "(?k + 2) * ?D * d \<le> n * d" by simp
    moreover have "n + d < (?k + 2) * d" using dividend_less_times_div [OF dpos, of n] by (simp add: algebra_simps)
    then have "?D * (n + d) < ?D * ((?k + 2) * d)" using D by simp
    ultimately show False using c by (simp add: algebra_simps)
  qed
qed

lemma unat_hi: "unat (ucast (drop_bit 32 n) :: u32) = unat n div 2 ^ 32" for n :: u64
  by (simp add: unsigned_ucast_eq drop_bit_eq_div unat_div take_bit_nat_eq_self_iff less_mult_imp_div_less)

lemma unat_lo: "unat (ucast n :: u32) = unat n mod 2 ^ 32" for n :: u64
  by (simp add: unsigned_ucast_eq take_bit_eq_mod)

lemma unat_up: "unat (ucast w :: u64) = unat w" for w :: u32
proof -
  have "unat w < 2 ^ 64" by (rule less_trans [OF unat_lt32]) simp
  then show ?thesis by (simp add: unsigned_ucast_eq take_bit_nat_eq_self_iff)
qed

lemma unat_add64: "unat a + unat b < 2 ^ 64 \<Longrightarrow> unat (a + b) = unat a + unat b" for a b :: u64
  using unat_add_lem [of a b] by simp

lemma unat_mul64: "unat a * unat b < 2 ^ 64 \<Longrightarrow> unat (a * b) = unat a * unat b" for a b :: u64
  using unat_mult_lem [of a b] by simp

lemma divl_ok:
  assumes "d \<noteq> 0" and "unat n div unat d < 2 ^ 32"
  shows "\<exists>q. divl n d = Some q \<and> unat q = unat n div unat d"
  using assms by (auto simp: divl_def unat_of_nat)

lemma udiv64_small:
  assumes d: "d \<noteq> 0" "unat d < 2 ^ 32"
  shows "udiv64 n d = Some (n div d)"
proof -
  let ?b = "2 ^ 32 :: nat" and ?d = "unat d"
  let ?Nh = "unat n div ?b" and ?Nl = "unat n mod ?b"
  let ?nh = "ucast (drop_bit 32 n) :: u32" and ?nl = "ucast n :: u32" and ?dl = "ucast d :: u32"
  let ?w = "push_bit 32 (1 :: u64) * ucast (?nh mod ?dl) + ucast ?nl"
  have dpos: "0 < ?d" using d(1) by (simp add: unat_gt_0)
  have hi: "drop_bit 32 d = 0" using d(2) by (simp add: word_unat_eq_iff drop_bit_eq_div unat_div)
  have d0: "unat ?dl = ?d" using d(2) by (simp add: unat_lo)
  then have d0nz: "?dl \<noteq> 0" using dpos by auto
  have n1: "unat (?nh mod ?dl) = ?Nh mod ?d" "unat (?nh div ?dl) = ?Nh div ?d"
    by (simp_all add: unat_mod unat_div unat_hi d0)
  have b: "unat (push_bit 32 (1 :: u64)) = ?b" by simp
  have lt: "?b * (?Nh mod ?d) + ?Nl < ?b * ?d"
  proof -
    have "?b * (?Nh mod ?d) + ?Nl < ?b * Suc (?Nh mod ?d)" by simp
    also have "\<dots> \<le> ?b * ?d" using dpos by (intro mult_le_mono2) (simp add: Suc_le_eq)
    finally show ?thesis .
  qed
  have lt64: "?b * ?d \<le> 2 ^ 64" using d(2) by simp
  have w: "unat ?w = ?b * (?Nh mod ?d) + ?Nl"
  proof -
    have "unat (push_bit 32 (1 :: u64) * ucast (?nh mod ?dl)) = ?b * (?Nh mod ?d)"
      using lt lt64 unat_mul64 [of "push_bit 32 1" "ucast (?nh mod ?dl)"] unfolding b unat_up n1 by linarith
    then show ?thesis
      using lt lt64 unat_add64 [of "push_bit 32 1 * ucast (?nh mod ?dl)" "ucast ?nl"] unfolding unat_up unat_lo by linarith
  qed
  have "unat ?w div unat ?dl < ?b" unfolding w d0 using lt dpos by (simp add: div_less_iff_less_mult mult.commute)
  then obtain q where q: "divl ?w ?dl = Some q" "unat q = (?b * (?Nh mod ?d) + ?Nl) div ?d"
    using divl_ok [OF d0nz, of ?w] w d0 by auto
  have "unat n = ?b * (?d * (?Nh div ?d) + ?Nh mod ?d) + ?Nl" by simp
  also have "\<dots> = ?d * (?b * (?Nh div ?d)) + (?b * (?Nh mod ?d) + ?Nl)" by (simp only: algebra_simps)
  finally have quot: "unat n div ?d = ?b * (?Nh div ?d) + unat q"
    using dpos q(2) by (metis div_mult_self4 less_not_refl2)
  have "unat (ucast q + push_bit 32 (1 :: u64) * ucast (?nh div ?dl)) = unat n div ?d"
  proof -
    have "unat n div ?d < 2 ^ 64" using le_less_trans [OF div_le_dividend unat_lt64, of n] by simp
    moreover have "unat (push_bit 32 (1 :: u64) * ucast (?nh div ?dl)) = ?b * (?Nh div ?d)"
      using calculation quot unat_mul64 [of "push_bit 32 1" "ucast (?nh div ?dl)"] unfolding b unat_up n1 by linarith
    ultimately show ?thesis
      using quot unat_add64 [of "ucast q" "push_bit 32 1 * ucast (?nh div ?dl)"] unfolding unat_up by linarith
  qed
  then have "ucast q + push_bit 32 (1 :: u64) * ucast (?nh div ?dl) = n div d"
    by (simp add: word_unat_eq_iff unat_div)
  then show ?thesis using hi q(1) d0nz by (simp add: udiv64_def Let_def)
qed

lemma udiv64_large:
  assumes d: "2 ^ 32 \<le> unat d"
  shows "udiv64 n d = Some (n div d)"
proof (cases "n < d")
  case True
  have "drop_bit 32 d \<noteq> 0" using d by (simp add: word_unat_eq_iff drop_bit_eq_div unat_div div_eq_0_iff)
  moreover have "n div d = 0" using True by (simp add: word_unat_eq_iff unat_div word_less_nat_alt)
  ultimately show ?thesis using True by (simp add: udiv64_def)
next
  case False
  then have nd: "unat d \<le> unat n" by (simp add: word_less_nat_alt)
  let ?dh = "ucast (drop_bit 32 d) :: u32"
  let ?s = "nlz ?dh"
  let ?e = "2 ^ (32 - ?s) :: nat" and ?v = "unat d * 2 ^ ?s div 2 ^ 32"
  have dh: "unat ?dh = unat d div 2 ^ 32" by (rule unat_hi)
  have "0 < unat d div 2 ^ 32" using d by (simp add: div_greater_zero_iff)
  then have dhnz: "?dh \<noteq> 0" using dh by auto
  note nl = nlz_correct [OF dhnz]
  have hi: "drop_bit 32 d \<noteq> 0" using d by (simp add: word_unat_eq_iff drop_bit_eq_div unat_div div_eq_0_iff)
  have b: "2 ^ 32 = 2 ^ ?s * ?e" using nl by (simp flip: power_add)
  have "32 - ?s = Suc (31 - ?s)" using nl by linarith
  then have e2: "?e = 2 * 2 ^ (31 - ?s)" by (simp only: power_Suc)
  have X: "unat d div 2 ^ 32 + 1 \<le> ?e"
    using nl unfolding dh b by (simp add: mult.commute)
  have sz: "unat d * 2 ^ ?s < 2 ^ 64"
  proof -
    have "unat d < (unat d div 2 ^ 32 + 1) * 2 ^ 32" using dividend_less_div_times [of "2 ^ 32" "unat d"] by simp
    also have "\<dots> \<le> ?e * 2 ^ 32" using X by (rule mult_le_mono1)
    finally have "unat d * 2 ^ ?s < ?e * 2 ^ 32 * 2 ^ ?s" by simp
    also have "\<dots> = (2 ^ ?s * ?e) * 2 ^ 32" by (simp only: algebra_simps)
    finally show ?thesis unfolding b [symmetric] by simp
  qed
  have sh: "unat (push_bit ?s d) = unat d * 2 ^ ?s"
    unfolding unsigned_push_bit_eq using sz by (simp add: push_bit_eq_mult take_bit_nat_eq_self)
  have v: "unat (ucast (drop_bit 32 (push_bit ?s d)) :: u32) = ?v" unfolding unat_hi sh ..
  have vlo: "2 ^ 31 \<le> ?v"
  proof -
    have "2 ^ 31 * 2 ^ 32 \<le> unat d div 2 ^ 32 * 2 ^ ?s * 2 ^ 32" using nl unfolding dh by (simp add: mult.commute)
    also have "\<dots> \<le> unat d * 2 ^ ?s" using div_times_less_eq_dividend [of "unat d" "2 ^ 32"] by (simp add: algebra_simps)
    finally show ?thesis by (simp add: less_eq_div_iff_mult_less_eq)
  qed
  have lo: "?v * ?e \<le> unat d"
  proof -
    have "?v * 2 ^ 32 \<le> unat d * 2 ^ ?s" by (rule div_times_less_eq_dividend)
    then have "2 ^ ?s * (?v * ?e) \<le> 2 ^ ?s * unat d" unfolding b by (simp only: algebra_simps)
    then show ?thesis by simp
  qed
  have hi': "unat d < (?v + 1) * ?e"
  proof -
    have "unat d * 2 ^ ?s < (?v + 1) * 2 ^ 32"
      using dividend_less_div_times [of "2 ^ 32" "unat d * 2 ^ ?s"] by simp
    then have "2 ^ ?s * unat d < 2 ^ ?s * ((?v + 1) * ?e)" unfolding b by (simp only: algebra_simps)
    then show ?thesis by simp
  qed
  have n1: "unat (drop_bit 1 n) = unat n div 2" by (simp add: drop_bit_eq_div unat_div)
  have "unat n div 2 < 2 ^ 32 * ?v"
  proof -
    have "unat n div 2 < 2 ^ 32 * 2 ^ 31" by (simp add: less_mult_imp_div_less)
    also have "\<dots> \<le> 2 ^ 32 * ?v" using vlo by (rule mult_le_mono2)
    finally show ?thesis .
  qed
  moreover have vpos: "0 < ?v" using vlo by (rule less_le_trans [rotated]) simp
  ultimately have "unat (drop_bit 1 n) div unat (ucast (drop_bit 32 (push_bit ?s d)) :: u32) < 2 ^ 32"
    unfolding n1 v by (simp add: div_less_iff_less_mult)
  moreover have "(ucast (drop_bit 32 (push_bit ?s d)) :: u32) \<noteq> 0" using v vpos by auto
  ultimately obtain q where q: "divl (drop_bit 1 n) (ucast (drop_bit 32 (push_bit ?s d))) = Some q"
    "unat q = unat n div 2 div ?v"
    using divl_ok n1 v by metis
  let ?q = "ucast (drop_bit (31 - ?s) q) :: u64" and ?k = "unat n div unat d"
  have "unat ?q = unat n div 2 div ?v div 2 ^ (31 - ?s)"
    unfolding unat_up unat_drop_bit_eq q(2) by (simp only: drop_bit_eq_div)
  also have "\<dots> = unat n div (?v * ?e)"
    unfolding div_mult2_eq [symmetric] e2 by (simp add: ac_simps)
  finally have Q: "unat ?q = unat n div (?v * ?e)" .
  have est: "?k \<le> unat ?q" "unat ?q \<le> ?k + 1"
    using quotient_estimate [OF _ vlo _ lo hi', of "unat n"] Q nl e2 by simp_all
  have dpos: "0 < unat d" using d by (rule less_le_trans [rotated]) simp
  have k1: "1 \<le> ?k" using nd dpos by (simp add: Suc_le_eq div_greater_zero_iff)
  have qm: "unat (?q - 1) = unat ?q - 1" using est k1 by (simp add: unat_sub_if')
  have kd: "?k * unat d \<le> unat n" by (rule div_times_less_eq_dividend)
  have le: "(unat ?q - 1) * unat d \<le> unat n" using est kd
    by (meson diff_le_mono le_diff_conv mult_le_mono1 order_trans)
  have mul: "unat ((?q - 1) * d) = (unat ?q - 1) * unat d"
    using unat_mul64 [of "?q - 1" d] le_less_trans [OF le unat_lt64] qm by simp
  have sub: "unat (n - (?q - 1) * d) = unat n - (unat ?q - 1) * unat d"
    using le mul by (simp add: unat_sub_if')
  have "(if n - (?q - 1) * d < d then ?q - 1 else ?q) = n div d"
  proof (cases "unat ?q = ?k + 1")
    case True
    have "unat n - ?k * unat d < unat d" using dpos by (simp add: minus_div_mult_eq_mod)
    then have "n - (?q - 1) * d < d" using True sub by (simp add: word_less_nat_alt)
    then show ?thesis using True qm by (simp add: word_unat_eq_iff unat_div)
  next
    case False
    then have eq: "unat ?q = ?k" using est by linarith
    have "(?k - 1) * unat d + unat d = ?k * unat d" using k1 by (cases ?k) simp_all
    then have "unat d \<le> unat n - (?k - 1) * unat d" using kd by linarith
    then have "\<not> n - (?q - 1) * d < d" using eq sub by (simp add: word_less_nat_alt)
    then show ?thesis using eq by (simp add: word_unat_eq_iff unat_div)
  qed
  then show ?thesis using False hi q(1) by (simp add: udiv64_def Let_def)
qed

lemma udiv64_correct: "d \<noteq> 0 \<Longrightarrow> udiv64 n d = Some (n div d)"
  using udiv64_small udiv64_large by (cases "unat d < 2 ^ 32") (simp_all add: not_less)

section \<open>Remainders and signed division\<close>

lemma umod64_correct:
  assumes "d \<noteq> 0"
  shows "umod64 n d = Some (ucast (n mod d))"
  using udiv64_correct [OF assms, of n] by (simp add: umod64_def minus_mult_div_eq_mod)

lemma sint_range64: "- (2 ^ 63) \<le> sint n \<and> sint n < 2 ^ 63" for n :: u64
  using sint_ge [of n] sint_lt [of n] by simp

lemma abs_word: "uint (if 0 \<le>s n then n else - n) = \<bar>sint n\<bar>" for n :: u64
proof (cases "0 \<le> sint n")
  case True
  then show ?thesis using sint_range64 [of n]
    by (simp add: word_sle_eq uint_sint take_bit_int_eq_self)
next
  case False
  have "uint (- n) = take_bit 64 (- sint n)"
    unfolding uint_sint sint_word_minus by (simp add: take_bit_signed_take_bit)
  also have "\<dots> = - sint n" using False sint_range64 [of n] by (simp add: take_bit_int_eq_self)
  finally show ?thesis using False by (simp add: word_sle_eq)
qed

lemma sdiv64_correct:
  assumes d: "d \<noteq> 0" and ov: "\<not> (sint n = - (2 ^ 63) \<and> sint d = - 1)"
  shows "\<exists>q. sdiv64 n d = Some q \<and> sint q = sint n sdiv sint d"
proof -
  let ?N = "sint n" and ?D = "sint d"
  let ?na = "if 0 \<le>s n then n else - n" and ?da = "if 0 \<le>s d then d else - d"
  let ?Q = "\<bar>?N\<bar> div \<bar>?D\<bar>"
  have D: "?D \<noteq> 0" using d by (metis uint_sint take_bit_of_0 uint_0_iff)
  have "uint ?da \<noteq> 0" unfolding abs_word using D by simp
  then have da: "?da \<noteq> 0" by auto
  have q: "uint (?na div ?da) = ?Q" unfolding uint_div abs_word ..
  have w: "?na div ?da = word_of_int ?Q" unfolding q [symmetric] by simp
  have st: "sdiv64 n d = Some (if (?N < 0) = (?D < 0) then word_of_int ?Q else word_of_int (- ?Q))"
    unfolding sdiv64_def Let_def udiv64_correct [OF da] using w by (simp add: word_sless_alt)
  have Q0: "0 \<le> ?Q" by (simp add: pos_imp_zdiv_nonneg_iff D)
  have QN: "?Q \<le> \<bar>?N\<bar>" using D zdiv_mono2 [of "\<bar>?N\<bar>" 1 "\<bar>?D\<bar>"] by simp
  have N: "\<bar>?N\<bar> \<le> 2 ^ 63" using sint_range64 [of n] by linarith
  have sd: "?N sdiv ?D = (if (?N < 0) = (?D < 0) then ?Q else - ?Q)"
    using D by (auto simp: signed_divide_int_def sgn_if)
  have "- (2 ^ 63) \<le> ?N sdiv ?D \<and> ?N sdiv ?D < 2 ^ 63"
  proof (cases "?Q = 2 ^ 63")
    case False
    then show ?thesis unfolding sd using Q0 QN N by auto
  next
    case True
    then have N63: "?N = - (2 ^ 63)" using QN sint_range64 [of n] by linarith
    have "?D = 1 \<or> ?D = - 1"
    proof (rule ccontr)
      assume "\<not> (?D = 1 \<or> ?D = - 1)"
      then have "2 \<le> \<bar>?D\<bar>" using D by linarith
      then have "?Q \<le> \<bar>?N\<bar> div 2" by (intro zdiv_mono2) simp_all
      then show False using True N63 by simp
    qed
    then have "?D = 1" using ov N63 by auto
    then show ?thesis using N63 by simp
  qed
  then have "sint (word_of_int (?N sdiv ?D) :: u64) = ?N sdiv ?D"
    by (simp add: sint_sbintrunc' signed_take_bit_int_eq_self)
  then show ?thesis unfolding st sd by (auto split: if_splits)
qed

section \<open>Properties\<close>

text \<open>
  C25: for a nonzero divisor \<open>__udivdi3\<close> never traps and returns the 64-bit quotient, for small
  divisors (the two-step long division) and for large ones (the normalised estimate, corrected).
\<close>

theorem udivdi3_correct:
  assumes "d \<noteq> 0"
  shows "udivdi3 n d = Some (n div d)"
  using udiv64_correct [OF assms] by (simp add: udivdi3_def)

theorem udivdi3_correct_witness:
  "udivdi3 0xFFFFFFFFFFFFFFFF 0x1FFFFFFFF = Some (0xFFFFFFFFFFFFFFFF div 0x1FFFFFFFF)"
  by (rule udivdi3_correct) simp

text \<open>
  C26: signed division by a nonzero divisor returns the quotient truncated towards zero, except for
  the one pair whose quotient does not fit, the smallest number divided by \<open>-1\<close>.
\<close>

theorem divdi3_truncates:
  assumes "d \<noteq> 0" and "\<not> (sint n = - (2 ^ 63) \<and> sint d = - 1)"
  shows "\<exists>q. divdi3 n d = Some q \<and> sint q = sint n sdiv sint d"
  using sdiv64_correct [OF assms] by (simp add: divdi3_def)

theorem divdi3_truncates_witness:
  "\<exists>q. divdi3 (- 7) 2 = Some q \<and> sint q = - 3"
  using divdi3_truncates [of 2 "- 7"] by (simp add: signed_divide_int_def)

text \<open>
  C27: \<open>__umoddi3\<close> returns only the low 32 bits of the remainder, so it is the remainder exactly when
  that is below \<open>2 ^ 32\<close>; for a remainder that needs more bits it returns a different number.
\<close>

theorem umoddi3_truncated:
  assumes "d \<noteq> 0"
  shows "\<exists>r. umoddi3 n d = Some r \<and> unat r = unat (n mod d) mod 2 ^ 32
           \<and> (r = n mod d \<longleftrightarrow> unat (n mod d) < 2 ^ 32)"
proof -
  let ?r = "ucast (ucast (n mod d) :: u32) :: u64"
  have r: "unat ?r = unat (n mod d) mod 2 ^ 32" unfolding unat_up unat_lo ..
  moreover have "?r = n mod d \<longleftrightarrow> unat (n mod d) < 2 ^ 32"
    unfolding word_unat_eq_iff r using mod_less_divisor [of "2 ^ 32" "unat (n mod d)"] by (metis mod_less zero_less_numeral zero_less_power)
  ultimately show ?thesis using umod64_correct [OF assms, of n] by (simp add: umoddi3_def)
qed

theorem umoddi3_truncated_witness:
  "\<exists>r. umoddi3 0x100000000 0x200000000 = Some r \<and> unat r = 0"
  using umoddi3_truncated [of "0x200000000" "0x100000000"] by auto

end
