(* ===== verification/Cstring.thy ===== *)
theory Cstring
  imports Prelude
begin

text \<open>
  The byte and string routines of \<open>lib/string.c\<close> and the character classes of
  \<open>lib/ctype.h\<close>.

  Memory is a partial map from addresses to bytes: reading or writing an address that is not
  mapped is an access the program must not make and gives \<open>None\<close>. The loops that run to a null
  terminator need not end, so they are \<open>partial_function (option)\<close>; the lemmas show that they
  return for every terminated string. \<open>buf m p xs\<close> says that the bytes \<open>xs\<close> are stored at
  \<open>p\<close>, and \<open>cstr m p xs\<close> that a terminated string with characters \<open>xs\<close> is.
\<close>

type_synonym mem = "addr \<rightharpoonup> byte"

definition st :: "mem \<Rightarrow> addr \<Rightarrow> byte \<Rightarrow> mem option" where
  "st m a v = (if m a = None then None else Some (m(a \<mapsto> v)))"

section \<open>Character classes (ctype.h)\<close>

definition islower :: "int \<Rightarrow> bool" where "islower c = (c \<ge> 97 \<and> c \<le> 122)"
definition isupper :: "int \<Rightarrow> bool" where "isupper c = (c \<ge> 65 \<and> c \<le> 90)"
definition isalpha :: "int \<Rightarrow> bool" where "isalpha c = (islower c \<or> isupper c)"
definition isdigit :: "int \<Rightarrow> bool" where "isdigit c = (c \<ge> 48 \<and> c \<le> 57)"
definition isalnum :: "int \<Rightarrow> bool" where "isalnum c = (isalpha c \<or> isdigit c)"
definition isxdigit :: "int \<Rightarrow> bool" where
  "isxdigit c = (isdigit c \<or> (c \<ge> 97 \<and> c \<le> 102) \<or> (c \<ge> 65 \<and> c \<le> 70))"
definition isspace :: "int \<Rightarrow> bool" where
  "isspace c = (c = 32 \<or> c = 12 \<or> c = 10 \<or> c = 13 \<or> c = 9 \<or> c = 11)"
definition isblank :: "int \<Rightarrow> bool" where "isblank c = (c = 32 \<or> c = 9)"
definition isgraph :: "int \<Rightarrow> bool" where "isgraph c = (c > 32 \<and> c < 127)"
definition isprint :: "int \<Rightarrow> bool" where "isprint c = (c \<ge> 32 \<and> c < 127)"
definition iscntrl :: "int \<Rightarrow> bool" where "iscntrl c = ((c \<ge> 0 \<and> c < 32) \<or> c = 127)"
definition isascii :: "int \<Rightarrow> bool" where "isascii c = (c \<ge> 0 \<and> c < 128)"
definition ispunct :: "int \<Rightarrow> bool" where
  "ispunct c = (isprint c \<and> \<not> isalnum c \<and> \<not> isspace c)"
definition tolower :: "int \<Rightarrow> int" where "tolower c = (if isupper c then c - 65 + 97 else c)"
definition toupper :: "int \<Rightarrow> int" where "toupper c = (if islower c then c - 97 + 65 else c)"

section \<open>Blocks of bytes\<close>

fun copy_up :: "mem \<Rightarrow> addr \<Rightarrow> addr \<Rightarrow> nat \<Rightarrow> (mem \<times> addr) option" where
  "copy_up m dst src 0 = Some (m, dst)"
| "copy_up m dst src (Suc n) = do {
     b \<leftarrow> m src;
     m \<leftarrow> st m dst b;
     copy_up m (dst + 1) (src + 1) n }"

definition memcpy :: "mem \<Rightarrow> addr \<Rightarrow> addr \<Rightarrow> nat \<Rightarrow> (mem \<times> addr) option" where
  "memcpy m dst src n = do {
     assert_c (dst \<noteq> NULL \<or> n = 0);
     assert_c (src \<noteq> NULL \<or> n = 0);
     (m, _) \<leftarrow> copy_up m dst src n;
     Some (m, dst) }"

fun copy_down :: "mem \<Rightarrow> addr \<Rightarrow> addr \<Rightarrow> nat \<Rightarrow> (mem \<times> addr) option" where
  "copy_down m dst src 0 = Some (m, dst)"
| "copy_down m dst src (Suc n) = do {
     b \<leftarrow> m (src - 1);
     m \<leftarrow> st m (dst - 1) b;
     copy_down m (dst - 1) (src - 1) n }"

text \<open>The result is the moving pointer \<open>dst\<close>, as in the source, not the argument.\<close>

definition memmove :: "mem \<Rightarrow> addr \<Rightarrow> addr \<Rightarrow> nat \<Rightarrow> (mem \<times> addr) option" where
  "memmove m dst src n = do {
     assert_c (dst \<noteq> NULL \<or> n = 0);
     assert_c (src \<noteq> NULL \<or> n = 0);
     if dst < src then copy_up m dst src n
     else copy_down m (dst + n) (src + n) n }"

fun memcmp_loop :: "mem \<Rightarrow> addr \<Rightarrow> addr \<Rightarrow> nat \<Rightarrow> int option" where
  "memcmp_loop m a b 0 = Some 0"
| "memcmp_loop m a b (Suc n) = do {
     x \<leftarrow> m a;
     y \<leftarrow> m b;
     if x \<noteq> y then Some (if x > y then 1 else -1)
     else memcmp_loop m (a + 1) (b + 1) n }"

definition memcmp :: "mem \<Rightarrow> addr \<Rightarrow> addr \<Rightarrow> nat \<Rightarrow> int option" where
  "memcmp m a b n = do {
     assert_c (a \<noteq> NULL \<or> n = 0);
     assert_c (b \<noteq> NULL \<or> n = 0);
     memcmp_loop m a b n }"

fun memchr_loop :: "mem \<Rightarrow> addr \<Rightarrow> byte \<Rightarrow> nat \<Rightarrow> addr option" where
  "memchr_loop m block ch 0 = Some NULL"
| "memchr_loop m block ch (Suc n) = do {
     x \<leftarrow> m block;
     if x = ch then Some block else memchr_loop m (block + 1) ch n }"

definition memchr :: "mem \<Rightarrow> addr \<Rightarrow> int \<Rightarrow> nat \<Rightarrow> addr option" where
  "memchr m block ch n = do {
     assert_c (block \<noteq> NULL \<or> n = 0);
     memchr_loop m block (word_of_int ch) n }"

fun memset_loop :: "mem \<Rightarrow> addr \<Rightarrow> byte \<Rightarrow> nat \<Rightarrow> mem option" where
  "memset_loop m dst v 0 = Some m"
| "memset_loop m dst v (Suc n) = do { m \<leftarrow> st m dst v; memset_loop m (dst + 1) v n }"

definition memset :: "mem \<Rightarrow> addr \<Rightarrow> int \<Rightarrow> nat \<Rightarrow> (mem \<times> addr) option" where
  "memset m dst v n = do {
     assert_c (dst \<noteq> NULL \<or> n = 0);
     m \<leftarrow> memset_loop m dst (word_of_int v) n;
     Some (m, dst) }"

section \<open>Terminated strings\<close>

partial_function (option) strcmp_loop :: "mem \<Rightarrow> addr \<Rightarrow> addr \<Rightarrow> int option" where
  [code]: "strcmp_loop m a b = do {
     x \<leftarrow> m a;
     y \<leftarrow> m b;
     if x \<noteq> 0 \<and> x = y then strcmp_loop m (a + 1) (b + 1)
     else Some (if x < y then -1 else if x > y then 1 else 0) }"

definition strcmp :: "mem \<Rightarrow> addr \<Rightarrow> addr \<Rightarrow> int option" where
  "strcmp m a b = do {
     assert_c (a \<noteq> NULL);
     assert_c (b \<noteq> NULL);
     strcmp_loop m a b }"

partial_function (option) strchr_loop :: "mem \<Rightarrow> addr \<Rightarrow> byte \<Rightarrow> addr option" where
  [code]: "strchr_loop m s c = do {
     x \<leftarrow> m s;
     if x = c then Some s
     else if x = 0 then Some NULL
     else strchr_loop m (s + 1) c }"

definition strchr :: "mem \<Rightarrow> addr \<Rightarrow> byte \<Rightarrow> addr option" where
  "strchr m s c = do { assert_c (s \<noteq> NULL); strchr_loop m s c }"

partial_function (option) strcspn_loop :: "mem \<Rightarrow> addr \<Rightarrow> addr \<Rightarrow> nat \<Rightarrow> nat option" where
  [code]: "strcspn_loop m s stop n = do {
     x \<leftarrow> m (s + n);
     if x \<noteq> 0 then do {
       q \<leftarrow> strchr m stop x;
       if q \<noteq> NULL then Some n else strcspn_loop m s stop (n + 1) }
     else Some n }"

definition strcspn :: "mem \<Rightarrow> addr \<Rightarrow> addr \<Rightarrow> nat option" where
  "strcspn m s stop = strcspn_loop m s stop 0"

partial_function (option) strpbrk :: "mem \<Rightarrow> addr \<Rightarrow> addr \<Rightarrow> addr option" where
  [code]: "strpbrk m s stop = do {
     x \<leftarrow> m s;
     if x \<noteq> 0 then do {
       q \<leftarrow> strchr m stop x;
       if q \<noteq> NULL then Some s else strpbrk m (s + 1) stop }
     else Some NULL }"

partial_function (option) strrchr_loop :: "mem \<Rightarrow> addr \<Rightarrow> byte \<Rightarrow> addr \<Rightarrow> addr option" where
  [code]: "strrchr_loop m s c p = do {
     x \<leftarrow> m s;
     if x \<noteq> 0 then strrchr_loop m (s + 1) c (if x = c then s else p)
     else Some p }"

definition strrchr :: "mem \<Rightarrow> addr \<Rightarrow> byte \<Rightarrow> addr option" where
  "strrchr m s c = strrchr_loop m s c NULL"

partial_function (option) strspn_loop :: "mem \<Rightarrow> addr \<Rightarrow> addr \<Rightarrow> nat \<Rightarrow> nat option" where
  [code]: "strspn_loop m s skip n = do {
     x \<leftarrow> m (s + n);
     if x \<noteq> 0 then do {
       q \<leftarrow> strchr m skip x;
       if q = NULL then Some n else strspn_loop m s skip (n + 1) }
     else Some n }"

definition strspn :: "mem \<Rightarrow> addr \<Rightarrow> addr \<Rightarrow> nat option" where
  "strspn m s skip = strspn_loop m s skip 0"

partial_function (option) strlen_loop :: "mem \<Rightarrow> addr \<Rightarrow> addr option" where
  [code]: "strlen_loop m p = do { x \<leftarrow> m p; if x \<noteq> 0 then strlen_loop m (p + 1) else Some p }"

definition strlen :: "mem \<Rightarrow> addr \<Rightarrow> nat option" where
  "strlen m s = do {
     assert_c (s \<noteq> NULL);
     p \<leftarrow> strlen_loop m s;
     Some (p - s) }"

text \<open>The loop reads \<open>string[length]\<close> before it compares \<open>length\<close> with \<open>maxlen\<close>.\<close>

function strnlen_loop :: "mem \<Rightarrow> addr \<Rightarrow> nat \<Rightarrow> nat \<Rightarrow> nat option" where
  "strnlen_loop m s maxlen n = do {
     x \<leftarrow> m (s + n);
     if x \<noteq> 0 \<and> n < maxlen then strnlen_loop m s maxlen (n + 1) else Some n }"
  by pat_completeness auto
termination by (relation "measure (\<lambda>(m, s, maxlen, n). maxlen - n)") auto

definition strnlen :: "mem \<Rightarrow> addr \<Rightarrow> nat \<Rightarrow> nat option" where
  "strnlen m s maxlen = strnlen_loop m s maxlen 0"

function strstr_loop :: "mem \<Rightarrow> addr \<Rightarrow> addr \<Rightarrow> nat \<Rightarrow> nat \<Rightarrow> nat \<Rightarrow> addr option" where
  "strstr_loop m haystack needle haystack_len needle_len i =
     (if i \<le> haystack_len - needle_len then do {
        c \<leftarrow> memcmp m (haystack + i) needle needle_len;
        if c = 0 then Some (haystack + i)
        else strstr_loop m haystack needle haystack_len needle_len (i + 1) }
      else Some NULL)"
  by pat_completeness auto
termination by (relation "measure (\<lambda>(m, h, n, hl, nl, i). Suc (hl - nl) - i)") auto

definition strstr :: "mem \<Rightarrow> addr \<Rightarrow> addr \<Rightarrow> addr option" where
  "strstr m haystack needle = do {
     haystack_len \<leftarrow> strlen m haystack;
     needle_len \<leftarrow> strlen m needle;
     if haystack_len \<ge> needle_len then strstr_loop m haystack needle haystack_len needle_len 0
     else Some NULL }"

text \<open>
  \<open>strtok_r\<close> takes the value of \<open>*save_ptr\<close> and returns the new one. The skipping loop
  returns the position it stopped at and whether it stopped at the terminator.
\<close>

partial_function (option) skip_delims :: "mem \<Rightarrow> addr \<Rightarrow> addr \<Rightarrow> (addr \<times> bool) option" where
  [code]: "skip_delims m s delimiters = do {
     x \<leftarrow> m s;
     q \<leftarrow> strchr m delimiters x;
     if q \<noteq> NULL then
       (if x = 0 then Some (s, True) else skip_delims m (s + 1) delimiters)
     else Some (s, False) }"

partial_function (option) skip_token :: "mem \<Rightarrow> addr \<Rightarrow> addr \<Rightarrow> addr option" where
  [code]: "skip_token m s delimiters = do {
     x \<leftarrow> m s;
     q \<leftarrow> strchr m delimiters x;
     if q = NULL then skip_token m (s + 1) delimiters else Some s }"

definition strtok_r :: "mem \<Rightarrow> addr \<Rightarrow> addr \<Rightarrow> addr \<Rightarrow> (mem \<times> addr \<times> addr) option" where
  "strtok_r m s delimiters save = do {
     assert_c (delimiters \<noteq> NULL);
     let s = (if s = NULL then save else s);
     assert_c (s \<noteq> NULL);
     (s, at_end) \<leftarrow> skip_delims m s delimiters;
     if at_end then Some (m, NULL, s)
     else do {
       let token = s;
       s \<leftarrow> skip_token m s delimiters;
       x \<leftarrow> m s;
       if x \<noteq> 0 then do {
         m \<leftarrow> st m s 0;
         Some (m, token, s + 1) }
       else Some (m, token, s) } }"

definition strlcpy :: "mem \<Rightarrow> addr \<Rightarrow> addr \<Rightarrow> nat \<Rightarrow> (mem \<times> nat) option" where
  "strlcpy m dst src n = do {
     assert_c (dst \<noteq> NULL);
     assert_c (src \<noteq> NULL);
     src_len \<leftarrow> strlen m src;
     if n > 0 then do {
       let dst_len = (if src_len < n - 1 then src_len else n - 1);
       (m, _) \<leftarrow> memcpy m dst src dst_len;
       m \<leftarrow> st m (dst + dst_len) 0;
       Some (m, src_len) }
     else Some (m, src_len) }"

definition strlcat :: "mem \<Rightarrow> addr \<Rightarrow> addr \<Rightarrow> nat \<Rightarrow> (mem \<times> nat) option" where
  "strlcat m dst src n = do {
     assert_c (dst \<noteq> NULL);
     assert_c (src \<noteq> NULL);
     src_len \<leftarrow> strlen m src;
     dst_len \<leftarrow> strlen m dst;
     if n > 0 \<and> dst_len < n then do {
       let copy_cnt = (if src_len < n - dst_len - 1 then src_len else n - dst_len - 1);
       (m, _) \<leftarrow> memcpy m (dst + dst_len) src copy_cnt;
       m \<leftarrow> st m (dst + dst_len + copy_cnt) 0;
       Some (m, src_len + dst_len) }
     else Some (m, src_len + dst_len) }"

declare strnlen_loop.simps [simp del] strstr_loop.simps [simp del]

section \<open>Stored bytes and strings\<close>

fun buf :: "mem \<Rightarrow> addr \<Rightarrow> byte list \<Rightarrow> bool" where
  "buf m p [] = True"
| "buf m p (x # xs) = (m p = Some x \<and> buf m (Suc p) xs)"

fun cstr :: "mem \<Rightarrow> addr \<Rightarrow> byte list \<Rightarrow> bool" where
  "cstr m p [] = (m p = Some 0)"
| "cstr m p (x # xs) = (m p = Some x \<and> x \<noteq> 0 \<and> cstr m (Suc p) xs)"

text \<open>The memory after storing the bytes \<open>xs\<close> at \<open>p\<close>.\<close>

definition put :: "mem \<Rightarrow> addr \<Rightarrow> byte list \<Rightarrow> mem" where
  "put m p xs = (\<lambda>a. if p \<le> a \<and> a < p + length xs then Some (xs ! (a - p)) else m a)"

definition mapped :: "mem \<Rightarrow> addr \<Rightarrow> nat \<Rightarrow> bool" where
  "mapped m p n = (\<forall>a. p \<le> a \<and> a < p + n \<longrightarrow> m a \<noteq> None)"

lemma mapped_0 [simp]: "mapped m p 0"
  by (auto simp: mapped_def)

lemma mapped_upt: "mapped m p n \<longleftrightarrow> (\<forall>a \<in> set [p..<p + n]. m a \<noteq> None)"
  by (auto simp: mapped_def)

lemma mapped_Suc: "mapped m p (Suc n) \<longleftrightarrow> m p \<noteq> None \<and> mapped m (Suc p) n"
proof
  assume "mapped m p (Suc n)"
  then show "m p \<noteq> None \<and> mapped m (Suc p) n" by (auto simp: mapped_def)
next
  assume asm: "m p \<noteq> None \<and> mapped m (Suc p) n"
  have "m a \<noteq> None" if "p \<le> a" "a < p + Suc n" for a
    using that asm by (cases "a = p") (auto simp: mapped_def)
  then show "mapped m p (Suc n)" by (simp add: mapped_def)
qed

lemma mapped_mono: "mapped m p n \<Longrightarrow> k \<le> n \<Longrightarrow> mapped m p k"
  by (auto simp: mapped_def)

lemma mapped_upd: "mapped m p n \<Longrightarrow> mapped (m(a \<mapsto> v)) p n"
  by (simp add: mapped_def)

lemma put_Nil [simp]: "put m p [] = m"
  by (rule ext) (auto simp: put_def)

lemma put_Cons: "put m p (x # xs) = put (m(p \<mapsto> x)) (Suc p) xs"
  by (rule ext) (auto simp: put_def nth_Cons')

lemma put_snoc: "put m p (xs @ [x]) = put (m(p + length xs \<mapsto> x)) p xs"
  by (rule ext) (auto simp: put_def nth_append)

lemma put_out [simp]: "a < p \<or> p + length xs \<le> a \<Longrightarrow> put m p xs a = m a"
  by (auto simp: put_def)

lemma put_in: "i < length xs \<Longrightarrow> put m p xs (p + i) = Some (xs ! i)"
  by (simp add: put_def)

lemma buf_iff: "buf m p xs \<longleftrightarrow> (\<forall>i < length xs. m (p + i) = Some (xs ! i))"
proof (induction xs arbitrary: p)
  case (Cons x xs)
  show ?case unfolding buf.simps Cons.IH
    by (simp add: All_less_Suc2)
qed simp

lemma buf_put [simp]: "buf (put m p xs) p xs"
  by (simp add: buf_iff put_in)

lemma buf_append: "buf m p (xs @ ys) \<longleftrightarrow> buf m p xs \<and> buf m (p + length xs) ys"
  by (induction xs arbitrary: p) auto

lemma cstr_buf: "cstr m p xs \<longleftrightarrow> buf m p xs \<and> 0 \<notin> set xs \<and> m (p + length xs) = Some 0"
  by (induction xs arbitrary: p) auto

lemma buf_cong: "(\<And>a. p \<le> a \<Longrightarrow> a < p + length xs \<Longrightarrow> m' a = m a) \<Longrightarrow> buf m' p xs = buf m p xs"
  by (simp add: buf_iff)

lemma cstr_cong: "(\<And>a. p \<le> a \<Longrightarrow> a \<le> p + length xs \<Longrightarrow> m' a = m a) \<Longrightarrow> cstr m' p xs = cstr m p xs"
  unfolding cstr_buf by (simp cong: conj_cong add: buf_cong [of p xs m' m])

lemma cstr_append:
  "cstr m p (xs @ ys) \<longleftrightarrow> buf m p xs \<and> 0 \<notin> set xs \<and> cstr m (p + length xs) ys"
  by (auto simp: cstr_buf buf_append add.assoc)

section \<open>Copying\<close>

lemma st_Some: "m a \<noteq> None \<Longrightarrow> st m a v = Some (m(a \<mapsto> v))"
  by (simp add: st_def)

lemma copy_up_put:
  assumes "buf m src xs" "mapped m dst (length xs)" "dst \<le> src \<or> src + length xs \<le> dst"
  shows "copy_up m dst src (length xs) = Some (put m dst xs, dst + length xs)"
  using assms
proof (induction xs arbitrary: m dst src)
  case (Cons x xs)
  have "buf (m(dst \<mapsto> x)) (Suc src) xs = buf m (Suc src) xs"
    by (rule buf_cong) (use Cons.prems(3) in auto)
  moreover have "mapped (m(dst \<mapsto> x)) (Suc dst) (length xs)"
    using Cons.prems(2) by (simp add: mapped_Suc mapped_upd)
  ultimately show ?case
    using Cons.prems Cons.IH [of "m(dst \<mapsto> x)" "Suc src" "Suc dst"]
    by (auto simp: st_Some mapped_Suc put_Cons simp del: fun_upd_apply)
qed simp

lemma copy_down_put:
  assumes "buf m src xs" "mapped m dst (length xs)" "src \<le> dst"
  shows "copy_down m (dst + length xs) (src + length xs) (length xs) = Some (put m dst xs, dst)"
  using assms
proof (induction xs arbitrary: m rule: rev_induct)
  case (snoc x xs)
  let ?m = "m(dst + length xs \<mapsto> x)"
  have b: "buf ?m src xs = buf m src xs"
    by (rule buf_cong) (use snoc.prems(3) in auto)
  have "mapped ?m dst (length xs)"
    using snoc.prems(2) by (auto intro: mapped_upd mapped_mono)
  then have "copy_down ?m (dst + length xs) (src + length xs) (length xs) = Some (put ?m dst xs, dst)"
    using snoc.prems b by (intro snoc.IH) (simp_all add: buf_append del: fun_upd_apply)
  moreover have "m (dst + length xs) \<noteq> None"
    using snoc.prems(2) by (simp add: mapped_def)
  moreover have "m (src + length xs) = Some x" using snoc.prems(1) by (simp add: buf_append)
  ultimately show ?case by (simp add: st_Some put_snoc)
qed simp

lemma memcpy_put:
  assumes "buf m src xs" "mapped m dst (length xs)" "dst \<le> src \<or> src + length xs \<le> dst"
    "dst \<noteq> NULL \<or> xs = []" "src \<noteq> NULL \<or> xs = []"
  shows "memcpy m dst src (length xs) = Some (put m dst xs, dst)"
  using assms by (simp add: memcpy_def copy_up_put)

lemma memset_loop_put:
  "mapped m dst n \<Longrightarrow> memset_loop m dst v n = Some (put m dst (replicate n v))"
proof (induction n arbitrary: m dst)
  case (Suc n)
  then have "mapped (m(dst \<mapsto> v)) (Suc dst) n" by (simp add: mapped_Suc mapped_upd)
  then have "memset_loop (m(dst \<mapsto> v)) (Suc dst) v n = Some (put (m(dst \<mapsto> v)) (Suc dst) (replicate n v))"
    by (rule Suc.IH)
  with Suc.prems show ?case by (simp add: mapped_Suc st_Some put_Cons)
qed simp

lemma memset_put:
  "mapped m dst n \<Longrightarrow> dst \<noteq> NULL \<Longrightarrow> memset m dst v n = Some (put m dst (replicate n (word_of_int v)), dst)"
  by (simp add: memset_def memset_loop_put)

section \<open>Comparing and searching\<close>

text \<open>The sign of the lexicographic comparison of byte sequences.\<close>

fun cmp_bytes :: "byte list \<Rightarrow> byte list \<Rightarrow> int" where
  "cmp_bytes [] [] = 0"
| "cmp_bytes [] (y # ys) = -1"
| "cmp_bytes (x # xs) [] = 1"
| "cmp_bytes (x # xs) (y # ys) = (if x < y then -1 else if x > y then 1 else cmp_bytes xs ys)"

lemma cmp_bytes_eq [simp]: "cmp_bytes xs ys = 0 \<longleftrightarrow> xs = ys"
  by (induction xs ys rule: cmp_bytes.induct) auto

lemma cmp_bytes_swap: "cmp_bytes ys xs = - cmp_bytes xs ys"
  by (induction xs ys rule: cmp_bytes.induct) auto

lemma memcmp_loop_cmp:
  "buf m a xs \<Longrightarrow> buf m b ys \<Longrightarrow> length xs = n \<Longrightarrow> length ys = n \<Longrightarrow>
     memcmp_loop m a b n = Some (cmp_bytes xs ys)"
proof (induction n arbitrary: a b xs ys)
  case (Suc n)
  then obtain x xs' y ys' where "xs = x # xs'" "ys = y # ys'"
    by (metis length_Suc_conv)
  with Suc show ?case by (auto simp: not_less_iff_gr_or_eq)
qed simp

lemma strcmp_loop_cmp:
  "cstr m a xs \<Longrightarrow> cstr m b ys \<Longrightarrow> strcmp_loop m a b = Some (cmp_bytes xs ys)"
proof (induction xs ys arbitrary: a b rule: cmp_bytes.induct)
  case (2 y ys)
  then show ?case by (subst strcmp_loop.simps) (simp add: word_gt_0)
next
  case (3 x xs)
  then show ?case by (subst strcmp_loop.simps) (simp add: word_gt_0)
next
  case (4 x xs y ys)
  then show ?case by (subst strcmp_loop.simps) (auto simp: not_less_iff_gr_or_eq)
qed (subst strcmp_loop.simps, simp)

lemma strcmp_cmp:
  "cstr m a xs \<Longrightarrow> cstr m b ys \<Longrightarrow> a \<noteq> NULL \<Longrightarrow> b \<noteq> NULL \<Longrightarrow> strcmp m a b = Some (cmp_bytes xs ys)"
  by (simp add: strcmp_def strcmp_loop_cmp)

lemma strlen_loop_cstr: "cstr m p xs \<Longrightarrow> strlen_loop m p = Some (p + length xs)"
  by (induction xs arbitrary: p) (subst strlen_loop.simps, simp)+

lemma strlen_cstr: "cstr m p xs \<Longrightarrow> p \<noteq> NULL \<Longrightarrow> strlen m p = Some (length xs)"
  by (simp add: strlen_def strlen_loop_cstr)

lemma strnlen_loop_cstr:
  "cstr m s xs \<Longrightarrow> k \<le> length xs \<Longrightarrow> k \<le> maxlen \<Longrightarrow>
     strnlen_loop m s maxlen k = Some (min (length xs) maxlen)"
proof (induction "maxlen - k" arbitrary: k)
  case 0
  then show ?case
    by (subst strnlen_loop.simps) (cases "k < length xs"; simp add: cstr_buf buf_iff)
next
  case (Suc d)
  show ?case
  proof (cases "k < length xs")
    case True
    then have "m (s + k) = Some (xs ! k)" "xs ! k \<noteq> 0"
      using Suc.prems(1) by (auto simp: cstr_buf buf_iff in_set_conv_nth)
    then show ?thesis using Suc True by (subst strnlen_loop.simps) simp
  next
    case False
    then show ?thesis using Suc by (subst strnlen_loop.simps) (simp add: cstr_buf)
  qed
qed

lemma strnlen_cstr: "cstr m s xs \<Longrightarrow> strnlen m s maxlen = Some (min (length xs) maxlen)"
  by (simp add: strnlen_def strnlen_loop_cstr)

lemma strchr_loop_found:
  "cstr m s xs \<Longrightarrow> c \<in> set xs \<or> c = 0 \<Longrightarrow>
     strchr_loop m s c = Some (s + length (takeWhile (\<lambda>x. x \<noteq> c) xs))"
  by (induction xs arbitrary: s) (subst strchr_loop.simps, auto)+

lemma strchr_loop_missing:
  "cstr m s xs \<Longrightarrow> c \<notin> set xs \<Longrightarrow> c \<noteq> 0 \<Longrightarrow> strchr_loop m s c = Some NULL"
  by (induction xs arbitrary: s) (subst strchr_loop.simps, auto)+

lemma strchr_cstr:
  "cstr m s xs \<Longrightarrow> s \<noteq> NULL \<Longrightarrow>
     strchr m s c = Some (if c \<in> set xs \<or> c = 0 then s + length (takeWhile (\<lambda>x. x \<noteq> c) xs) else NULL)"
  by (simp add: strchr_def strchr_loop_found strchr_loop_missing)

lemma strchr_member:
  "cstr m s xs \<Longrightarrow> s \<noteq> NULL \<Longrightarrow>
     \<exists>q. strchr m s c = Some q \<and> (q \<noteq> NULL \<longleftrightarrow> c \<in> set xs \<or> c = 0)"
  by (simp add: strchr_cstr)


lemma strcspn_loop_cstr:
  "cstr m (s + k) xs \<Longrightarrow> cstr m stop ys \<Longrightarrow> stop \<noteq> NULL \<Longrightarrow>
     strcspn_loop m s stop k = Some (k + length (takeWhile (\<lambda>x. x \<notin> set ys) xs))"
  by (induction xs arbitrary: k) (subst strcspn_loop.simps, simp add: strchr_cstr)+

lemma strspn_loop_cstr:
  "cstr m (s + k) xs \<Longrightarrow> cstr m skip ys \<Longrightarrow> skip \<noteq> NULL \<Longrightarrow>
     strspn_loop m s skip k = Some (k + length (takeWhile (\<lambda>x. x \<in> set ys) xs))"
  by (induction xs arbitrary: k) (subst strspn_loop.simps, simp add: strchr_cstr)+

lemma strpbrk_cstr:
  "cstr m s xs \<Longrightarrow> cstr m stop ys \<Longrightarrow> stop \<noteq> NULL \<Longrightarrow>
     strpbrk m s stop =
       Some (if set xs \<inter> set ys = {} then NULL else s + length (takeWhile (\<lambda>x. x \<notin> set ys) xs))"
  by (induction xs arbitrary: s) (subst strpbrk.simps, simp add: strchr_cstr)+

lemma strrchr_loop_cstr:
  "cstr m s xs \<Longrightarrow> c \<noteq> 0 \<Longrightarrow>
     strrchr_loop m s c p =
       Some (if c \<in> set xs then s + (length xs - Suc (length (takeWhile (\<lambda>x. x \<noteq> c) (rev xs)))) else p)"
proof (induction xs arbitrary: s p)
  case (Cons x xs)
  show ?case
  proof (cases "c \<in> set xs")
    case True
    then obtain ys zs where xs: "xs = ys @ c # zs" "c \<notin> set zs" by (meson split_list_last)
    then have "takeWhile (\<lambda>x. x \<noteq> c) (rev zs) = rev zs" by (auto simp: takeWhile_eq_all_conv)
    with xs Cons.prems Cons.IH [of "Suc s"] show ?thesis
      by (subst strrchr_loop.simps) (simp add: takeWhile_append)
  next
    case False
    then have tw: "takeWhile (\<lambda>x. x \<noteq> c) (rev xs) = rev xs" by (auto simp: takeWhile_eq_all_conv)
    from False Cons show ?thesis by (subst strrchr_loop.simps) (auto simp: takeWhile_append tw)
  qed
qed (subst strrchr_loop.simps, simp)

lemma memchr_loop_buf:
  "buf m p xs \<Longrightarrow>
     memchr_loop m p c (length xs) =
       Some (if c \<in> set xs then p + length (takeWhile (\<lambda>x. x \<noteq> c) xs) else NULL)"
  by (induction xs arbitrary: p) auto

text \<open>The position of the first occurrence of one byte sequence in another.\<close>

fun find_sub :: "byte list \<Rightarrow> byte list \<Rightarrow> nat option" where
  "find_sub ys [] = (if ys = [] then Some 0 else None)"
| "find_sub ys (x # xs) =
     (if take (length ys) (x # xs) = ys then Some 0 else map_option Suc (find_sub ys xs))"

lemma find_sub_Some:
  "find_sub ys xs = Some i \<longleftrightarrow>
     i + length ys \<le> length xs \<and> take (length ys) (drop i xs) = ys \<and>
     (\<forall>j < i. take (length ys) (drop j xs) \<noteq> ys)"
proof (induction xs arbitrary: i)
  case (Cons x xs)
  show ?case
  proof (cases i)
    case 0
    have "length ys \<le> Suc (length xs)" if "take (length ys) (x # xs) = ys"
      using arg_cong [OF that, of length] by simp
    with 0 show ?thesis by auto
  next
    case (Suc k)
    then show ?thesis using Cons.IH [of k] by (auto simp: All_less_Suc2)
  qed
qed auto

lemma find_sub_short: "length xs < length ys \<Longrightarrow> find_sub ys xs = None"
  using find_sub_Some [of ys xs] by (cases "find_sub ys xs") auto

lemma strstr_loop_find:
  assumes "cstr m h xs" "cstr m q ys" "h \<noteq> NULL" "q \<noteq> NULL" "length ys \<le> length xs"
  shows "i \<le> Suc (length xs - length ys) \<Longrightarrow> ys \<noteq> [] \<or> i \<le> length xs \<Longrightarrow>
    strstr_loop m h q (length xs) (length ys) i =
      Some (case find_sub ys (drop i xs) of None \<Rightarrow> NULL | Some k \<Rightarrow> h + i + k)"
proof (induction "Suc (length xs - length ys) - i" arbitrary: i)
  case 0
  then have "find_sub ys (drop i xs) = None"
    using assms(5) by (intro find_sub_short) (auto simp flip: length_greater_0_conv)
  with 0 show ?case by (subst strstr_loop.simps) simp
next
  case (Suc d)
  then have i: "i \<le> length xs - length ys" by simp
  let ?w = "take (length ys) (drop i xs)"
  have "buf m (h + i) ?w" using assms(1) i by (auto simp: cstr_buf buf_iff add.assoc)
  moreover have "buf m q ys" using assms(2) by (simp add: cstr_buf)
  moreover have "length ?w = length ys" using i assms(5) by simp
  ultimately have mc: "memcmp m (h + i) q (length ys) = Some (cmp_bytes ?w ys)"
    using assms(3,4) by (simp add: memcmp_def memcmp_loop_cmp)
  show ?case
  proof (cases "?w = ys")
    case True
    then have "find_sub ys (drop i xs) = Some 0"
      using i assms(5) by (simp add: find_sub_Some)
    with True mc i show ?thesis by (subst strstr_loop.simps) simp
  next
    case False
    have "ys \<noteq> []" using False by auto
    then have "i < length xs" using i assms(5) by (cases ys) auto
    then have "drop i xs = xs ! i # drop (Suc i) xs" by (simp add: Cons_nth_drop_Suc)
    with False have "find_sub ys (drop i xs) = map_option Suc (find_sub ys (drop (Suc i) xs))"
      by simp
    moreover have "strstr_loop m h q (length xs) (length ys) (Suc i) =
        Some (case find_sub ys (drop (Suc i) xs) of None \<Rightarrow> NULL | Some k \<Rightarrow> h + Suc i + k)"
      by (rule Suc.hyps(1)) (use Suc.hyps(2) i \<open>ys \<noteq> []\<close> in auto)
    ultimately show ?thesis using False mc i
      by (subst strstr_loop.simps) (simp split: option.split)
  qed
qed

text \<open>
  C28: On terminated strings \<open>strstr\<close> returns: a pointer to the first position of the haystack
  at which the needle stands, or the null pointer if there is none (in particular if the needle
  is longer than the haystack).
\<close>

theorem strstr_first:
  assumes "cstr m h xs" "cstr m q ys" "h \<noteq> NULL" "q \<noteq> NULL"
  shows "strstr m h q = Some (case find_sub ys xs of None \<Rightarrow> NULL | Some k \<Rightarrow> h + k)"
proof (cases "length ys \<le> length xs")
  case True
  with assms show ?thesis
    using strstr_loop_find [of m h xs q ys 0] by (simp add: strstr_def strlen_cstr cong: option.case_cong)
next
  case False
  with assms show ?thesis by (simp add: strstr_def strlen_cstr find_sub_short)
qed

definition demo_mem :: "nat \<Rightarrow> nat list \<Rightarrow> mem" where
  "demo_mem p xs = put Map.empty p (map of_nat xs)"

theorem strstr_first_witness:
  "strstr (demo_mem 1 [97, 97, 98, 97, 98, 0, 97, 98, 0]) 1 7 = Some 2"
  by (rule trans [OF strstr_first [where xs = "[97, 97, 98, 97, 98]" and ys = "[97, 98]"]])
    (simp_all add: demo_mem_def put_def)

section \<open>Moving overlapping blocks\<close>

text \<open>
  C29: \<open>memmove\<close> moves the block \<open>xs\<close> from \<open>src\<close> to \<open>dst\<close> whether or not the two ranges
  overlap: afterwards \<open>xs\<close> stands at \<open>dst\<close> and no byte outside the destination has changed.
  The pointer it returns is the end of the destination when \<open>dst < src\<close> and \<open>dst\<close> otherwise.
\<close>

theorem memmove_correct:
  assumes "buf m src xs" "mapped m dst (length xs)" "dst \<noteq> NULL" "src \<noteq> NULL"
  shows "\<exists>m'. memmove m dst src (length xs) = Some (m', if dst < src then dst + length xs else dst) \<and>
    buf m' dst xs \<and> (\<forall>a. a < dst \<or> dst + length xs \<le> a \<longrightarrow> m' a = m a)"
proof (cases "dst < src")
  case True
  with assms show ?thesis
    by (intro exI [of _ "put m dst xs"]) (simp add: memmove_def copy_up_put)
next
  case False
  with assms show ?thesis
    by (intro exI [of _ "put m dst xs"]) (simp add: memmove_def copy_down_put)
qed

theorem memmove_correct_witness:
  "\<exists>m'. memmove (demo_mem 1 [1, 2, 3, 4]) 2 1 3 = Some (m', 2) \<and> buf m' 2 [1, 2, 3]"
proof -
  have "\<exists>m'. memmove (demo_mem 1 [1, 2, 3, 4]) 2 1 (length [1, 2, 3 :: byte]) =
      Some (m', if (2 :: nat) < 1 then 2 + length [1, 2, 3 :: byte] else 2) \<and> buf m' 2 [1, 2, 3] \<and>
      (\<forall>a. a < 2 \<or> 2 + length [1, 2, 3 :: byte] \<le> a \<longrightarrow> m' a = demo_mem 1 [1, 2, 3, 4] a)"
    by (rule memmove_correct) (simp_all add: demo_mem_def put_def mapped_upt upt_rec)
  then show ?thesis by (simp add: numeral_3_eq_3) blast
qed

section \<open>Bounded copies\<close>

lemma cstr_put_take:
  assumes "0 \<notin> set xs"
  shows "cstr ((put m p (take k xs))(p + length (take k xs) \<mapsto> 0)) p (take k xs)"
proof -
  have "buf ((put m p (take k xs))(p + length (take k xs) \<mapsto> 0)) p (take k xs) =
      buf (put m p (take k xs)) p (take k xs)"
    by (rule buf_cong) simp
  with assms show ?thesis by (auto simp: cstr_buf dest: in_set_takeD)
qed

lemma strlcpy_correct:
  assumes "cstr m src xs" "mapped m dst n" "0 < n" "dst \<noteq> NULL" "src \<noteq> NULL"
    and "dst + n \<le> src \<or> src + length xs < dst"
  shows "\<exists>m'. strlcpy m dst src n = Some (m', length xs) \<and> cstr m' dst (take (n - 1) xs) \<and>
    (\<forall>a. a < dst \<or> dst + n \<le> a \<longrightarrow> m' a = m a)"
proof -
  let ?ys = "take (n - 1) xs"
  let ?m = "(put m dst ?ys)(dst + length ?ys \<mapsto> 0)"
  have len: "length ?ys < n" "(if length xs < n - 1 then length xs else n - 1) = length ?ys"
    using assms(3) by auto
  have "buf m src ?ys" using assms(1) by (simp add: cstr_buf buf_iff)
  then have "memcpy m dst src (length ?ys) = Some (put m dst ?ys, dst)"
    using assms len by (intro memcpy_put) (auto intro: mapped_mono)
  moreover have "put m dst ?ys (dst + length ?ys) \<noteq> None"
    using assms(2) len by (simp add: mapped_def)
  ultimately have "strlcpy m dst src n = Some (?m, length xs)"
    using assms len(2) by (simp add: strlcpy_def strlen_cstr st_Some)
  moreover have "cstr ?m dst ?ys"
    by (rule cstr_put_take) (use assms(1) in \<open>simp add: cstr_buf\<close>)
  ultimately show ?thesis using len(1) by auto
qed

text \<open>
  C30: \<open>strlcat\<close> never writes outside the \<open>n\<close> bytes of its destination and leaves there the
  terminated concatenation of the two strings cut to \<open>n - 1\<close> characters; it returns the length
  the whole concatenation has, so that the caller can detect the cut.
\<close>

theorem strlcat_correct:
  assumes "cstr m dst ds" "cstr m src xs" "mapped m dst n" "length ds < n"
    and "dst \<noteq> NULL" "src \<noteq> NULL" "dst + n \<le> src \<or> src + length xs < dst"
  shows "\<exists>m'. strlcat m dst src n = Some (m', length xs + length ds) \<and>
    cstr m' dst (take (n - 1) (ds @ xs)) \<and> (\<forall>a. a < dst \<or> dst + n \<le> a \<longrightarrow> m' a = m a)"
proof -
  let ?k = "n - length ds - 1"
  let ?ys = "take ?k xs"
  let ?p = "dst + length ds"
  let ?m = "(put m ?p ?ys)(?p + length ?ys \<mapsto> 0)"
  have len: "length ds + length ?ys < n" "(if length xs < ?k then length xs else ?k) = length ?ys"
    using assms(4) by auto
  have mp: "mapped m ?p (length ?ys)" using assms(3) len(1) by (auto simp: mapped_def)
  have "buf m src ?ys" using assms(2) by (simp add: cstr_buf buf_iff)
  then have "memcpy m ?p src (length ?ys) = Some (put m ?p ?ys, ?p)"
    using assms(5-7) len mp by (intro memcpy_put) auto
  moreover have "put m ?p ?ys (?p + length ?ys) \<noteq> None"
    using assms(3) len by (simp add: mapped_def)
  ultimately have "strlcat m dst src n = Some (?m, length xs + length ds)"
    using assms len(2) by (simp add: strlcat_def strlen_cstr st_Some)
  moreover have "cstr ?m ?p ?ys"
    by (rule cstr_put_take) (use assms(2) in \<open>simp add: cstr_buf\<close>)
  moreover have "buf ?m dst ds = buf m dst ds" by (rule buf_cong) simp
  moreover have "take (n - 1) (ds @ xs) = ds @ ?ys" using assms(4) by simp
  ultimately show ?thesis using len(1) assms(1)
    by (intro exI [of _ ?m]) (auto simp: cstr_append cstr_buf [of m dst])
qed

theorem strlcat_correct_witness:
  "\<exists>m'. strlcat (demo_mem 1 [97, 0, 7, 7, 98, 99, 100, 0]) 1 5 3 = Some (m', 4) \<and> cstr m' 1 [97, 98]"
proof -
  let ?m = "demo_mem 1 [97, 0, 7, 7, 98, 99, 100, 0]"
  have "\<exists>m'. strlcat ?m 1 5 3 = Some (m', length [98, 99, 100 :: byte] + length [97 :: byte]) \<and>
      cstr m' 1 (take (3 - 1) ([97] @ [98, 99, 100])) \<and> (\<forall>a. a < 1 \<or> 1 + 3 \<le> a \<longrightarrow> m' a = ?m a)"
    by (rule strlcat_correct) (simp_all add: demo_mem_def put_def mapped_upt upt_rec)
  then show ?thesis by auto
qed

section \<open>Tokens\<close>

text \<open>The tokens of a string: its maximal runs of characters that are not delimiters.\<close>

function tokens :: "byte set \<Rightarrow> byte list \<Rightarrow> byte list list" where
  "tokens D xs =
     (let ys = dropWhile (\<lambda>x. x \<in> D) xs in
      if ys = [] then []
      else takeWhile (\<lambda>x. x \<notin> D) ys # tokens D (drop (Suc (length (takeWhile (\<lambda>x. x \<notin> D) ys))) ys))"
  by pat_completeness auto
termination
proof (relation "measure (\<lambda>(D, xs). length xs)")
  fix D :: "byte set" and xs ys :: "byte list"
  assume "ys = dropWhile (\<lambda>x. x \<in> D) xs" "ys \<noteq> []"
  then have "0 < length ys" "length ys \<le> length xs"
    using length_dropWhile_le [of "\<lambda>x. x \<in> D" xs] by auto
  then show "((D, drop (Suc (length (takeWhile (\<lambda>x. x \<notin> D) ys))) ys), D, xs) \<in> measure (\<lambda>(D, xs). length xs)"
    by (simp del: length_greater_0_conv)
qed simp

declare tokens.simps [simp del]

lemma skip_delims_cstr:
  "cstr m s xs \<Longrightarrow> cstr m d ds \<Longrightarrow> d \<noteq> NULL \<Longrightarrow>
     skip_delims m s d = Some (s + length (takeWhile (\<lambda>x. x \<in> set ds) xs), set xs \<subseteq> set ds)"
  by (induction xs arbitrary: s) (subst skip_delims.simps, simp add: strchr_cstr)+

lemma skip_token_cstr:
  "cstr m s xs \<Longrightarrow> cstr m d ds \<Longrightarrow> d \<noteq> NULL \<Longrightarrow>
     skip_token m s d = Some (s + length (takeWhile (\<lambda>x. x \<notin> set ds) xs))"
  by (induction xs arbitrary: s) (subst skip_token.simps, simp add: strchr_cstr)+

lemma strtok_r_none:
  assumes "cstr m p xs" "cstr m d ds" "d \<noteq> NULL" "p \<noteq> NULL" "(if s = NULL then save else s) = p"
    and "set xs \<subseteq> set ds"
  shows "strtok_r m s d save = Some (m, NULL, p + length xs)"
proof -
  have tw: "takeWhile (\<lambda>x. x \<in> set ds) xs = xs" using assms(6) by (auto simp: takeWhile_eq_all_conv)
  have sd: "skip_delims m p d = Some (p + length xs, True)"
    using skip_delims_cstr [OF assms(1,2,3)] assms(6) by (simp add: tw)
  show ?thesis using assms(3,4) by (simp add: strtok_r_def assms(5) sd)
qed

lemma strtok_r_token:
  assumes "cstr m p xs" "cstr m d ds" "d \<noteq> NULL" "p \<noteq> NULL" "(if s = NULL then save else s) = p"
    and xs: "xs = pre @ t @ rest" "set pre \<subseteq> set ds" "t \<noteq> []" "set t \<inter> set ds = {}"
      "rest = [] \<or> hd rest \<in> set ds"
  shows "\<exists>m' sv. strtok_r m s d save = Some (m', p + length pre, sv) \<and> cstr m' (p + length pre) t \<and>
    cstr m' sv (tl rest) \<and> sv = p + length pre + length t + (if rest = [] then 0 else 1) \<and>
    (\<forall>a. a \<noteq> p + length pre + length t \<or> rest = [] \<longrightarrow> m' a = m a)"
proof -
  let ?e = "p + length pre + length t"
  have tw: "takeWhile (\<lambda>x. x \<in> set ds) xs = pre"
    using xs by (cases t) (auto simp: takeWhile_append)
  have sub: "\<not> set xs \<subseteq> set ds" using xs by (cases t) auto
  have sd: "skip_delims m p d = Some (p + length pre, False)"
    using skip_delims_cstr [OF assms(1,2,3)] sub by (simp add: tw)
  have c2: "cstr m (p + length pre) (t @ rest)" using assms(1) xs(1) by (simp add: cstr_append)
  have tt: "takeWhile (\<lambda>x. x \<notin> set ds) (t @ rest) = t"
    using xs(4,5) by (cases rest) (auto simp: takeWhile_append disjoint_iff)
  have sk: "skip_token m (p + length pre) d = Some ?e"
    using skip_token_cstr [OF c2 assms(2,3)] by (simp add: tt)
  have b: "buf m (p + length pre) t" "0 \<notin> set t" "cstr m ?e rest"
    using c2 by (simp_all add: cstr_append)
  show ?thesis
  proof (cases rest)
    case Nil
    with b assms(3-5) sd sk show ?thesis
      by (simp add: strtok_r_def assms(5) cstr_buf)
  next
    case (Cons x r)
    let ?m = "m(?e \<mapsto> 0)"
    have "strtok_r m s d save = Some (?m, p + length pre, Suc ?e)"
      using b(3) Cons assms(3,4) by (simp add: strtok_r_def assms(5) sd sk st_Some)
    moreover have "buf ?m (p + length pre) t = buf m (p + length pre) t" by (rule buf_cong) simp
    moreover have "cstr ?m (Suc ?e) r = cstr m (Suc ?e) r" by (rule cstr_cong) simp
    ultimately show ?thesis using b Cons
      by (intro exI [of _ ?m] exI [of _ "Suc ?e"]) (simp add: cstr_buf [of _ _ t])
  qed
qed

lemma tokens_decomp:
  obtains (none) "set xs \<subseteq> D" "tokens D xs = []"
  | (some) pre t rest where "xs = pre @ t @ rest" "set pre \<subseteq> D" "t \<noteq> []" "set t \<inter> D = {}"
      "rest = [] \<or> hd rest \<in> D" "tokens D xs = t # tokens D (tl rest)"
proof (cases "dropWhile (\<lambda>x. x \<in> D) xs")
  case Nil
  then show thesis by (intro none) (auto simp: tokens.simps [of D xs] dropWhile_eq_Nil_conv)
next
  case (Cons y ys)
  let ?ys = "dropWhile (\<lambda>x. x \<in> D) xs"
  let ?t = "takeWhile (\<lambda>x. x \<notin> D) ?ys"
  have y: "y \<notin> D" using hd_dropWhile [of "\<lambda>x. x \<in> D" xs] Cons by simp
  show thesis
  proof (rule some)
    show "xs = takeWhile (\<lambda>x. x \<in> D) xs @ ?t @ dropWhile (\<lambda>x. x \<notin> D) ?ys" by simp
    show "set (takeWhile (\<lambda>x. x \<in> D) xs) \<subseteq> D" by (auto dest: set_takeWhileD)
    show "?t \<noteq> []" using Cons y by simp
    show "set ?t \<inter> D = {}" by (auto dest: set_takeWhileD)
    show "dropWhile (\<lambda>x. x \<notin> D) ?ys = [] \<or> hd (dropWhile (\<lambda>x. x \<notin> D) ?ys) \<in> D"
      using hd_dropWhile [of "\<lambda>x. x \<notin> D" ?ys] by blast
    have "drop (Suc (length ?t)) ?ys = tl (dropWhile (\<lambda>x. x \<notin> D) ?ys)"
      by (simp add: drop_Suc dropWhile_eq_drop drop_tl)
    then show "tokens D xs = ?t # tokens D (tl (dropWhile (\<lambda>x. x \<notin> D) ?ys))"
      using Cons by (subst tokens.simps) (simp add: Let_def)
  qed
qed

text \<open>
  One turn of the loop that callers write around \<open>strtok_r\<close>: the string is passed at the first
  call only.
\<close>

definition next_token :: "addr \<Rightarrow> mem \<times> addr \<times> addr \<Rightarrow> (addr \<times> mem \<times> addr \<times> addr) option" where
  "next_token d = (\<lambda>(m, s, save). do {
     (m, t, save) \<leftarrow> strtok_r m s d save;
     Some (t, m, NULL, save) })"

lemma strtok_r_all:
  assumes "cstr m p xs" "cstr m d ds" "d \<noteq> NULL" "p \<noteq> NULL" "(if s = NULL then save else s) = p"
    and "d + length ds < p \<or> p + length xs \<le> d"
  shows "\<exists>ts m' sv. pop_many (next_token d) (Suc (length (tokens (set ds) xs))) (m, s, save) =
      Some (ts @ [NULL], m', NULL, sv) \<and> list_all2 (cstr m') ts (tokens (set ds) xs) \<and>
      NULL \<notin> set ts \<and> (\<forall>a. a < p \<or> p + length xs \<le> a \<longrightarrow> m' a = m a)"
  using assms
proof (induction xs arbitrary: m p s save rule: length_induct)
  case (1 xs)
  show ?case
  proof (cases rule: tokens_decomp [of xs "set ds"])
    case none
    then show ?thesis using strtok_r_none [OF 1(2-6) none(1)] by (simp add: next_token_def)
  next
    case (some pre t rest)
    let ?b = "p + length pre"
    let ?sv = "?b + length t + (if rest = [] then 0 else 1)"
    obtain m1 where m1: "strtok_r m s d save = Some (m1, ?b, ?sv)" "cstr m1 ?b t" "cstr m1 ?sv (tl rest)"
      and fr: "\<And>a. a \<noteq> ?b + length t \<or> rest = [] \<Longrightarrow> m1 a = m a"
      using strtok_r_token [OF 1(2-6) some(1-5)] by blast
    have len: "length (tl rest) < length xs" using some(1,3) by (cases rest) auto
    have "cstr m1 d ds = cstr m d ds"
      by (rule cstr_cong) (rule fr, use 1(7) some(1) in \<open>cases rest; auto\<close>)
    then have "cstr m1 d ds" using 1(3) by simp
    moreover have "d + length ds < ?sv \<or> ?sv + length (tl rest) \<le> d"
      using 1(7) some(1) by (cases rest) auto
    ultimately have "\<exists>ts m' sv. pop_many (next_token d) (Suc (length (tokens (set ds) (tl rest)))) (m1, NULL, ?sv) =
      Some (ts @ [NULL], m', NULL, sv) \<and> list_all2 (cstr m') ts (tokens (set ds) (tl rest)) \<and>
      NULL \<notin> set ts \<and> (\<forall>a. a < ?sv \<or> ?sv + length (tl rest) \<le> a \<longrightarrow> m' a = m1 a)"
      using 1(1) [rule_format, OF len m1(3), of NULL ?sv] 1(4,5) by simp
    then obtain ts m2 sv where ts: "pop_many (next_token d) (Suc (length (tokens (set ds) (tl rest)))) (m1, NULL, ?sv) =
        Some (ts @ [NULL], m2, NULL, sv)" "list_all2 (cstr m2) ts (tokens (set ds) (tl rest))" "NULL \<notin> set ts"
      and fr2: "\<And>a. a < ?sv \<or> ?sv + length (tl rest) \<le> a \<Longrightarrow> m2 a = m1 a" by blast
    have "cstr m2 ?b t = cstr m1 ?b t"
      by (rule cstr_cong) (rule fr2, use some(1) in \<open>cases rest; auto\<close>)
    then have c: "cstr m2 ?b t" using m1(2) by simp
    have "m2 a = m a" if "a < p \<or> p + length xs \<le> a" for a
    proof -
      have "m2 a = m1 a" by (rule fr2) (use that some(1) in \<open>cases rest; auto\<close>)
      also have "\<dots> = m a" by (rule fr) (use that some(1) in \<open>cases rest; auto\<close>)
      finally show ?thesis .
    qed
    moreover have nt: "next_token d (m, s, save) = Some (?b, m1, NULL, ?sv)"
      by (simp add: next_token_def m1(1))
    have "pop_many (next_token d) (Suc (length (tokens (set ds) xs))) (m, s, save) =
        Some ((?b # ts) @ [NULL], m2, NULL, sv)"
      unfolding some(6) list.size add_0_right add_Suc_right
      by (subst pop_many.simps) (simp only: nt ts(1) bind.bind_lunit prod.case append_Cons)
    ultimately show ?thesis using c ts(2,3) some(6) 1(5)
      by (intro exI [of _ "?b # ts"] exI [of _ m2] exI [of _ sv]) (simp del: pop_many.simps)
  qed
qed

text \<open>
  C31: Calling \<open>strtok_r\<close> once with the string and then with the null pointer delivers exactly the
  tokens of the string in order, followed by the null pointer: in the final memory the returned
  pointers are the terminated tokens, and no byte outside the string was changed.
\<close>

theorem strtok_r_tokens:
  assumes "cstr m s xs" "cstr m d ds" "d \<noteq> NULL" "s \<noteq> NULL"
    and "d + length ds < s \<or> s + length xs \<le> d"
  shows "\<exists>ts m' sv. pop_many (next_token d) (Suc (length (tokens (set ds) xs))) (m, s, save) =
      Some (ts @ [NULL], m', NULL, sv) \<and> list_all2 (cstr m') ts (tokens (set ds) xs) \<and>
      NULL \<notin> set ts \<and> (\<forall>a. a < s \<or> s + length xs \<le> a \<longrightarrow> m' a = m a)"
  using assms by (intro strtok_r_all) simp_all

theorem strtok_r_tokens_witness:
  "\<exists>t1 t2 m' sv. pop_many (next_token 1) 3 (demo_mem 1 [32, 0, 32, 97, 32, 32, 98, 0], 3, NULL) =
      Some ([t1, t2, NULL], m', NULL, sv) \<and> cstr m' t1 [97] \<and> cstr m' t2 [98]"
proof -
  let ?m = "demo_mem 1 [32, 0, 32, 97, 32, 32, 98, 0]"
  have tk: "tokens {32} [32, 97, 32, 32, 98] = [[97], [98]]"
    by (simp add: tokens.simps)
  have "\<exists>ts m' sv. pop_many (next_token 1) (Suc (length (tokens (set [32]) [32, 97, 32, 32, 98]))) (?m, 3, NULL) =
      Some (ts @ [NULL], m', NULL, sv) \<and> list_all2 (cstr m') ts (tokens (set [32]) [32, 97, 32, 32, 98]) \<and>
      NULL \<notin> set ts \<and> (\<forall>a. a < 3 \<or> 3 + length [32 :: byte, 97, 32, 32, 98] \<le> a \<longrightarrow> m' a = ?m a)"
    by (rule strtok_r_tokens) (simp_all add: demo_mem_def put_def)
  then show ?thesis
    by (auto simp: tk list_all2_Cons2 numeral_3_eq_3 simp del: pop_many.simps)
qed

end
