(* ===== verification/Hash.thy ===== *)
theory Hash
  imports Encoding Cstring
begin

text \<open>
  The chained hash table of \<open>lib/kernel/hash.c\<close>.

  A bucket is the sequence of the elements linked into its list (\<open>Kernel_List\<close> shows that
  \<open>list_push_front\<close>, \<open>list_remove\<close> and a traversal are \<open>Cons\<close>, the removal of one element and
  the walk over that sequence). Elements are addresses; the \<open>hash\<close> and \<open>less\<close> functions with
  their auxiliary data are functions on them, and what the table requires of the two is the
  locale \<open>hash_contract\<close>. Whether \<open>malloc\<close> succeeds is an argument.
\<close>

section \<open>The table\<close>

record hash =
  elem_cnt_of :: nat
  bucket_cnt :: nat
  buckets :: "addr list list"
  hhash :: "addr \<Rightarrow> u32"
  hless :: "addr \<Rightarrow> addr \<Rightarrow> bool"

type_synonym 's hash_action_func = "addr \<Rightarrow> 's \<Rightarrow> 's"

fun clear_bucket :: "'s hash_action_func option \<Rightarrow> addr list \<Rightarrow> 's \<Rightarrow> 's" where
  "clear_bucket None bucket s = s"
| "clear_bucket (Some destructor) [] s = s"
| "clear_bucket (Some destructor) (e # bucket) s = clear_bucket (Some destructor) bucket (destructor e s)"

definition hash_clear :: "hash \<Rightarrow> 's hash_action_func option \<Rightarrow> 's \<Rightarrow> hash \<times> 's" where
  "hash_clear h destructor s =
     (h\<lparr>buckets := map (\<lambda>bucket. []) (buckets h), elem_cnt_of := 0\<rparr>,
      fold (clear_bucket destructor) (buckets h) s)"

text \<open>
  The block that \<open>malloc\<close> returns has indeterminate contents; \<open>hash_clear\<close> initialises every
  list in it before use, so the model starts from any \<open>bucket_cnt\<close> buckets.
\<close>

definition hash_init :: "bool \<Rightarrow> (addr \<Rightarrow> u32) \<Rightarrow> (addr \<Rightarrow> addr \<Rightarrow> bool) \<Rightarrow> hash \<times> bool" where
  "hash_init malloc_ok hf ls =
     (let h = \<lparr>elem_cnt_of = 0, bucket_cnt = 4, buckets = (if malloc_ok then replicate 4 [] else []),
               hhash = hf, hless = ls\<rparr>
      in if malloc_ok then (fst (hash_clear h None ()), True) else (h, False))"

definition hash_destroy :: "hash \<Rightarrow> 's hash_action_func option \<Rightarrow> 's \<Rightarrow> hash \<times> 's" where
  "hash_destroy h destructor s =
     (let (h, s) = (if destructor \<noteq> None then hash_clear h destructor s else (h, s))
      in (h\<lparr>buckets := []\<rparr>, s))"

section \<open>Internals\<close>

definition find_bucket :: "hash \<Rightarrow> addr \<Rightarrow> nat" where
  "find_bucket h e = unat (hhash h e) AND (bucket_cnt h - 1)"

fun find_elem :: "hash \<Rightarrow> addr list \<Rightarrow> addr \<Rightarrow> addr" where
  "find_elem h [] e = NULL"
| "find_elem h (hi # is) e = (if \<not> hless h hi e \<and> \<not> hless h e hi then hi else find_elem h is e)"

definition turn_off_least_1bit :: "nat \<Rightarrow> nat" where
  "turn_off_least_1bit x = x AND (x - 1)"

definition is_power_of_2 :: "nat \<Rightarrow> bool" where
  "is_power_of_2 x = (x \<noteq> 0 \<and> turn_off_least_1bit x = 0)"

definition BEST_ELEMS_PER_BUCKET :: nat where
  "BEST_ELEMS_PER_BUCKET = 2"

lemma and_nat_le: "a AND b \<le> (b :: nat)"
proof (induction b arbitrary: a rule: less_induct)
  case (less b)
  show ?case
  proof (cases "b = 0")
    case False
    then have "(a div 2) AND (b div 2) \<le> b div 2" by (intro less) simp
    moreover have "of_bool (odd a \<and> odd b) \<le> b mod 2" by (auto simp: odd_iff_mod_2_eq_one)
    ultimately have "a AND b \<le> b mod 2 + 2 * (b div 2)"
      unfolding and_rec [of a b] by (intro add_mono mult_le_mono) auto
    then show ?thesis by (simp add: mult.commute)
  qed simp
qed

lemma turn_off_less: "x \<noteq> 0 \<Longrightarrow> turn_off_least_1bit x < x"
  unfolding turn_off_least_1bit_def by (rule le_less_trans [OF and_nat_le]) simp

text \<open>The loop never sees 0: it starts at 4 or more and stops at a power of two.\<close>

function round_to_power :: "nat \<Rightarrow> nat" where
  "round_to_power n =
     (if n = 0 \<or> is_power_of_2 n then n else round_to_power (turn_off_least_1bit n))"
  by pat_completeness auto
termination by (relation "measure id") (auto simp: turn_off_less)

declare round_to_power.simps [simp del]

definition new_bucket_cnt :: "nat \<Rightarrow> nat" where
  "new_bucket_cnt elem_cnt =
     (let n = elem_cnt div BEST_ELEMS_PER_BUCKET in round_to_power (if n < 4 then 4 else n))"

text \<open>Moving the elements of the old buckets, first to last, to the front of their new bucket.\<close>

definition move_elem :: "hash \<Rightarrow> addr \<Rightarrow> addr list list \<Rightarrow> addr list list" where
  "move_elem h e bs = (let i = find_bucket h e in bs[i := e # bs ! i])"

definition rehash :: "bool \<Rightarrow> hash \<Rightarrow> hash" where
  "rehash malloc_ok h =
     (let old_buckets = buckets h; n = new_bucket_cnt (elem_cnt_of h) in
      if n = bucket_cnt h then h
      else if \<not> malloc_ok then h
      else let h = h\<lparr>buckets := replicate n [], bucket_cnt := n\<rparr>
           in h\<lparr>buckets := fold (fold (move_elem h)) old_buckets (replicate n [])\<rparr>)"

definition insert_elem :: "hash \<Rightarrow> nat \<Rightarrow> addr \<Rightarrow> hash" where
  "insert_elem h bucket e =
     h\<lparr>elem_cnt_of := elem_cnt_of h + 1, buckets := (buckets h)[bucket := e # buckets h ! bucket]\<rparr>"

text \<open>\<open>list_remove\<close> unlinks the element from the list that holds it.\<close>

definition remove_elem :: "hash \<Rightarrow> addr \<Rightarrow> hash" where
  "remove_elem h e =
     h\<lparr>elem_cnt_of := elem_cnt_of h - 1, buckets := map (remove1 e) (buckets h)\<rparr>"

section \<open>Searching and changing the table\<close>

definition hash_insert :: "bool \<Rightarrow> hash \<Rightarrow> addr \<Rightarrow> hash \<times> addr" where
  "hash_insert malloc_ok h new =
     (let bucket = find_bucket h new;
          old = find_elem h (buckets h ! bucket) new;
          h = (if old = NULL then insert_elem h bucket new else h)
      in (rehash malloc_ok h, old))"

definition hash_replace :: "bool \<Rightarrow> hash \<Rightarrow> addr \<Rightarrow> hash \<times> addr" where
  "hash_replace malloc_ok h new =
     (let bucket = find_bucket h new;
          old = find_elem h (buckets h ! bucket) new;
          h = (if old \<noteq> NULL then remove_elem h old else h);
          h = insert_elem h bucket new
      in (rehash malloc_ok h, old))"

definition hash_find :: "hash \<Rightarrow> addr \<Rightarrow> addr" where
  "hash_find h e = find_elem h (buckets h ! find_bucket h e) e"

definition hash_delete :: "bool \<Rightarrow> hash \<Rightarrow> addr \<Rightarrow> hash \<times> addr" where
  "hash_delete malloc_ok h e =
     (let found = find_elem h (buckets h ! find_bucket h e) e in
      if found \<noteq> NULL then (rehash malloc_ok (remove_elem h found), found) else (h, found))"

definition hash_apply :: "hash \<Rightarrow> 's hash_action_func \<Rightarrow> 's \<Rightarrow> 's" where
  "hash_apply h action s = fold (fold action) (buckets h) s"

definition hash_size :: "hash \<Rightarrow> nat" where
  "hash_size h = elem_cnt_of h"

definition hash_empty :: "hash \<Rightarrow> bool" where
  "hash_empty h = (elem_cnt_of h = 0)"

section \<open>Iteration\<close>

text \<open>
  The position in a bucket: the list head (before the first element), an element, or the list
  tail; \<open>iNull\<close> is the null pointer stored at the end of the table.
\<close>

datatype ipos = iHead | iElem addr | iTail | iNull

record hash_iterator =
  ibucket :: nat
  ielem :: ipos

definition hash_first :: "hash \<Rightarrow> hash_iterator" where
  "hash_first h = \<lparr>ibucket = 0, ielem = iHead\<rparr>"

definition bucket_begin :: "addr list \<Rightarrow> ipos" where
  "bucket_begin b = (case b of [] \<Rightarrow> iTail | e # _ \<Rightarrow> iElem e)"

fun bucket_next :: "addr list \<Rightarrow> ipos \<Rightarrow> ipos option" where
  "bucket_next b iHead = Some (bucket_begin b)"
| "bucket_next [] (iElem e) = None"
| "bucket_next (x # b) (iElem e) = (if x = e then Some (bucket_begin b) else bucket_next b (iElem e))"
| "bucket_next b _ = None"

function skip_buckets :: "hash \<Rightarrow> nat \<Rightarrow> ipos \<Rightarrow> hash_iterator" where
  "skip_buckets h b pos =
     (if pos = iTail then
        (if b + 1 \<ge> bucket_cnt h then \<lparr>ibucket = b + 1, ielem = iNull\<rparr>
         else skip_buckets h (b + 1) (bucket_begin (buckets h ! (b + 1))))
      else \<lparr>ibucket = b, ielem = pos\<rparr>)"
  by pat_completeness auto
termination by (relation "measure (\<lambda>(h, b, pos). bucket_cnt h - b)") auto

declare skip_buckets.simps [simp del]

definition hash_next :: "hash \<Rightarrow> hash_iterator \<Rightarrow> (ipos \<times> hash_iterator) option" where
  "hash_next h i = do {
     pos \<leftarrow> bucket_next (buckets h ! ibucket i) (ielem i);
     let i = skip_buckets h (ibucket i) pos;
     Some (ielem i, i) }"

definition hash_cur :: "hash_iterator \<Rightarrow> ipos" where
  "hash_cur i = ielem i"

section \<open>Hash functions\<close>

definition FNV_32_PRIME :: u32 where "FNV_32_PRIME = 16777619"
definition FNV_32_BASIS :: u32 where "FNV_32_BASIS = 2166136261"

fun hash_bytes_loop :: "mem \<Rightarrow> addr \<Rightarrow> nat \<Rightarrow> u32 \<Rightarrow> u32 option" where
  "hash_bytes_loop m p 0 v = Some v"
| "hash_bytes_loop m p (Suc n) v = do {
     x \<leftarrow> m p;
     hash_bytes_loop m (p + 1) n ((v * FNV_32_PRIME) XOR ucast x) }"

definition hash_bytes :: "mem \<Rightarrow> addr \<Rightarrow> nat \<Rightarrow> u32 option" where
  "hash_bytes m p n = do { assert_c (p \<noteq> NULL); hash_bytes_loop m p n FNV_32_BASIS }"

partial_function (option) hash_string_loop :: "mem \<Rightarrow> addr \<Rightarrow> u32 \<Rightarrow> u32 option" where
  [code]: "hash_string_loop m p v = do {
     x \<leftarrow> m p;
     if x \<noteq> 0 then hash_string_loop m (p + 1) ((v * FNV_32_PRIME) XOR ucast x) else Some v }"

definition hash_string :: "mem \<Rightarrow> addr \<Rightarrow> u32 option" where
  "hash_string m p = do { assert_c (p \<noteq> NULL); hash_string_loop m p FNV_32_BASIS }"

text \<open>\<open>hash_int\<close> hashes the four bytes of the local variable that holds its argument.\<close>

definition hash_int :: "u32 \<Rightarrow> u32" where
  "hash_int i = the (hash_bytes (put Map.empty 1 (word_bytes i)) 1 4)"

section \<open>Powers of two\<close>

lemma power_of_2_exp: "is_power_of_2 x \<Longrightarrow> \<exists>k. x = 2 ^ k"
proof (induction x rule: less_induct)
  case (less x)
  then have x: "x \<noteq> 0" "x AND (x - 1) = 0" by (auto simp: is_power_of_2_def turn_off_least_1bit_def)
  show ?case
  proof (cases "odd x")
    case True
    then have "(x - 1) div 2 = x div 2" by (auto elim: oddE)
    with x(2) True have "x div 2 = 0" by (subst (asm) and_rec) (simp del: div_eq_0_iff)
    with True show ?thesis by (intro exI [of _ 0]) (auto elim!: oddE)
  next
    case False
    then obtain y where y: "x = 2 * y" by (auto elim: evenE)
    with x have "y \<noteq> 0" by simp
    then have "(x - 1) div 2 = y - 1" using y by simp
    then have "y AND (y - 1) = 0" using x(2) y by (subst (asm) and_rec) simp
    then have "is_power_of_2 y" using \<open>y \<noteq> 0\<close> by (simp add: is_power_of_2_def turn_off_least_1bit_def)
    with less(1) [of y] y \<open>y \<noteq> 0\<close> obtain k where "y = 2 ^ k" by auto
    with y show ?thesis by (intro exI [of _ "Suc k"]) simp
  qed
qed

lemma round_to_power_ok: "n \<noteq> 0 \<Longrightarrow> is_power_of_2 (round_to_power n)"
proof (induction n rule: round_to_power.induct)
  case (1 n)
  show ?case
  proof (cases "is_power_of_2 n")
    case True
    then show ?thesis by (subst round_to_power.simps) simp
  next
    case False
    then have "turn_off_least_1bit n \<noteq> 0" using 1(2) by (simp add: is_power_of_2_def)
    with 1 False show ?thesis by (subst round_to_power.simps) simp
  qed
qed

lemma new_bucket_cnt_power: "is_power_of_2 (new_bucket_cnt n)"
  unfolding new_bucket_cnt_def Let_def by (rule round_to_power_ok) simp

section \<open>The invariant and what the table holds\<close>

definition eqv :: "hash \<Rightarrow> addr \<Rightarrow> addr \<Rightarrow> bool" where
  "eqv h a b \<longleftrightarrow> \<not> hless h a b \<and> \<not> hless h b a"

definition helems :: "hash \<Rightarrow> addr set" where
  "helems h = (\<Union>b \<in> set (buckets h). set b)"

definition hinv :: "hash \<Rightarrow> bool" where
  "hinv h \<longleftrightarrow> length (buckets h) = bucket_cnt h \<and> is_power_of_2 (bucket_cnt h) \<and>
     (\<forall>i < bucket_cnt h. distinct (buckets h ! i) \<and> (\<forall>e \<in> set (buckets h ! i). find_bucket h e = i)) \<and>
     elem_cnt_of h = card (helems h) \<and> NULL \<notin> helems h \<and>
     (\<forall>a \<in> helems h. \<forall>b \<in> helems h. eqv h a b \<longrightarrow> a = b)"

text \<open>
  What \<open>hash\<close> and \<open>less\<close> must satisfy: being neither less nor greater is an equivalence, and
  equivalent elements have the same hash value.
\<close>

locale hash_contract =
  fixes hf :: "addr \<Rightarrow> u32" and ls :: "addr \<Rightarrow> addr \<Rightarrow> bool"
  assumes irrefl: "\<not> ls a a"
    and eq_trans: "\<not> ls a b \<Longrightarrow> \<not> ls b a \<Longrightarrow> \<not> ls b c \<Longrightarrow> \<not> ls c b \<Longrightarrow> \<not> ls a c \<and> \<not> ls c a"
    and hash_eq: "\<not> ls a b \<Longrightarrow> \<not> ls b a \<Longrightarrow> hf a = hf b"

lemma find_bucket_less: "is_power_of_2 (bucket_cnt h) \<Longrightarrow> find_bucket h e < bucket_cnt h"
  unfolding find_bucket_def by (rule le_less_trans [OF and_nat_le]) (simp add: is_power_of_2_def)

lemma find_elem_NULL: "NULL \<notin> set b \<Longrightarrow> find_elem h b e = NULL \<longleftrightarrow> (\<forall>x \<in> set b. \<not> eqv h x e)"
  by (induction b) (auto simp: eqv_def)

lemma find_elem_found: "find_elem h b e \<noteq> NULL \<Longrightarrow> find_elem h b e \<in> set b \<and> eqv h (find_elem h b e) e"
  by (induction b) (auto simp: eqv_def split: if_splits)

lemma find_bucket_cong: "bucket_cnt h' = bucket_cnt h \<Longrightarrow> hhash h' = hhash h \<Longrightarrow> find_bucket h' e = find_bucket h e"
  by (simp add: find_bucket_def)

lemma helems_iff: "e \<in> helems h \<longleftrightarrow> (\<exists>i < length (buckets h). e \<in> set (buckets h ! i))"
  by (auto simp: helems_def set_conv_nth [of "buckets h"])

lemma finite_helems [simp]: "finite (helems h)"
  by (simp add: helems_def)

lemma hinvD:
  assumes "hinv h"
  shows "length (buckets h) = bucket_cnt h" "is_power_of_2 (bucket_cnt h)"
    "\<And>i. i < bucket_cnt h \<Longrightarrow> distinct (buckets h ! i)"
    "\<And>i e. i < bucket_cnt h \<Longrightarrow> e \<in> set (buckets h ! i) \<Longrightarrow> find_bucket h e = i"
    "elem_cnt_of h = card (helems h)" "NULL \<notin> helems h"
    "\<And>a b. a \<in> helems h \<Longrightarrow> b \<in> helems h \<Longrightarrow> eqv h a b \<Longrightarrow> a = b"
  using assms by (auto simp: hinv_def)

lemma helems_nth:
  assumes "hinv h"
  shows "e \<in> helems h \<longleftrightarrow> e \<in> set (buckets h ! find_bucket h e)"
  using hinvD [OF assms] find_bucket_less [of h e] by (auto simp: helems_iff)

text \<open>What a search finds.\<close>

definition found :: "hash \<Rightarrow> addr \<Rightarrow> addr \<Rightarrow> bool" where
  "found h e r \<longleftrightarrow> (if r = NULL then \<forall>x \<in> helems h. \<not> eqv h x e else r \<in> helems h \<and> eqv h r e)"

definition hash_ok :: "hash \<Rightarrow> bool" where
  "hash_ok h \<longleftrightarrow> hinv h \<and> hash_contract (hhash h) (hless h)"

lemma eqv_bucket:
  assumes "hash_ok h" "eqv h x e"
  shows "find_bucket h x = find_bucket h e"
proof -
  have "hhash h x = hhash h e"
    using assms hash_contract.hash_eq [of "hhash h" "hless h" x e] by (auto simp: hash_ok_def eqv_def)
  then show ?thesis by (simp add: find_bucket_def)
qed

lemma eqv_trans: "hash_ok h \<Longrightarrow> eqv h a b \<Longrightarrow> eqv h b c \<Longrightarrow> eqv h a c"
  using hash_contract.eq_trans [of "hhash h" "hless h" a b c] by (auto simp: hash_ok_def eqv_def)

lemma eqv_sym: "eqv h a b \<longleftrightarrow> eqv h b a"
  by (auto simp: eqv_def)

lemma eqv_refl [simp]: "hash_ok h \<Longrightarrow> eqv h a a"
  using hash_contract.irrefl [of "hhash h" "hless h" a] by (auto simp: hash_ok_def eqv_def)

lemma search_found:
  assumes "hash_ok h"
  shows "found h e (find_elem h (buckets h ! find_bucket h e) e)"
proof -
  let ?b = "buckets h ! find_bucket h e"
  have inv: "hinv h" using assms by (simp add: hash_ok_def)
  have sub: "set ?b \<subseteq> helems h"
    using hinvD [OF inv] find_bucket_less [of h e] by (auto simp: helems_iff)
  then have nn: "NULL \<notin> set ?b" using hinvD(6) [OF inv] by auto
  show ?thesis
  proof (cases "find_elem h ?b e = NULL")
    case True
    then have "\<not> eqv h x e" if "x \<in> helems h" for x
      using that helems_nth [OF inv, of x] eqv_bucket [OF assms, of x e] find_elem_NULL [OF nn] by auto
    with True show ?thesis by (simp add: found_def)
  next
    case False
    with find_elem_found [OF False] sub show ?thesis by (auto simp: found_def)
  qed
qed

lemma insert_elem_ok:
  assumes "hash_ok h" "e \<noteq> NULL" "\<forall>x \<in> helems h. \<not> eqv h x e"
  shows "hash_ok (insert_elem h (find_bucket h e) e)"
    and "helems (insert_elem h (find_bucket h e) e) = insert e (helems h)"
proof -
  let ?i = "find_bucket h e"
  let ?h = "insert_elem h ?i e"
  have inv: "hinv h" using assms(1) by (simp add: hash_ok_def)
  note H = hinvD [OF inv]
  have i: "?i < bucket_cnt h" by (rule find_bucket_less [OF H(2)])
  have e: "e \<notin> helems h" using assms by auto
  have f: "bucket_cnt ?h = bucket_cnt h" "find_bucket ?h x = find_bucket h x" "eqv ?h = eqv h"
    "hhash ?h = hhash h" "hless ?h = hless h" for x
    by (auto simp: insert_elem_def find_bucket_def eqv_def fun_eq_iff)
  have nth: "buckets ?h ! j = (if j = ?i then e # buckets h ! j else buckets h ! j)" if "j < bucket_cnt h" for j
    using that H(1) by (simp add: insert_elem_def)
  have len: "length (buckets ?h) = bucket_cnt h" using H(1) by (simp add: insert_elem_def)
  show he: "helems ?h = insert e (helems h)"
  proof (rule set_eqI)
    fix x
    have "x \<in> helems ?h \<longleftrightarrow> (\<exists>j < bucket_cnt h. x \<in> set (buckets ?h ! j))" by (simp add: helems_iff len)
    also have "\<dots> \<longleftrightarrow> (\<exists>j < bucket_cnt h. j = ?i \<and> x = e \<or> x \<in> set (buckets h ! j))"
      by (rule ex_cong1) (auto simp: nth split: if_splits)
    also have "\<dots> \<longleftrightarrow> x \<in> insert e (helems h)" using i H(1) by (auto simp: helems_iff)
    finally show "x \<in> helems ?h \<longleftrightarrow> x \<in> insert e (helems h)" .
  qed
  have "e \<notin> set (buckets h ! ?i)" using e i H(1) by (auto simp: helems_iff)
  then have "distinct (buckets ?h ! j) \<and> (\<forall>x \<in> set (buckets ?h ! j). find_bucket h x = j)"
    if "j < bucket_cnt h" for j
    using that H(3) [OF that] H(4) [OF that] by (auto simp: nth)
  moreover have "elem_cnt_of ?h = card (insert e (helems h))"
    using H(5) e by (simp add: insert_elem_def)
  moreover have "\<forall>a \<in> insert e (helems h). \<forall>b \<in> insert e (helems h). eqv h a b \<longrightarrow> a = b"
    using H(7) assms(3) eqv_sym by blast
  ultimately show "hash_ok ?h"
    using assms(1,2) H(2,6) len unfolding hash_ok_def hinv_def f he by (auto simp: f)
qed

lemma remove_elem_ok:
  assumes "hash_ok h" "e \<in> helems h"
  shows "hash_ok (remove_elem h e)" and "helems (remove_elem h e) = helems h - {e}"
proof -
  let ?h = "remove_elem h e"
  have inv: "hinv h" using assms(1) by (simp add: hash_ok_def)
  note H = hinvD [OF inv]
  have f: "bucket_cnt ?h = bucket_cnt h" "find_bucket ?h x = find_bucket h x" "eqv ?h = eqv h"
    "hhash ?h = hhash h" "hless ?h = hless h" for x
    by (auto simp: remove_elem_def find_bucket_def eqv_def fun_eq_iff)
  have nth: "set (buckets ?h ! j) = set (buckets h ! j) - {e}" "distinct (buckets ?h ! j)"
    if "j < bucket_cnt h" for j
    using that H(1) H(3) [OF that] by (simp_all add: remove_elem_def)
  have len: "length (buckets ?h) = bucket_cnt h" using H(1) by (simp add: remove_elem_def)
  show he: "helems ?h = helems h - {e}"
  proof (rule set_eqI)
    fix x
    have "x \<in> helems ?h \<longleftrightarrow> (\<exists>j < bucket_cnt h. x \<in> set (buckets ?h ! j))" by (simp add: helems_iff len)
    also have "\<dots> \<longleftrightarrow> (\<exists>j < bucket_cnt h. x \<in> set (buckets h ! j) - {e})"
      by (rule ex_cong1) (auto simp: nth)
    also have "\<dots> \<longleftrightarrow> x \<in> helems h - {e}" using H(1) by (auto simp: helems_iff)
    finally show "x \<in> helems ?h \<longleftrightarrow> x \<in> helems h - {e}" .
  qed
  have "elem_cnt_of ?h = card (helems h - {e})"
    using H(5) assms(2) by (simp add: remove_elem_def)
  then show "hash_ok ?h"
    using assms(1) H(2,4,6,7) len nth unfolding hash_ok_def hinv_def f he by (auto simp: f)
qed

lemma fold_fold_concat: "fold (fold f) xss s = fold f (concat xss) s"
  by (induction xss arbitrary: s) simp_all

lemma fold_move_nth:
  "(\<And>e. find_bucket h e < length bs) \<Longrightarrow> length (fold (move_elem h) es bs) = length bs \<and>
     (\<forall>i < length bs. fold (move_elem h) es bs ! i = rev (filter (\<lambda>e. find_bucket h e = i) es) @ bs ! i)"
proof (induction es arbitrary: bs)
  case (Cons e es)
  have "length (move_elem h e bs) = length bs" by (simp add: move_elem_def Let_def)
  with Cons.IH [of "move_elem h e bs"] Cons.prems show ?case
    by (auto simp: move_elem_def Let_def nth_list_update)
qed simp

lemma distinct_concat_nth:
  assumes "\<And>i. i < length xss \<Longrightarrow> distinct (xss ! i)"
    and "\<And>i j. i < length xss \<Longrightarrow> j < length xss \<Longrightarrow> i \<noteq> j \<Longrightarrow> set (xss ! i) \<inter> set (xss ! j) = {}"
  shows "distinct (concat xss)"
  using assms
proof (induction xss)
  case (Cons xs xss)
  have "distinct (concat xss)"
    by (rule Cons.IH) (use Cons.prems(1) [of "Suc _"] Cons.prems(2) [of "Suc _" "Suc _"] in auto)
  moreover have "set xs \<inter> set ys = {}" if "ys \<in> set xss" for ys
  proof -
    obtain j where "j < length xss" "ys = xss ! j" using \<open>ys \<in> set xss\<close> by (auto simp: in_set_conv_nth)
    then show ?thesis using Cons.prems(2) [of 0 "Suc j"] by simp
  qed
  ultimately show ?case using Cons.prems(1) [of 0] by auto
qed simp

lemma rehash_ok:
  assumes "hash_ok h"
  shows "hash_ok (rehash ok h)" and "helems (rehash ok h) = helems h"
    and "hhash (rehash ok h) = hhash h" and "hless (rehash ok h) = hless h"
proof -
  define n where "n = new_bucket_cnt (elem_cnt_of h)"
  define h0 where "h0 = h\<lparr>buckets := replicate n [], bucket_cnt := n\<rparr>"
  define bs where "bs = fold (move_elem h0) (concat (buckets h)) (replicate n [])"
  define h' where "h' = h\<lparr>buckets := bs, bucket_cnt := n\<rparr>"
  have sel: "buckets h' = bs" "bucket_cnt h' = n" "elem_cnt_of h' = elem_cnt_of h" "hhash h' = hhash h"
    "hless h' = hless h" "eqv h' = eqv h" "is_power_of_2 n"
    by (simp_all add: h'_def eqv_def fun_eq_iff n_def new_bucket_cnt_power)
  have inv: "hinv h" using assms by (simp add: hash_ok_def)
  note H = hinvD [OF inv]
  have rh: "rehash ok h = (if n = bucket_cnt h \<or> \<not> ok then h else h')"
    by (simp add: rehash_def Let_def fold_fold_concat n_def h'_def bs_def h0_def)
  have fb: "find_bucket h0 = find_bucket h'" "find_bucket h' e < n" for e
    using find_bucket_less [of h' e] sel by (simp_all add: find_bucket_def h0_def h'_def fun_eq_iff)
  have bs: "length bs = n" "\<And>i. i < n \<Longrightarrow> bs ! i = rev (filter (\<lambda>e. find_bucket h' e = i) (concat (buckets h)))"
    using fold_move_nth [of h0 "replicate n []" "concat (buckets h)"] fb by (auto simp: bs_def)
  have he: "helems h' = helems h"
  proof (rule set_eqI)
    fix x
    have "x \<in> helems h' \<longleftrightarrow> (\<exists>j < n. x \<in> set (bs ! j))" by (simp add: helems_iff bs(1) sel)
    also have "\<dots> \<longleftrightarrow> (\<exists>j < n. find_bucket h' x = j \<and> x \<in> helems h)"
      by (rule ex_cong1) (auto simp: bs(2) helems_def)
    finally show "x \<in> helems h' \<longleftrightarrow> x \<in> helems h" using fb(2) by auto
  qed
  have "distinct (concat (buckets h))"
  proof (rule distinct_concat_nth)
    show "distinct (buckets h ! i)" if "i < length (buckets h)" for i using that H by simp
    show "set (buckets h ! i) \<inter> set (buckets h ! j) = {}"
      if "i < length (buckets h)" "j < length (buckets h)" "i \<noteq> j" for i j
      using that H(1,4) by (metis disjoint_iff)
  qed
  then have "distinct (bs ! i) \<and> (\<forall>e \<in> set (bs ! i). find_bucket h' e = i)" if "i < n" for i
    using that by (auto simp: bs(2))
  then have "hinv h'" using H(5,6,7) bs(1) unfolding hinv_def he by (simp add: sel)
  then have "hash_ok h'" using assms by (simp add: hash_ok_def sel)
  with assms he show "hash_ok (rehash ok h)" "helems (rehash ok h) = helems h"
    "hhash (rehash ok h) = hhash h" "hless (rehash ok h) = hless h" by (simp_all add: rh sel)
qed

lemmas hash_op_facts = hash_insert_def hash_replace_def hash_delete_def hash_find_def Let_def

definition htab :: "(addr \<Rightarrow> u32) \<Rightarrow> (addr \<Rightarrow> addr \<Rightarrow> bool) \<Rightarrow> hash \<Rightarrow> bool" where
  "htab hf ls h \<longleftrightarrow> hash_ok h \<and> hhash h = hf \<and> hless h = ls"

definition keq :: "(addr \<Rightarrow> addr \<Rightarrow> bool) \<Rightarrow> addr \<Rightarrow> addr \<Rightarrow> bool" where
  "keq ls a b \<longleftrightarrow> \<not> ls a b \<and> \<not> ls b a"

lemma htab_eqv: "htab hf ls h \<Longrightarrow> eqv h = keq ls"
  by (auto simp: htab_def eqv_def keq_def fun_eq_iff)

lemma found_NULL: "found h e NULL \<Longrightarrow> x \<in> helems h \<Longrightarrow> \<not> eqv h x e"
  by (simp add: found_def)

lemma foundD: "found h e r \<Longrightarrow> r \<noteq> NULL \<Longrightarrow> r \<in> helems h \<and> eqv h r e"
  by (simp add: found_def)

lemma elem_op_sel [simp]:
  "hhash (insert_elem h b e) = hhash h" "hless (insert_elem h b e) = hless h"
  "hhash (remove_elem h e) = hhash h" "hless (remove_elem h e) = hless h"
  by (simp_all add: insert_elem_def remove_elem_def)

lemma find_unique:
  assumes "hash_ok h" "x \<in> helems h" "eqv h x e"
  shows "find_elem h (buckets h ! find_bucket h e) e = x"
proof -
  let ?r = "find_elem h (buckets h ! find_bucket h e) e"
  have f: "found h e ?r" by (rule search_found [OF assms(1)])
  then have "?r \<noteq> NULL" using assms(2,3) found_NULL [of h e x] by metis
  with f have "?r \<in> helems h" "eqv h ?r e" using foundD by blast+
  moreover have "eqv h ?r x" using eqv_trans [OF assms(1)] \<open>eqv h ?r e\<close> assms(3) eqv_sym by blast
  ultimately show ?thesis using assms(1,2) hinvD(7) [of h ?r x] by (simp add: hash_ok_def)
qed

lemma find_none:
  assumes "hash_ok h" "\<forall>x \<in> helems h. \<not> eqv h x e"
  shows "find_elem h (buckets h ! find_bucket h e) e = NULL"
  using search_found [OF assms(1), of e] assms(2) by (auto simp: found_def split: if_splits)

lemma hash_ok_nonnull: "hash_ok h \<Longrightarrow> x \<in> helems h \<Longrightarrow> x \<noteq> NULL"
  using hinvD(6) [of h] unfolding hash_ok_def by metis

lemma htab_rehash: "htab hf ls h \<Longrightarrow> htab hf ls (rehash ok h) \<and> helems (rehash ok h) = helems h"
  by (simp add: htab_def rehash_ok)

lemma htab_insert_elem:
  "htab hf ls h \<Longrightarrow> e \<noteq> NULL \<Longrightarrow> \<forall>x \<in> helems h. \<not> keq ls x e \<Longrightarrow>
     htab hf ls (insert_elem h (find_bucket h e) e) \<and>
     helems (insert_elem h (find_bucket h e) e) = insert e (helems h)"
  using insert_elem_ok [of h e] htab_eqv [of hf ls h] by (simp add: htab_def)

lemma htab_remove_elem:
  "htab hf ls h \<Longrightarrow> e \<in> helems h \<Longrightarrow>
     htab hf ls (remove_elem h e) \<and> helems (remove_elem h e) = helems h - {e}"
  using remove_elem_ok [of h e] by (simp add: htab_def)

text \<open>
  The contract of a table of elements with keys: at most one element per key, found by its key.
  The first argument of the changing operations is the outcome of their memory allocation.
\<close>

locale keyed_table =
  fixes inv :: "'t \<Rightarrow> bool" and els :: "'t \<Rightarrow> addr set" and K :: "addr \<Rightarrow> addr \<Rightarrow> bool"
    and ins :: "bool \<Rightarrow> 't \<Rightarrow> addr \<Rightarrow> 't \<times> addr" and del :: "bool \<Rightarrow> 't \<Rightarrow> addr \<Rightarrow> 't \<times> addr"
    and look :: "'t \<Rightarrow> addr \<Rightarrow> addr"
  assumes ins_new: "inv t \<Longrightarrow> e \<noteq> NULL \<Longrightarrow> \<forall>x \<in> els t. \<not> K x e \<Longrightarrow>
      snd (ins ok t e) = NULL \<and> inv (fst (ins ok t e)) \<and> els (fst (ins ok t e)) = insert e (els t)"
    and ins_old: "inv t \<Longrightarrow> x \<in> els t \<Longrightarrow> K x e \<Longrightarrow>
      snd (ins ok t e) = x \<and> inv (fst (ins ok t e)) \<and> els (fst (ins ok t e)) = els t"
    and del_old: "inv t \<Longrightarrow> x \<in> els t \<Longrightarrow> K x e \<Longrightarrow>
      snd (del ok t e) = x \<and> inv (fst (del ok t e)) \<and> els (fst (del ok t e)) = els t - {x}"
    and del_none: "inv t \<Longrightarrow> \<forall>x \<in> els t. \<not> K x e \<Longrightarrow> del ok t e = (t, NULL)"
    and look_old: "inv t \<Longrightarrow> x \<in> els t \<Longrightarrow> K x e \<Longrightarrow> look t e = x"
    and look_none: "inv t \<Longrightarrow> \<forall>x \<in> els t. \<not> K x e \<Longrightarrow> look t e = NULL"
    and K_refl: "inv t \<Longrightarrow> K e e"
begin

lemma insert_all:
  assumes "inv t" "NULL \<notin> set (map snd es)" "\<forall>e \<in> set (map snd es). \<forall>x \<in> els t. \<not> K x e"
    and "sorted_wrt (\<lambda>a b. \<not> K a b) (map snd es)"
  shows "inv (fold (\<lambda>(ok, e) t. fst (ins ok t e)) es t) \<and>
    els (fold (\<lambda>(ok, e) t. fst (ins ok t e)) es t) = els t \<union> set (map snd es)"
  using assms
proof (induction es arbitrary: t)
  case (Cons p es)
  obtain ok e where p: "p = (ok, e)" by (cases p)
  have i: "inv (fst (ins ok t e))" "els (fst (ins ok t e)) = insert e (els t)"
    using ins_new [of t e ok] Cons.prems p by auto
  show ?case using Cons.IH [OF i(1)] Cons.prems p i(2) by auto
qed simp

lemma delete_all:
  assumes "inv t" "set (map snd ds) \<subseteq> els t" "distinct (map snd ds)"
  shows "inv (fold (\<lambda>(ok, e) t. fst (del ok t e)) ds t) \<and>
    els (fold (\<lambda>(ok, e) t. fst (del ok t e)) ds t) = els t - set (map snd ds)"
  using assms
proof (induction ds arbitrary: t)
  case (Cons p ds)
  obtain ok e where p: "p = (ok, e)" by (cases p)
  have d: "inv (fst (del ok t e))" "els (fst (del ok t e)) = els t - {e}"
    using del_old [of t e e ok] K_refl [of t e] Cons.prems p by auto
  have "set (map snd ds) \<subseteq> els (fst (del ok t e))" using Cons.prems p d(2) by auto
  from Cons.IH [OF d(1) this] Cons.prems p d(2) show ?case by auto
qed simp

end

interpretation ht: keyed_table "htab hf ls" helems "keq ls" hash_insert hash_delete hash_find for hf ls
proof
  fix t e x ok assume t: "htab hf ls t"
  note ok = t [unfolded htab_def, THEN conjunct1]
  note ev = htab_eqv [OF t]
  show "keq ls e e" using eqv_refl [OF ok, of e] ev by simp
  show "hash_find t e = x" if "x \<in> helems t" "keq ls x e"
    using that find_unique [OF ok, of x e] ev by (simp add: hash_op_facts)
  show "snd (hash_insert ok t e) = x \<and> htab hf ls (fst (hash_insert ok t e)) \<and>
      helems (fst (hash_insert ok t e)) = helems t" if "x \<in> helems t" "keq ls x e"
    using that find_unique [OF ok, of x e] ev htab_rehash [OF t] hash_ok_nonnull [OF ok, of x]
    by (simp add: hash_op_facts)
  show "snd (hash_delete ok t e) = x \<and> htab hf ls (fst (hash_delete ok t e)) \<and>
      helems (fst (hash_delete ok t e)) = helems t - {x}" if "x \<in> helems t" "keq ls x e"
    using that find_unique [OF ok, of x e] ev htab_remove_elem [OF t, of x]
      htab_rehash [of hf ls "remove_elem t x" ok] hash_ok_nonnull [OF ok, of x]
    by (simp add: hash_op_facts)
  show "hash_find t e = NULL" if "\<forall>x \<in> helems t. \<not> keq ls x e"
    using that find_none [OF ok, of e] ev by (simp add: hash_op_facts)
  show "hash_delete ok t e = (t, NULL)" if "\<forall>x \<in> helems t. \<not> keq ls x e"
    using that find_none [OF ok, of e] ev by (simp add: hash_op_facts)
  show "snd (hash_insert ok t e) = NULL \<and> htab hf ls (fst (hash_insert ok t e)) \<and>
      helems (fst (hash_insert ok t e)) = insert e (helems t)" if "e \<noteq> NULL" "\<forall>x \<in> helems t. \<not> keq ls x e"
    using that find_none [OF ok, of e] ev htab_insert_elem [OF t, of e]
      htab_rehash [of hf ls "insert_elem t (find_bucket t e) e" ok]
    by (simp add: hash_op_facts)
qed

lemma hash_init_htab:
  "hash_contract hf ls \<Longrightarrow> htab hf ls (fst (hash_init True hf ls)) \<and> helems (fst (hash_init True hf ls)) = {}"
proof -
  assume c: "hash_contract hf ls"
  let ?h = "fst (hash_init True hf ls)"
  have h: "buckets ?h = replicate 4 []" "bucket_cnt ?h = 4" "elem_cnt_of ?h = 0" "hhash ?h = hf" "hless ?h = ls"
    by (simp_all add: hash_init_def hash_clear_def Let_def numeral_eq_Suc)
  then have e: "helems ?h = {}" by (auto simp: helems_iff)
  have "is_power_of_2 4" by (simp add: is_power_of_2_def turn_off_least_1bit_def)
  with h e have "hinv ?h" by (simp add: hinv_def)
  with c h e show ?thesis by (simp add: htab_def hash_ok_def)
qed

lemma hash_replace_htab:
  assumes "htab hf ls h" "e \<noteq> NULL"
  shows "htab hf ls (fst (hash_replace ok h e))"
    and "helems (fst (hash_replace ok h e)) = insert e {x \<in> helems h. \<not> keq ls x e}"
    and "found h e (snd (hash_replace ok h e))"
proof -
  note k = assms(1) [unfolded htab_def, THEN conjunct1]
  note ev = htab_eqv [OF assms(1)]
  define r where "r = find_elem h (buckets h ! find_bucket h e) e"
  define g where "g = (if r \<noteq> NULL then remove_elem h r else h)"
  have f: "found h e r" unfolding r_def by (rule search_found [OF k])
  have uniq: "x = r" if "x \<in> helems h" "keq ls x e" for x
    using find_unique [OF k that(1)] that(2) ev by (simp add: r_def)
  have h1: "htab hf ls g" "helems g = {x \<in> helems h. \<not> keq ls x e}"
  proof (atomize(full), cases "r = NULL")
    case True
    with f assms(1) show "htab hf ls g \<and> helems g = {x \<in> helems h. \<not> keq ls x e}"
      by (auto simp: found_def ev g_def)
  next
    case False
    then have "r \<in> helems h" "keq ls r e" using foundD [OF f] ev by auto
    moreover from this have "helems h - {r} = {x \<in> helems h. \<not> keq ls x e}" using uniq by blast
    ultimately show "htab hf ls g \<and> helems g = {x \<in> helems h. \<not> keq ls x e}"
      using htab_remove_elem [OF assms(1), of r] False by (simp add: g_def)
  qed
  have fb: "find_bucket g e = find_bucket h e" by (simp add: g_def remove_elem_def find_bucket_def)
  have "htab hf ls (insert_elem g (find_bucket h e) e) \<and>
      helems (insert_elem g (find_bucket h e) e) = insert e (helems g)"
    using htab_insert_elem [OF h1(1) assms(2)] h1(2) by (simp add: fb)
  then show "htab hf ls (fst (hash_replace ok h e))"
    "helems (fst (hash_replace ok h e)) = insert e {x \<in> helems h. \<not> keq ls x e}"
    using htab_rehash [of hf ls "insert_elem g (find_bucket h e) e" ok] h1(2)
    unfolding hash_op_facts r_def [symmetric] g_def [symmetric] by simp_all
  show "found h e (snd (hash_replace ok h e))" using f by (simp add: hash_op_facts r_def)
qed

lemma keq_sym: "keq ls a b \<longleftrightarrow> keq ls b a"
  by (auto simp: keq_def)

lemma htab_size: "htab hf ls h \<Longrightarrow> hash_size h = card (helems h)"
  using hinvD(5) [of h] by (simp add: htab_def hash_ok_def hash_size_def)

lemma htab_contract: "htab hf ls h \<Longrightarrow> hash_contract hf ls"
  by (auto simp: htab_def hash_ok_def)


interpretation ints: hash_contract "\<lambda>e. hash_int (key e)" "\<lambda>a b. sint (key a) < sint (key b)" for key
proof
  fix a b assume "\<not> sint (key a) < sint (key b)" "\<not> sint (key b) < sint (key a)"
  then have "sint (key a) = sint (key b)" by simp
  then have "(word_of_int (sint (key a)) :: u32) = word_of_int (sint (key b))" by (rule arg_cong)
  then show "hash_int (key a) = hash_int (key b)" by simp
qed auto


section \<open>Iteration visits every element once\<close>

definition at_pos :: "hash \<Rightarrow> hash_iterator \<Rightarrow> addr list \<Rightarrow> bool" where
  "at_pos h i es \<longleftrightarrow> ibucket i < bucket_cnt h \<and>
     (ielem i = iHead \<and> es = concat (drop (ibucket i) (buckets h)) \<or>
      (\<exists>xs e ys. ielem i = iElem e \<and> buckets h ! ibucket i = xs @ e # ys \<and>
         es = ys @ concat (drop (Suc (ibucket i)) (buckets h))))"

lemma bucket_next_mid: "e \<notin> set xs \<Longrightarrow> bucket_next (xs @ e # ys) (iElem e) = Some (bucket_begin ys)"
  by (induction xs) auto

lemma skip_buckets_pos:
  assumes "length (buckets h) = bucket_cnt h"
  shows "b < bucket_cnt h \<Longrightarrow> buckets h ! b = xs @ ys \<Longrightarrow>
    (case ys @ concat (drop (Suc b) (buckets h)) of
       [] \<Rightarrow> ielem (skip_buckets h b (bucket_begin ys)) = iNull
     | e # es \<Rightarrow> ielem (skip_buckets h b (bucket_begin ys)) = iElem e \<and>
         at_pos h (skip_buckets h b (bucket_begin ys)) es)"
proof (induction "bucket_cnt h - b" arbitrary: b xs ys rule: less_induct)
  case less
  show ?case
  proof (cases ys)
    case (Cons y ys')
    then have sk: "skip_buckets h b (bucket_begin ys) = \<lparr>ibucket = b, ielem = iElem y\<rparr>"
      by (subst skip_buckets.simps) (simp add: bucket_begin_def)
    show ?thesis unfolding sk using Cons less(2,3) by (auto simp: at_pos_def)
  next
    case Nil
    show ?thesis
    proof (cases "Suc b < bucket_cnt h")
      case True
      then have dr: "drop (Suc b) (buckets h) = buckets h ! Suc b # drop (Suc (Suc b)) (buckets h)"
        using assms by (simp add: Cons_nth_drop_Suc)
      have sk: "skip_buckets h b (bucket_begin ys) = skip_buckets h (Suc b) (bucket_begin (buckets h ! Suc b))"
        using Nil True by (subst skip_buckets.simps) (simp add: bucket_begin_def)
      show ?thesis unfolding sk using less(1) [of "Suc b" "[]" "buckets h ! Suc b"] True Nil
        by (simp add: dr)
    next
      case False
      then have "ielem (skip_buckets h b (bucket_begin ys)) = iNull"
        using Nil by (subst skip_buckets.simps) (simp add: bucket_begin_def)
      with False Nil assms show ?thesis by simp
    qed
  qed
qed

lemma hash_next_pos:
  assumes "hash_ok h" "at_pos h i es"
  shows "\<exists>i'. hash_next h i = Some (case es of [] \<Rightarrow> iNull | e # _ \<Rightarrow> iElem e, i') \<and>
    (es \<noteq> [] \<longrightarrow> at_pos h i' (tl es))"
proof -
  have inv: "hinv h" using assms(1) by (simp add: hash_ok_def)
  note H = hinvD [OF inv]
  let ?b = "ibucket i"
  have b: "?b < bucket_cnt h" using assms(2) by (simp add: at_pos_def)
  obtain xs ys where ys: "buckets h ! ?b = xs @ ys" "bucket_next (buckets h ! ?b) (ielem i) = Some (bucket_begin ys)"
    and es: "es = ys @ concat (drop (Suc ?b) (buckets h))"
  proof (cases "ielem i = iHead")
    case True
    then have "es = concat (drop ?b (buckets h))" using assms(2) by (auto simp: at_pos_def)
    moreover have "drop ?b (buckets h) = buckets h ! ?b # drop (Suc ?b) (buckets h)"
      using b H(1) by (simp add: Cons_nth_drop_Suc)
    ultimately show thesis using True that [of "[]" "buckets h ! ?b"] by simp
  next
    case False
    then obtain xs e ys where e: "ielem i = iElem e" "buckets h ! ?b = xs @ e # ys"
      "es = ys @ concat (drop (Suc ?b) (buckets h))"
      using assms(2) by (auto simp: at_pos_def)
    have "e \<notin> set xs" using H(3) [OF b] e(2) by simp
    then show thesis using e that [of "xs @ [e]" ys] bucket_next_mid by simp
  qed
  show ?thesis using skip_buckets_pos [OF H(1) b ys(1), folded es] ys(2)
    by (cases es) (auto simp: hash_next_def)
qed

lemma hash_iter_from:
  "hash_ok h \<Longrightarrow> at_pos h i es \<Longrightarrow>
     \<exists>i'. pop_many (hash_next h) (Suc (length es)) i = Some (map iElem es @ [iNull], i')"
proof (induction es arbitrary: i)
  case Nil
  then show ?case using hash_next_pos [of h i "[]"] by auto
next
  case (Cons e es)
  obtain i1 where i1: "hash_next h i = Some (iElem e, i1)" "at_pos h i1 es"
    using hash_next_pos [OF Cons.prems] by auto
  obtain i2 where "pop_many (hash_next h) (Suc (length es)) i1 = Some (map iElem es @ [iNull], i2)"
    using Cons.IH [OF Cons.prems(1) i1(2)] by blast
  then have "pop_many (hash_next h) (Suc (Suc (length es))) i = Some (iElem e # map iElem es @ [iNull], i2)"
    by (subst pop_many.simps) (simp only: i1(1) bind.bind_lunit prod.case)
  then show ?case by simp
qed

text \<open>
  C36: Iterating with \<open>hash_first\<close> and \<open>hash_next\<close> over a well-formed table returns every element
  of it exactly once and then the null pointer.
\<close>

theorem hash_iterates:
  assumes "hash_ok h"
  shows "\<exists>es i. pop_many (hash_next h) (Suc (hash_size h)) (hash_first h) = Some (map iElem es @ [iNull], i) \<and>
    distinct es \<and> set es = helems h"
proof -
  have inv: "hinv h" using assms by (simp add: hash_ok_def)
  note H = hinvD [OF inv]
  let ?es = "concat (buckets h)"
  have d: "distinct ?es"
  proof (rule distinct_concat_nth)
    show "distinct (buckets h ! i)" if "i < length (buckets h)" for i using that H by simp
    show "set (buckets h ! i) \<inter> set (buckets h ! j) = {}"
      if "i < length (buckets h)" "j < length (buckets h)" "i \<noteq> j" for i j
      using that H(1,4) by (metis disjoint_iff)
  qed
  have he: "set ?es = helems h" by (simp add: helems_def)
  have "hash_size h = length ?es" using H(5) d he distinct_card [OF d] by (simp add: hash_size_def)
  moreover have "at_pos h (hash_first h) ?es"
    using H(2) by (simp add: at_pos_def hash_first_def is_power_of_2_def)
  ultimately show ?thesis using hash_iter_from [OF assms] d he by metis
qed

theorem hash_iterates_witness:
  "\<exists>es i. (let h = fst (hash_insert True (fst (hash_init True (\<lambda>e. hash_int (of_nat e))
        (\<lambda>a b. sint (of_nat a :: u32) < sint (of_nat b :: u32)))) 7)
     in pop_many (hash_next h) 2 (hash_first h) = Some (map iElem es @ [iNull], i) \<and> es = [7])"
proof -
  let ?hz = "fst (hash_init True (\<lambda>e. hash_int (of_nat e)) (\<lambda>a b. sint (of_nat a :: u32) < sint (of_nat b :: u32)))"
  let ?h = "fst (hash_insert True ?hz 7)"
  have h0: "htab (\<lambda>e. hash_int (of_nat e)) (\<lambda>a b. sint (of_nat a :: u32) < sint (of_nat b :: u32)) ?hz"
      "helems ?hz = {}"
    using hash_init_htab [OF ints.hash_contract_axioms [of of_nat]] by auto
  have "snd (hash_insert True ?hz 7) = NULL \<and>
      htab (\<lambda>e. hash_int (of_nat e)) (\<lambda>a b. sint (of_nat a :: u32) < sint (of_nat b :: u32)) ?h \<and>
      helems ?h = insert 7 (helems ?hz)"
    by (rule ht.ins_new [OF h0(1)]) (simp_all add: h0(2))
  then have h: "htab (\<lambda>e. hash_int (of_nat e)) (\<lambda>a b. sint (of_nat a :: u32) < sint (of_nat b :: u32)) ?h"
      "helems ?h = {7}" using h0(2) by blast+
  then have ok: "hash_ok ?h" and sz: "hash_size ?h = 1" using htab_size by (auto simp: htab_def)
  obtain es i where "pop_many (hash_next ?h) (Suc (hash_size ?h)) (hash_first ?h) = Some (map iElem es @ [iNull], i)"
    "distinct es" "set es = {7}" using hash_iterates [OF ok] h(2) by auto
  moreover from this have "es = [7]"
    by (metis distinct_card card.empty card_insert_disjoint empty_iff finite.emptyI length_0_conv
        length_Suc_conv list.set(1) list.set(2) singleton_insert_inj_eq)
  ultimately show ?thesis using sz by (auto simp: Let_def numeral_2_eq_2 simp del: pop_many.simps)
qed

end
