(* ===== verification/Stdlib.thy ===== *)
theory Stdlib
  imports Cstring "HOL-Library.Multiset"
begin

text \<open>
  \<open>lib/stdlib.c\<close>: \<open>atoi\<close>, heap sort and binary search.

  An array of \<open>cnt\<close> elements of \<open>size\<close> bytes is its byte sequence, as in the source, and an
  access outside it gives \<open>None\<close>. A comparison function with its auxiliary data is a function on
  the bytes of two elements; what \<open>sort\<close> and \<open>binary_search\<close> require of it is the locale
  \<open>strcmp_order\<close>, which the comparison of \<open>strcmp\<close> and \<open>memcmp\<close> satisfies. The proofs go
  through the same algorithm on lists of elements, which the byte level refines.
  Signed overflow of an \<open>int\<close> is undefined in C and gives \<open>None\<close>.
\<close>

section \<open>Signed integers\<close>

definition INT_MAX :: int where "INT_MAX = 2147483647"
definition INT_MIN :: int where "INT_MIN = -2147483648"

definition cint :: "int \<Rightarrow> int option" where
  "cint x = (if INT_MIN \<le> x \<and> x \<le> INT_MAX then Some x else None)"

lemma cint_Some [simp, ret_iff]: "cint x = Some y \<longleftrightarrow> y = x \<and> INT_MIN \<le> x \<and> x \<le> INT_MAX"
  by (auto simp: cint_def)

lemma bind_cint [simp]: "cint x \<bind> f = (if INT_MIN \<le> x \<and> x \<le> INT_MAX then f x else None)"
  by (simp add: cint_def)

lemma cint_ok: "INT_MIN \<le> x \<Longrightarrow> x \<le> INT_MAX \<Longrightarrow> cint x = Some x"
  by simp

section \<open>Conversion of strings to integers\<close>

partial_function (option) atoi_spaces :: "mem \<Rightarrow> addr \<Rightarrow> addr option" where
  [code]: "atoi_spaces m s = do {
     x \<leftarrow> m s;
     if isspace (uint x) then atoi_spaces m (s + 1) else Some s }"

partial_function (option) atoi_digits :: "mem \<Rightarrow> addr \<Rightarrow> int \<Rightarrow> int option" where
  [code]: "atoi_digits m s v = do {
     x \<leftarrow> m s;
     if isdigit (sint x) then do {
       t \<leftarrow> cint (v * 10);
       v \<leftarrow> cint (t - (sint x - 48));
       atoi_digits m (s + 1) v }
     else Some v }"

definition atoi :: "mem \<Rightarrow> addr \<Rightarrow> int option" where
  "atoi m s = do {
     assert_c (s \<noteq> NULL);
     s \<leftarrow> atoi_spaces m s;
     x \<leftarrow> m s;
     let (negative, s) = (if x = 43 then (False, s + 1) else if x = 45 then (True, s + 1) else (False, s));
     v \<leftarrow> atoi_digits m s 0;
     if \<not> negative then cint (- v) else Some v }"

section \<open>Sorting and searching\<close>

type_synonym compare_fn = "byte list \<Rightarrow> byte list \<Rightarrow> int"

fun do_swap_loop :: "byte list \<Rightarrow> nat \<Rightarrow> nat \<Rightarrow> nat \<Rightarrow> nat \<Rightarrow> byte list option" where
  "do_swap_loop array a b i 0 = Some array"
| "do_swap_loop array a b i (Suc n) =
     (if a + i < length array \<and> b + i < length array then
        do_swap_loop (array[a + i := array ! (b + i), b + i := array ! (a + i)]) a b (i + 1) n
      else None)"

definition do_swap :: "byte list \<Rightarrow> nat \<Rightarrow> nat \<Rightarrow> nat \<Rightarrow> byte list option" where
  "do_swap array a_idx b_idx sz = do_swap_loop array ((a_idx - 1) * sz) ((b_idx - 1) * sz) 0 sz"

definition elem_at :: "byte list \<Rightarrow> nat \<Rightarrow> nat \<Rightarrow> byte list option" where
  "elem_at array ofs sz = (if ofs + sz \<le> length array then Some (take sz (drop ofs array)) else None)"

definition do_compare :: "byte list \<Rightarrow> nat \<Rightarrow> nat \<Rightarrow> nat \<Rightarrow> compare_fn \<Rightarrow> int option" where
  "do_compare array a_idx b_idx sz compare = do {
     a \<leftarrow> elem_at array ((a_idx - 1) * sz) sz;
     b \<leftarrow> elem_at array ((b_idx - 1) * sz) sz;
     Some (compare a b) }"

definition heapify_max :: "byte list \<Rightarrow> nat \<Rightarrow> nat \<Rightarrow> nat \<Rightarrow> compare_fn \<Rightarrow> nat option" where
  "heapify_max array i cnt sz compare = do {
     let left = 2 * i;
     let right = 2 * i + 1;
     mx \<leftarrow> (if left \<le> cnt then do {
               c \<leftarrow> do_compare array left i sz compare;
               Some (if c > 0 then left else i) }
             else Some i);
     (if right \<le> cnt then do {
        c \<leftarrow> do_compare array right mx sz compare;
        Some (if c > 0 then right else mx) }
      else Some mx) }"

lemma heapify_max_range:
  "heapify_max array i cnt sz compare = Some mx \<Longrightarrow> mx \<noteq> i \<Longrightarrow> i < mx \<and> mx \<le> cnt"
  by (auto simp: heapify_max_def Let_def ret_iff split: if_splits)

function heapify :: "byte list \<Rightarrow> nat \<Rightarrow> nat \<Rightarrow> nat \<Rightarrow> compare_fn \<Rightarrow> byte list option" where
  "heapify array i cnt sz compare = do {
     mx \<leftarrow> heapify_max array i cnt sz compare;
     if mx = i then Some array
     else do {
       array \<leftarrow> do_swap array i mx sz;
       heapify array mx cnt sz compare } }"
  by pat_completeness auto
termination
  by (relation "measure (\<lambda>(array, i, cnt, sz, compare). cnt - i)") (auto dest!: heapify_max_range)

declare heapify.simps [simp del]

fun build_heap :: "byte list \<Rightarrow> nat \<Rightarrow> nat \<Rightarrow> nat \<Rightarrow> compare_fn \<Rightarrow> byte list option" where
  "build_heap array 0 cnt sz compare = Some array"
| "build_heap array (Suc i) cnt sz compare = do {
     array \<leftarrow> heapify array (Suc i) cnt sz compare;
     build_heap array i cnt sz compare }"

fun sort_heap :: "byte list \<Rightarrow> nat \<Rightarrow> nat \<Rightarrow> compare_fn \<Rightarrow> byte list option" where
  "sort_heap array i sz compare =
     (if i > 1 then do {
        array \<leftarrow> do_swap array 1 i sz;
        array \<leftarrow> heapify array 1 (i - 1) sz compare;
        sort_heap array (i - 1) sz compare }
      else Some array)"

declare sort_heap.simps [simp del]

definition sort_c :: "byte list \<Rightarrow> nat \<Rightarrow> nat \<Rightarrow> compare_fn \<Rightarrow> byte list option" where
  "sort_c array cnt sz compare = do {
     assert_c (sz > 0);
     array \<leftarrow> build_heap array (cnt div 2) cnt sz compare;
     sort_heap array cnt sz compare }"

definition qsort :: "byte list \<Rightarrow> nat \<Rightarrow> nat \<Rightarrow> compare_fn \<Rightarrow> byte list option" where
  "qsort array cnt sz compare = sort_c array cnt sz compare"

text \<open>Pointers into the array are byte offsets; the result \<open>Some None\<close> is the null pointer.\<close>

function bsearch_loop ::
  "byte list \<Rightarrow> byte list \<Rightarrow> nat \<Rightarrow> nat \<Rightarrow> nat \<Rightarrow> compare_fn \<Rightarrow> nat option option" where
  "bsearch_loop key array fst_p lst_p sz compare =
     (if fst_p < lst_p then do {
        assert_c (sz \<noteq> 0);
        let range = (lst_p - fst_p) div sz;
        let middle = fst_p + (range div 2) * sz;
        e \<leftarrow> elem_at array middle sz;
        let c = compare key e;
        if c < 0 then bsearch_loop key array fst_p middle sz compare
        else if c > 0 then bsearch_loop key array (middle + sz) lst_p sz compare
        else Some (Some middle) }
      else Some None)"
  by pat_completeness auto
termination
proof (relation "measure (\<lambda>(key, array, f, l, sz, compare). l - f)", goal_cases)
  case (2 key array f l sz compare u range middle e c)
  have "range div 2 * sz < l - f"
  proof (cases "range = 0")
    case False
    then have "range div 2 * sz < range * sz" using 2 by simp
    also have "\<dots> \<le> l - f" using 2 by (simp add: div_times_less_eq_dividend)
    finally show ?thesis .
  qed (use 2 in simp)
  with 2 show ?case by simp
qed auto

declare bsearch_loop.simps [simp del]

definition binary_search ::
  "byte list \<Rightarrow> byte list \<Rightarrow> nat \<Rightarrow> nat \<Rightarrow> compare_fn \<Rightarrow> nat option option" where
  "binary_search key array cnt sz compare = bsearch_loop key array 0 (sz * cnt) sz compare"

definition bsearch ::
  "byte list \<Rightarrow> byte list \<Rightarrow> nat \<Rightarrow> nat \<Rightarrow> compare_fn \<Rightarrow> nat option option" where
  "bsearch key array cnt sz compare = binary_search key array cnt sz compare"

section \<open>From bytes to elements\<close>

definition swap_e :: "'a list \<Rightarrow> nat \<Rightarrow> nat \<Rightarrow> 'a list" where
  "swap_e es a b = es[a - 1 := es ! (b - 1), b - 1 := es ! (a - 1)]"

definition max_e :: "('a \<Rightarrow> 'a \<Rightarrow> int) \<Rightarrow> 'a list \<Rightarrow> nat \<Rightarrow> nat \<Rightarrow> nat" where
  "max_e cmp es i n =
     (let mx = (if 2 * i \<le> n \<and> cmp (es ! (2 * i - 1)) (es ! (i - 1)) > 0 then 2 * i else i)
      in if 2 * i + 1 \<le> n \<and> cmp (es ! (2 * i)) (es ! (mx - 1)) > 0 then 2 * i + 1 else mx)"

lemma max_e_range: "max_e cmp es i n \<noteq> i \<Longrightarrow> i < max_e cmp es i n \<and> max_e cmp es i n \<le> n"
  by (auto simp: max_e_def Let_def split: if_splits)

function heapify_e :: "('a \<Rightarrow> 'a \<Rightarrow> int) \<Rightarrow> 'a list \<Rightarrow> nat \<Rightarrow> nat \<Rightarrow> 'a list" where
  "heapify_e cmp es i n =
     (if max_e cmp es i n = i then es
      else heapify_e cmp (swap_e es i (max_e cmp es i n)) (max_e cmp es i n) n)"
  by pat_completeness auto
termination by (relation "measure (\<lambda>(cmp, es, i, n). n - i)") (auto dest: max_e_range)

declare heapify_e.simps [simp del]

fun build_e :: "('a \<Rightarrow> 'a \<Rightarrow> int) \<Rightarrow> 'a list \<Rightarrow> nat \<Rightarrow> nat \<Rightarrow> 'a list" where
  "build_e cmp es 0 n = es"
| "build_e cmp es (Suc i) n = build_e cmp (heapify_e cmp es (Suc i) n) i n"

fun unheap_e :: "('a \<Rightarrow> 'a \<Rightarrow> int) \<Rightarrow> 'a list \<Rightarrow> nat \<Rightarrow> 'a list" where
  "unheap_e cmp es 0 = es"
| "unheap_e cmp es (Suc i) =
     (if i = 0 then es else unheap_e cmp (heapify_e cmp (swap_e es 1 (Suc i)) 1 i) i)"

text \<open>\<open>elems sz array es\<close>: the array consists of the elements \<open>es\<close> of \<open>sz\<close> bytes each.\<close>

definition elems :: "nat \<Rightarrow> byte list \<Rightarrow> byte list list \<Rightarrow> bool" where
  "elems sz array es \<longleftrightarrow> array = concat es \<and> (\<forall>e \<in> set es. length e = sz)"

lemma length_elems: "elems sz array es \<Longrightarrow> length array = length es * sz"
  by (auto simp: elems_def length_concat sum_list_triv cong: map_cong)

lemma elems_nth:
  assumes "elems sz array es" "k < length es" "j < sz"
  shows "array ! (k * sz + j) = es ! k ! j" and "k * sz + j < length array"
proof -
  show "k * sz + j < length array"
    using assms length_elems [OF assms(1)] mult_le_mono1 [of "Suc k" "length es" sz] by simp
  show "array ! (k * sz + j) = es ! k ! j"
    using assms unfolding elems_def
  proof (elim conjE, simp, induction es arbitrary: array k)
    case (Cons e es)
    then show ?case by (cases k) (simp_all add: nth_append)
  qed simp
qed

lemma elems_drop: "elems sz array es \<Longrightarrow> elems sz (drop (k * sz) array) (drop k es)"
proof (induction k arbitrary: array es)
  case (Suc k)
  show ?case
  proof (cases es)
    case (Cons e es')
    with Suc.prems have "elems sz (drop sz array) es'" "length e = sz" by (auto simp: elems_def)
    from Suc.IH [OF this(1)] Cons show ?thesis by (simp add: add.commute)
  qed (use Suc.prems in \<open>simp add: elems_def\<close>)
qed simp

lemma elem_at_elems:
  assumes "elems sz array es" "k < length es"
  shows "elem_at array (k * sz) sz = Some (es ! k)"
proof -
  have len: "k * sz + sz \<le> length array"
    using length_elems [OF assms(1)] mult_le_mono1 [of "Suc k" "length es" sz] assms(2) by simp
  have "drop k es = es ! k # drop (Suc k) es" using assms(2) by (simp add: Cons_nth_drop_Suc)
  with elems_drop [OF assms(1), of k] have "take sz (drop (k * sz) array) = es ! k"
    by (auto simp: elems_def)
  with len show ?thesis by (simp add: elem_at_def)
qed

lemma elems_eqI:
  assumes "length array = length es * sz" "\<And>e. e \<in> set es \<Longrightarrow> length e = sz"
    and "\<And>k j. k < length es \<Longrightarrow> j < sz \<Longrightarrow> array ! (k * sz + j) = es ! k ! j"
  shows "elems sz array es"
proof -
  have c: "elems sz (concat es) es" using assms(2) by (simp add: elems_def)
  have "array = concat es"
  proof (rule nth_equalityI)
    show "length array = length (concat es)" using assms(1) length_elems [OF c] by simp
    fix i assume i: "i < length array"
    then have sz: "0 < sz" using assms(1) by (cases sz) auto
    have "i div sz < length es" using i assms(1) sz by (simp add: less_mult_imp_div_less)
    moreover have "i mod sz < sz" using sz by simp
    ultimately show "array ! i = concat es ! i"
      using assms(3) [of "i div sz" "i mod sz"] elems_nth(1) [OF c, of "i div sz" "i mod sz"] by simp
  qed
  with c show ?thesis by simp
qed

lemma do_swap_loop_nth:
  assumes "a + i + n \<le> b \<or> b + i + n \<le> a" "a + i + n \<le> length array" "b + i + n \<le> length array"
  shows "\<exists>r. do_swap_loop array a b i n = Some r \<and> length r = length array \<and>
    (\<forall>p < length array. r ! p =
       (if a + i \<le> p \<and> p < a + i + n then array ! (b + (p - a))
        else if b + i \<le> p \<and> p < b + i + n then array ! (a + (p - b)) else array ! p))"
  using assms
proof (induction n arbitrary: array i)
  case (Suc n)
  let ?arr = "array[a + i := array ! (b + i), b + i := array ! (a + i)]"
  obtain r where r: "do_swap_loop ?arr a b (Suc i) n = Some r" "length r = length array"
    and nth: "\<And>p. p < length array \<Longrightarrow> r ! p =
       (if a + Suc i \<le> p \<and> p < a + Suc i + n then ?arr ! (b + (p - a))
        else if b + Suc i \<le> p \<and> p < b + Suc i + n then ?arr ! (a + (p - b)) else ?arr ! p)"
    using Suc.IH [of "Suc i" ?arr] Suc.prems by auto
  have "r ! p = (if a + i \<le> p \<and> p < a + i + Suc n then array ! (b + (p - a))
        else if b + i \<le> p \<and> p < b + i + Suc n then array ! (a + (p - b)) else array ! p)"
    if p: "p < length array" for p
  proof -
    consider "p = a + i" | "p = b + i" | "p \<noteq> a + i" "p \<noteq> b + i" by blast
    then show ?thesis
    proof cases
      case 1
      with nth [OF p] Suc.prems show ?thesis by (auto simp: nth_list_update)
    next
      case 2
      with nth [OF p] Suc.prems show ?thesis by (auto simp: nth_list_update)
    next
      case 3
      have e: "(c + i \<le> p \<and> p < c + i + Suc n) = (c + Suc i \<le> p \<and> p < c + Suc i + n)" if "p \<noteq> c + i" for c
        using that by auto
      have arr: "?arr ! q = array ! q" if "q \<noteq> a + i" "q \<noteq> b + i" for q using that by simp
      consider "a + Suc i \<le> p \<and> p < a + Suc i + n" | "b + Suc i \<le> p \<and> p < b + Suc i + n"
          "\<not> (a + Suc i \<le> p \<and> p < a + Suc i + n)"
        | "\<not> (b + Suc i \<le> p \<and> p < b + Suc i + n)" "\<not> (a + Suc i \<le> p \<and> p < a + Suc i + n)"
        by blast
      then show ?thesis
      proof cases
        case 1
        then have "b + (p - a) \<noteq> a + i" "b + (p - a) \<noteq> b + i" using Suc.prems(1) by auto
        with 1 show ?thesis unfolding e [OF 3(1)] e [OF 3(2)] nth [OF p] by (simp only: if_True simp_thms arr)
      next
        case 2
        then have "a + (p - b) \<noteq> a + i" "a + (p - b) \<noteq> b + i" using Suc.prems(1) by auto
        with 2 show ?thesis unfolding e [OF 3(1)] e [OF 3(2)] nth [OF p] by (simp only: if_True if_False simp_thms arr)
      next
        case 3
        then show ?thesis unfolding e [OF \<open>p \<noteq> a + i\<close>] e [OF \<open>p \<noteq> b + i\<close>] nth [OF p]
          using \<open>p \<noteq> a + i\<close> \<open>p \<noteq> b + i\<close> by (simp only: if_False simp_thms arr)
      qed
    qed
  qed
  with r Suc.prems show ?case by auto
qed auto

lemma swap_blocks: "a \<noteq> b \<Longrightarrow> a * sz + sz \<le> b * sz \<or> b * sz + sz \<le> a * (sz :: nat)"
  using mult_le_mono1 [of "Suc a" b sz] mult_le_mono1 [of "Suc b" a sz] by (cases "a < b") auto

lemma length_swap_e [simp]: "length (swap_e es a b) = length es"
  by (simp add: swap_e_def)

lemma swap_e_nth:
  "k < length es \<Longrightarrow> swap_e es a b ! k = (if k = b - 1 then es ! (a - 1) else if k = a - 1 then es ! (b - 1) else es ! k)"
  by (auto simp: swap_e_def nth_list_update)

lemma do_swap_elems:
  assumes "elems sz array es" "1 \<le> a" "a \<le> length es" "1 \<le> b" "b \<le> length es" "a \<noteq> b"
  shows "\<exists>r. do_swap array a b sz = Some r \<and> elems sz r (swap_e es a b)"
proof -
  let ?a = "a - 1" and ?b = "b - 1"
  have ab: "?a \<noteq> ?b" "?a < length es" "?b < length es" using assms by auto
  have la: "?a * sz + sz \<le> length array" "?b * sz + sz \<le> length array"
    using length_elems [OF assms(1)] mult_le_mono1 [of "Suc ?a" "length es" sz]
      mult_le_mono1 [of "Suc ?b" "length es" sz] ab by auto
  obtain r where r: "do_swap_loop array (?a * sz) (?b * sz) 0 sz = Some r" "length r = length array"
    and nth: "\<And>p. p < length array \<Longrightarrow> r ! p =
       (if ?a * sz \<le> p \<and> p < ?a * sz + sz then array ! (?b * sz + (p - ?a * sz))
        else if ?b * sz \<le> p \<and> p < ?b * sz + sz then array ! (?a * sz + (p - ?b * sz)) else array ! p)"
    using do_swap_loop_nth [of "?a * sz" 0 sz "?b * sz" array] swap_blocks [OF ab(1), of sz] la by auto
  have "elems sz r (swap_e es a b)"
  proof (rule elems_eqI)
    show "length r = length (swap_e es a b) * sz" using r length_elems [OF assms(1)] by simp
    show "length e = sz" if "e \<in> set (swap_e es a b)" for e
      using that assms(1) ab
      by (auto simp: in_set_conv_nth swap_e_nth elems_def all_set_conv_all_nth split: if_splits)
  next
    fix k j assume k: "k < length (swap_e es a b)" and j: "j < sz"
    then have k': "k < length es" by simp
    have in_k: "(c * sz \<le> k * sz + j \<and> k * sz + j < c * sz + sz) = (c = k)" for c
      using j swap_blocks [of c k sz] by (cases "c = k") auto
    show "r ! (k * sz + j) = swap_e es a b ! k ! j"
      using nth [OF elems_nth(2) [OF assms(1) k' j]] k' ab j
        elems_nth(1) [OF assms(1) _ j, of ?a] elems_nth(1) [OF assms(1) _ j, of ?b]
        elems_nth(1) [OF assms(1) k' j]
      by (auto simp: in_k swap_e_nth)
  qed
  with r show ?thesis by (auto simp: do_swap_def)
qed

lemma do_compare_elems:
  "elems sz array es \<Longrightarrow> 1 \<le> a \<Longrightarrow> a \<le> length es \<Longrightarrow> 1 \<le> b \<Longrightarrow> b \<le> length es \<Longrightarrow>
     do_compare array a b sz compare = Some (compare (es ! (a - 1)) (es ! (b - 1)))"
  by (simp add: do_compare_def elem_at_elems)

lemma heapify_max_elems:
  "elems sz array es \<Longrightarrow> 1 \<le> i \<Longrightarrow> i \<le> length es \<Longrightarrow> n \<le> length es \<Longrightarrow>
     heapify_max array i n sz compare = Some (max_e compare es i n)"
  by (simp add: heapify_max_def max_e_def Let_def do_compare_elems)

lemma heapify_elems:
  "elems sz array es \<Longrightarrow> 1 \<le> i \<Longrightarrow> i \<le> length es \<Longrightarrow> n \<le> length es \<Longrightarrow>
     \<exists>r. heapify array i n sz compare = Some r \<and> elems sz r (heapify_e compare es i n)"
proof (induction compare es i n arbitrary: array rule: heapify_e.induct)
  case (1 compare es i n)
  let ?mx = "max_e compare es i n"
  note mx = heapify_max_elems [OF 1(2-5), of compare]
  show ?case
  proof (cases "?mx = i")
    case True
    with mx 1(2) show ?thesis by (simp add: heapify.simps heapify_e.simps)
  next
    case False
    then have rng: "1 \<le> ?mx" "?mx \<le> length es" using max_e_range [of compare es i n] 1(3,5) by auto
    obtain a1 where a1: "do_swap array i ?mx sz = Some a1" "elems sz a1 (swap_e es i ?mx)"
      using do_swap_elems [OF 1(2,3,4) rng] False by auto
    with 1(1) [OF False a1(2) rng(1)] rng 1(5) False mx show ?thesis
      by (simp add: heapify.simps [of array] heapify_e.simps [of compare es i n])
  qed
qed

lemma length_heapify_e [simp]: "length (heapify_e cmp es i n) = length es"
proof (induction cmp es i n rule: heapify_e.induct)
  case (1 cmp es i n)
  then show ?case by (subst heapify_e.simps) simp
qed

lemma build_heap_elems:
  "elems sz array es \<Longrightarrow> i \<le> length es \<Longrightarrow> n \<le> length es \<Longrightarrow>
     \<exists>r. build_heap array i n sz compare = Some r \<and> elems sz r (build_e compare es i n)"
proof (induction i arbitrary: array es)
  case (Suc i)
  obtain r where "heapify array (Suc i) n sz compare = Some r" "elems sz r (heapify_e compare es (Suc i) n)"
    using heapify_elems [of sz array es "Suc i" n compare] Suc.prems by auto
  with Suc.IH [of r "heapify_e compare es (Suc i) n"] Suc.prems show ?case by simp
qed simp

lemma sort_heap_elems:
  "elems sz array es \<Longrightarrow> i \<le> length es \<Longrightarrow>
     \<exists>r. sort_heap array i sz compare = Some r \<and> elems sz r (unheap_e compare es i)"
proof (induction i arbitrary: array es)
  case (Suc i)
  show ?case
  proof (cases "i = 0")
    case True
    with Suc.prems show ?thesis by (simp add: sort_heap.simps)
  next
    case False
    obtain a1 where a1: "do_swap array 1 (Suc i) sz = Some a1" "elems sz a1 (swap_e es 1 (Suc i))"
      using do_swap_elems [of sz array es 1 "Suc i"] Suc.prems False by auto
    obtain a2 where a2: "heapify a1 1 i sz compare = Some a2" "elems sz a2 (heapify_e compare (swap_e es 1 (Suc i)) 1 i)"
      using heapify_elems [OF a1(2), of 1 i compare] Suc.prems False by auto
    from Suc.IH [OF a2(2)] Suc.prems a1(1) a2(1) False show ?thesis
      by (simp add: sort_heap.simps [of array])
  qed
qed (simp add: sort_heap.simps)

section \<open>Heap sort sorts\<close>

text \<open>
  The contract of a comparison function: a \<open>strcmp()\<close>-type result, that is, the sign of the
  comparison in some total preorder.
\<close>

locale strcmp_order =
  fixes cmp :: "'e \<Rightarrow> 'e \<Rightarrow> int"
  assumes cmp_swap: "cmp x y > 0 \<longleftrightarrow> cmp y x < 0"
    and cmp_trans: "cmp x y \<le> 0 \<Longrightarrow> cmp y z \<le> 0 \<Longrightarrow> cmp x z \<le> 0"

text \<open>
  \<open>heap_from lo n\<close>: every node up to \<open>n\<close> whose parent is at least \<open>lo\<close> is at most its parent
  (indexes from 1). \<open>heap_but i\<close> allows node \<open>i\<close> to be smaller than its children.
\<close>

definition heap_from :: "('a \<Rightarrow> 'a \<Rightarrow> int) \<Rightarrow> 'a list \<Rightarrow> nat \<Rightarrow> nat \<Rightarrow> bool" where
  "heap_from cmp es lo n \<longleftrightarrow>
     (\<forall>j. 2 \<le> j \<and> j \<le> n \<and> lo \<le> j div 2 \<longrightarrow> cmp (es ! (j - 1)) (es ! (j div 2 - 1)) \<le> 0)"

definition heap_but :: "('a \<Rightarrow> 'a \<Rightarrow> int) \<Rightarrow> 'a list \<Rightarrow> nat \<Rightarrow> nat \<Rightarrow> nat \<Rightarrow> bool" where
  "heap_but cmp es lo n i \<longleftrightarrow>
     (\<forall>j. 2 \<le> j \<and> j \<le> n \<and> lo \<le> j div 2 \<and> j div 2 \<noteq> i \<longrightarrow>
        cmp (es ! (j - 1)) (es ! (j div 2 - 1)) \<le> 0) \<and>
     (\<forall>j. 2 \<le> j \<and> j \<le> n \<and> j div 2 = i \<and> lo \<le> i div 2 \<longrightarrow>
        cmp (es ! (j - 1)) (es ! (i div 2 - 1)) \<le> 0)"

lemma heap_fromD: "heap_from cmp es lo n \<Longrightarrow> 2 \<le> j \<Longrightarrow> j \<le> n \<Longrightarrow> lo \<le> j div 2 \<Longrightarrow>
    cmp (es ! (j - 1)) (es ! (j div 2 - 1)) \<le> 0"
  by (simp add: heap_from_def)

lemma heap_butD:
  "heap_but cmp es lo n i \<Longrightarrow> 2 \<le> j \<Longrightarrow> j \<le> n \<Longrightarrow> lo \<le> j div 2 \<Longrightarrow> j div 2 \<noteq> i \<Longrightarrow>
     cmp (es ! (j - 1)) (es ! (j div 2 - 1)) \<le> 0"
  "heap_but cmp es lo n i \<Longrightarrow> 2 \<le> j \<Longrightarrow> j \<le> n \<Longrightarrow> j div 2 = i \<Longrightarrow> lo \<le> i div 2 \<Longrightarrow>
     cmp (es ! (j - 1)) (es ! (i div 2 - 1)) \<le> 0"
  by (auto simp: heap_but_def)

lemma max_e_cases: "max_e cmp es i n \<in> {i, 2 * i, 2 * i + 1}"
  by (simp add: max_e_def Let_def)

lemma mset_swap_e: "1 \<le> a \<Longrightarrow> a \<le> length es \<Longrightarrow> 1 \<le> b \<Longrightarrow> b \<le> length es \<Longrightarrow> mset (swap_e es a b) = mset es"
  unfolding swap_e_def by (rule mset_swap) auto

lemma heapify_e_frame:
  "1 \<le> i \<Longrightarrow> i \<le> n \<Longrightarrow> n \<le> length es \<Longrightarrow>
     mset (heapify_e cmp es i n) = mset es \<and> drop n (heapify_e cmp es i n) = drop n es"
proof (induction cmp es i n rule: heapify_e.induct)
  case (1 cmp es i n)
  let ?mx = "max_e cmp es i n"
  show ?case
  proof (cases "?mx = i")
    case False
    then have rng: "1 \<le> ?mx" "?mx \<le> n" using max_e_range [of cmp es i n] 1(2) by auto
    have "drop n (swap_e es i ?mx) = drop n es"
      using 1(2,3) rng by (simp add: swap_e_def)
    moreover have "mset (swap_e es i ?mx) = mset es"
      using 1(2-4) rng by (intro mset_swap_e) auto
    ultimately show ?thesis
      using 1(1) [OF False rng] 1(4) False by (subst (1 2) heapify_e.simps) simp
  qed (subst (1 2) heapify_e.simps, simp)
qed

lemma heapify_e_take:
  assumes "1 \<le> i" "i \<le> n" "n \<le> length es"
  shows "mset (take n (heapify_e cmp es i n)) = mset (take n es)"
proof -
  have "mset (take n (heapify_e cmp es i n)) + mset (drop n es) = mset (take n es) + mset (drop n es)"
    using heapify_e_frame [OF assms, of cmp]
    by (metis append_take_drop_id mset_append)
  then show ?thesis by simp
qed

lemma build_e_frame: "i \<le> n \<Longrightarrow> n \<le> length es \<Longrightarrow> mset (build_e cmp es i n) = mset es \<and> length (build_e cmp es i n) = length es"
  by (induction i arbitrary: es) (simp_all add: heapify_e_frame)

context strcmp_order
begin

lemma le_total: "cmp x y \<le> 0 \<or> cmp y x \<le> 0"
  using cmp_swap [of x y] by linarith

lemma not_gt: "\<not> cmp x y > 0 \<longleftrightarrow> cmp x y \<le> 0"
  by linarith

lemma le_refl: "cmp x x \<le> 0"
  using le_total by blast

lemma gt_le: "cmp x y > 0 \<Longrightarrow> cmp y x \<le> 0"
  using cmp_swap [of x y] by linarith

lemma max_e_ge:
  "cmp (es ! (i - 1)) (es ! (max_e cmp es i n - 1)) \<le> 0"
  "2 * i \<le> n \<Longrightarrow> cmp (es ! (2 * i - 1)) (es ! (max_e cmp es i n - 1)) \<le> 0"
  "2 * i + 1 \<le> n \<Longrightarrow> cmp (es ! (2 * i)) (es ! (max_e cmp es i n - 1)) \<le> 0"
  by (auto simp: max_e_def Let_def not_gt le_refl not_less dest: gt_le intro: cmp_trans)

lemma max_e_child:
  assumes "2 \<le> j" "j \<le> n" "j div 2 = i"
  shows "cmp (es ! (j - 1)) (es ! (max_e cmp es i n - 1)) \<le> 0"
proof -
  have "j = 2 * i \<or> j = 2 * i + 1" using assms(3) by auto
  then show ?thesis using max_e_ge(2,3) [of i n es] assms(2) by auto
qed

lemma heap_but_swap:
  assumes hb: "heap_but cmp es lo n i" and "1 \<le> lo" "lo \<le> i" "n \<le> length es"
    and mx: "mx = max_e cmp es i n" "mx \<noteq> i"
  shows "heap_but cmp (swap_e es i mx) lo n mx"
proof -
  have m: "mx div 2 = i" "i < mx" "mx \<le> n" "2 \<le> mx"
    using max_e_cases [of cmp es i n] max_e_range [of cmp es i n] mx assms(2,3) by auto
  have nth: "swap_e es i mx ! (k - 1) = (if k = mx then es ! (i - 1) else if k = i then es ! (mx - 1) else es ! (k - 1))"
    if "1 \<le> k" "k \<le> n" for k
  proof -
    have "k - 1 < length es" "(k - 1 = mx - 1) = (k = mx)" "(k - 1 = i - 1) = (k = i)"
      using that assms m by auto
    then show ?thesis by (simp add: swap_e_nth)
  qed
  show ?thesis unfolding heap_but_def
  proof (intro conjI allI impI, goal_cases)
    case (1 j)
    then have nj: "1 \<le> j" "j \<le> n" "1 \<le> j div 2" "j div 2 \<le> n" by auto
    consider "j = mx" | "j \<noteq> mx" "j div 2 = i" | "j = i" | "j \<noteq> mx" "j div 2 \<noteq> i" "j \<noteq> i" by blast
    then show ?case
    proof cases
      case 1
      then show ?thesis unfolding nth [OF nj(1,2)] nth [OF nj(3,4)]
        using m max_e_ge(1) [of es i n] mx(1) by simp
    next
      case 2
      have "j \<noteq> i" using 2 m 1 by auto
      then show ?thesis unfolding nth [OF nj(1,2)] nth [OF nj(3,4)]
        using m 2 max_e_child [of j n i es] mx(1) 1 by simp
    next
      case 3
      then show ?thesis unfolding nth [OF nj(1,2)] nth [OF nj(3,4)]
        using m 1 heap_butD(2) [OF hb, of mx] assms by auto
    next
      case 4
      then show ?thesis unfolding nth [OF nj(1,2)] nth [OF nj(3,4)]
        using 1 heap_butD(1) [OF hb, of j] by simp
    qed
  next
    case (2 j)
    then have nj: "1 \<le> j" "j \<le> n" "1 \<le> mx div 2" "mx div 2 \<le> n" using m assms by auto
    have "j \<noteq> mx" "j \<noteq> i" using 2 m by auto
    then show ?case unfolding nth [OF nj(1,2)] nth [OF nj(3,4)]
      using 2 m assms heap_butD(1) [OF hb, of j] by auto
  qed
qed

lemma heapify_e_heap:
  "heap_but cmp es lo n i \<Longrightarrow> 1 \<le> lo \<Longrightarrow> lo \<le> i \<Longrightarrow> n \<le> length es \<Longrightarrow>
     heap_from cmp (heapify_e cmp es i n) lo n"
proof (induction "n - i" arbitrary: es i rule: less_induct)
  case less
  let ?mx = "max_e cmp es i n"
  show ?case
  proof (cases "?mx = i")
    case True
    have "cmp (es ! (j - 1)) (es ! (j div 2 - 1)) \<le> 0" if "2 \<le> j" "j \<le> n" "lo \<le> j div 2" for j
      using that heap_butD(1) [OF less(2), of j] max_e_child [of j n i es] True by (cases "j div 2 = i") auto
    with True show ?thesis by (subst heapify_e.simps) (simp add: heap_from_def)
  next
    case False
    then have m: "i < ?mx" "?mx \<le> n" using max_e_range [of cmp es i n] by auto
    have "heap_but cmp (swap_e es i ?mx) lo n ?mx"
      using less(2-5) False by (intro heap_but_swap) auto
    then have "heap_from cmp (heapify_e cmp (swap_e es i ?mx) ?mx n) lo n"
      using m less(3-5) by (intro less(1)) auto
    with False show ?thesis by (subst heapify_e.simps) simp
  qed
qed

lemma build_e_heap:
  "heap_from cmp es (Suc i) n \<Longrightarrow> n \<le> length es \<Longrightarrow> heap_from cmp (build_e cmp es i n) 1 n"
proof (induction i arbitrary: es)
  case (Suc i)
  have "heap_but cmp es (Suc i) n (Suc i)"
    using Suc.prems(1) by (auto simp: heap_but_def heap_from_def)
  then have "heap_from cmp (heapify_e cmp es (Suc i) n) (Suc i) n"
    using Suc.prems(2) by (intro heapify_e_heap) auto
  with Suc show ?case by simp
qed simp

lemma heap_root_max:
  assumes "heap_from cmp es 1 n"
  shows "1 \<le> j \<Longrightarrow> j \<le> n \<Longrightarrow> cmp (es ! (j - 1)) (es ! 0) \<le> 0"
proof (induction j rule: less_induct)
  case (less j)
  show ?case
  proof (cases "j = 1")
    case False
    with less have "cmp (es ! (j - 1)) (es ! (j div 2 - 1)) \<le> 0" "cmp (es ! (j div 2 - 1)) (es ! 0) \<le> 0"
      using heap_fromD [OF assms, of j] less(1) [of "j div 2"] by auto
    then show ?thesis by (rule cmp_trans)
  qed (simp add: le_refl)
qed

lemma unheap_e_sorted:
  assumes "heap_from cmp es 1 i" "i \<le> length es" "sorted_wrt (\<lambda>x y. cmp x y \<le> 0) (drop i es)"
    and "\<forall>x \<in> set (take i es). \<forall>y \<in> set (drop i es). cmp x y \<le> 0"
  shows "sorted_wrt (\<lambda>x y. cmp x y \<le> 0) (unheap_e cmp es i) \<and> mset (unheap_e cmp es i) = mset es"
  using assms
proof (induction i arbitrary: es)
  case (Suc i)
  show ?case
  proof (cases "i = 0")
    case True
    obtain e r where es: "es = e # r" using Suc.prems(2) by (cases es) auto
    with True Suc.prems(3,4) show ?thesis by simp
  next
    case False
    let ?es1 = "swap_e es 1 (Suc i)"
    let ?es2 = "heapify_e cmp ?es1 1 i"
    have i: "i < length es" "0 < i" using Suc.prems(2) False by auto
    have nth: "?es1 ! k = (if k = i then es ! 0 else if k = 0 then es ! i else es ! k)" if "k < length es" for k
      using that swap_e_nth [of k es 1 "Suc i"] by simp
    have "heap_but cmp ?es1 1 i 1" unfolding heap_but_def
    proof (intro conjI allI impI, goal_cases)
      case (1 j)
      then have "?es1 ! (j - 1) = es ! (j - 1)" "?es1 ! (j div 2 - 1) = es ! (j div 2 - 1)"
        using i nth [of "j - 1"] nth [of "j div 2 - 1"] by auto
      then show ?case using heap_fromD [OF Suc.prems(1), of j] 1 by simp
    qed simp
    then have heap: "heap_from cmp ?es2 1 i" using i by (intro heapify_e_heap) auto
    have fr: "mset ?es2 = mset ?es1" "drop i ?es2 = drop i ?es1" "mset (take i ?es2) = mset (take i ?es1)"
      using heapify_e_frame [of 1 i ?es1 cmp] heapify_e_take [of 1 i ?es1 cmp] i by auto
    have "drop (Suc i) ?es1 = drop (Suc i) es" using i by (simp add: swap_e_def)
    then have d1: "drop i ?es1 = es ! 0 # drop (Suc i) es"
      using i nth [of i] by (simp add: Cons_nth_drop_Suc [symmetric])
    have root: "cmp x (es ! 0) \<le> 0" if x: "x \<in> set (take (Suc i) es)" for x
    proof -
      obtain k where "k < Suc i" "x = es ! k" using x i by (auto simp: in_set_conv_nth)
      then show ?thesis using heap_root_max [OF Suc.prems(1), of "Suc k"] by simp
    qed
    have sub: "set (take i ?es1) \<subseteq> set (take (Suc i) es)"
    proof
      fix x assume "x \<in> set (take i ?es1)"
      then obtain k where "k < i" "x = ?es1 ! k" using i by (auto simp: in_set_conv_nth)
      then have "x = es ! (if k = 0 then i else k)" using nth [of k] i by auto
      then show "x \<in> set (take (Suc i) es)" using i \<open>k < i\<close>
        by (auto simp: in_set_conv_nth intro!: exI [of _ "if k = 0 then i else k"])
    qed
    have set2: "set (take i ?es2) = set (take i ?es1)" using fr(3) by (rule mset_eq_setD)
    have hd_in: "es ! 0 \<in> set (take (Suc i) es)" using i by (cases es) auto
    have "sorted_wrt (\<lambda>x y. cmp x y \<le> 0) (drop i ?es2)"
      unfolding fr(2) d1 using Suc.prems(3,4) hd_in by simp
    moreover have "\<forall>x \<in> set (take i ?es2). \<forall>y \<in> set (drop i ?es2). cmp x y \<le> 0"
      unfolding set2 fr(2) d1 using sub root Suc.prems(4) by auto
    moreover have "i \<le> length ?es2" using i by simp
    ultimately have "sorted_wrt (\<lambda>x y. cmp x y \<le> 0) (unheap_e cmp ?es2 i) \<and> mset (unheap_e cmp ?es2 i) = mset ?es2"
      using heap by (intro Suc.IH)
    then show ?thesis using False fr(1) mset_swap_e [of 1 es "Suc i"] i by simp
  qed
qed simp

lemma lt_le_trans: "cmp x y < 0 \<Longrightarrow> cmp y z \<le> 0 \<Longrightarrow> cmp x z < 0"
  using cmp_swap [of x z] cmp_swap [of y x] cmp_swap [of z x] cmp_trans [of y z x] by linarith

lemma gt_ge_trans: "cmp x y > 0 \<Longrightarrow> cmp z y \<le> 0 \<Longrightarrow> cmp x z > 0"
  using cmp_swap [of x z] cmp_swap [of x y] lt_le_trans [of y x z] cmp_trans [of x z y] by linarith

end

locale byte_order = strcmp_order cmp for cmp :: compare_fn
begin

lemma sort_sorts:
  assumes "elems sz array es" "0 < sz"
  shows "\<exists>array' es'. sort_c array (length es) sz cmp = Some array' \<and> elems sz array' es' \<and>
    mset es' = mset es \<and> sorted_wrt (\<lambda>x y. cmp x y \<le> 0) es'"
proof -
  let ?n = "length es"
  let ?es1 = "build_e cmp es (?n div 2) ?n"
  obtain a1 where a1: "build_heap array (?n div 2) ?n sz cmp = Some a1" "elems sz a1 ?es1"
    using build_heap_elems [OF assms(1), of "?n div 2" ?n cmp] by auto
  have fr: "mset ?es1 = mset es" "length ?es1 = ?n" using build_e_frame [of "?n div 2" ?n es cmp] by auto
  obtain a2 where a2: "sort_heap a1 ?n sz cmp = Some a2" "elems sz a2 (unheap_e cmp ?es1 ?n)"
    using sort_heap_elems [OF a1(2), of ?n cmp] fr(2) by auto
  have "heap_from cmp es (Suc (?n div 2)) ?n" unfolding heap_from_def
    using div_le_mono [of _ ?n 2] by fastforce
  then have "heap_from cmp ?es1 1 ?n" by (rule build_e_heap) simp
  then have "sorted_wrt (\<lambda>x y. cmp x y \<le> 0) (unheap_e cmp ?es1 ?n) \<and> mset (unheap_e cmp ?es1 ?n) = mset ?es1"
    by (rule unheap_e_sorted) (simp_all add: fr(2))
  with a1(1) a2 fr(1) assms(2) show ?thesis by (auto simp: sort_c_def)
qed

lemma bsearch_loop_elems:
  assumes "elems sz array es" "0 < sz" "sorted_wrt (\<lambda>x y. cmp x y \<le> 0) es"
  shows "a \<le> b \<Longrightarrow> b \<le> length es \<Longrightarrow> (\<forall>k < a. cmp key (es ! k) > 0) \<Longrightarrow>
    (\<forall>k. b \<le> k \<and> k < length es \<longrightarrow> cmp key (es ! k) < 0) \<Longrightarrow>
    \<exists>r. bsearch_loop key array (a * sz) (b * sz) sz cmp = Some r \<and>
      (case r of None \<Rightarrow> \<forall>e \<in> set es. cmp key e \<noteq> 0
       | Some p \<Rightarrow> \<exists>k < length es. p = k * sz \<and> cmp key (es ! k) = 0)"
proof (induction "b - a" arbitrary: a b rule: less_induct)
  case less
  show ?case
  proof (cases "a < b")
    case False
    have "cmp key e \<noteq> 0" if e: "e \<in> set es" for e
    proof -
      obtain k where "k < length es" "e = es ! k" using e by (auto simp: in_set_conv_nth)
      then have "cmp key e > 0 \<or> cmp key e < 0"
        using less(4) less(5) [rule_format, of k] False by (cases "k < a") auto
      then show ?thesis by linarith
    qed
    with False show ?thesis by (subst bsearch_loop.simps) simp
  next
    case True
    let ?mid = "a + (b - a) div 2"
    have mid: "a \<le> ?mid" "?mid < b" "?mid < length es" using True less(3) by auto
    have range: "(b * sz - a * sz) div sz = b - a"
      using assms(2) by (simp flip: diff_mult_distrib)
    have ofs: "a * sz + (b - a) div 2 * sz = ?mid * sz" by (simp add: add_mult_distrib)
    have le: "cmp (es ! i) (es ! j) \<le> 0" if "i \<le> j" "j < length es" for i j
      using that sorted_wrt_nth_less [OF assms(3), of i j] le_refl by (cases "i = j") auto
    have unf: "bsearch_loop key array (a * sz) (b * sz) sz cmp =
       (if cmp key (es ! ?mid) < 0 then bsearch_loop key array (a * sz) (?mid * sz) sz cmp
        else if cmp key (es ! ?mid) > 0 then bsearch_loop key array (Suc ?mid * sz) (b * sz) sz cmp
        else Some (Some (?mid * sz)))"
      using True assms(2)
      by (subst bsearch_loop.simps)
        (simp add: range ofs elem_at_elems [OF assms(1) mid(3)] add.commute [of sz])
    consider "cmp key (es ! ?mid) < 0" | "cmp key (es ! ?mid) > 0" | "cmp key (es ! ?mid) = 0" by linarith
    then show ?thesis
    proof cases
      case 1
      have "\<forall>k. ?mid \<le> k \<and> k < length es \<longrightarrow> cmp key (es ! k) < 0"
        using lt_le_trans [OF 1] le by blast
      then show ?thesis unfolding unf using 1 mid less(1) [of ?mid a] less(4) by auto
    next
      case 2
      have "\<forall>k < Suc ?mid. cmp key (es ! k) > 0"
        using gt_ge_trans [OF 2] le mid by (meson less_Suc_eq_le)
      then show ?thesis unfolding unf using 2 mid less(1) [of b "Suc ?mid"] less(3,5) by auto
    next
      case 3
      then show ?thesis unfolding unf using mid by auto
    qed
  qed
qed

lemma binary_search_finds:
  assumes "elems sz array es" "0 < sz" "sorted_wrt (\<lambda>x y. cmp x y \<le> 0) es"
  shows "\<exists>r. binary_search key array (length es) sz cmp = Some r \<and>
      (case r of None \<Rightarrow> \<forall>e \<in> set es. cmp key e \<noteq> 0
       | Some p \<Rightarrow> \<exists>k < length es. p = k * sz \<and> cmp key (es ! k) = 0)"
  using bsearch_loop_elems [OF assms, of 0 "length es" key]
  by (simp add: binary_search_def mult.commute)

end

section \<open>The comparison of byte strings is such an order\<close>

lemma cmp_bytes_trans: "cmp_bytes xs ys \<le> 0 \<Longrightarrow> cmp_bytes ys zs \<le> 0 \<Longrightarrow> cmp_bytes xs zs \<le> 0"
proof (induction xs ys arbitrary: zs rule: cmp_bytes.induct)
  case (2 y ys)
  then show ?case by (cases zs) auto
next
  case (4 x xs y ys)
  then show ?case by (cases zs) (auto split: if_splits)
qed (auto split: if_splits)

interpretation lex: byte_order cmp_bytes
proof
  show "(0 < cmp_bytes x y) = (cmp_bytes y x < 0)" for x y
    using cmp_bytes_swap [of x y] by linarith
qed (rule cmp_bytes_trans)

text \<open>
  C32: \<open>sort\<close>, given any comparison function with a strcmp()-type result, returns and leaves in
  the array a permutation of its elements in ascending order; no assertion fails and no access
  leaves the array.
\<close>

theorem sort_correct:
  assumes "byte_order compare" "elems sz array es" "0 < sz"
  shows "\<exists>array' es'. sort_c array (length es) sz compare = Some array' \<and> elems sz array' es' \<and>
    mset es' = mset es \<and> sorted_wrt (\<lambda>x y. compare x y \<le> 0) es'"
  by (rule byte_order.sort_sorts [OF assms])

theorem sort_correct_witness:
  "\<exists>array' es'. sort_c [3, 0, 1, 7, 2, 9] 3 2 cmp_bytes = Some array' \<and> elems 2 array' es' \<and>
    mset es' = {#[3, 0], [1, 7], [2, 9]#} \<and> sorted_wrt (\<lambda>x y. cmp_bytes x y \<le> 0) es'"
proof -
  have "elems 2 [3, 0, 1, 7, 2, 9] [[3, 0], [1, 7], [2, 9]]" by (simp add: elems_def)
  from sort_correct [OF lex.byte_order_axioms this] show ?thesis by (simp add: numeral_3_eq_3)
qed

text \<open>
  C33: \<open>binary_search\<close> on a sorted array always returns: a pointer to an element that compares
  equal to the key, or the null pointer exactly when no element does.
\<close>

theorem binary_search_correct:
  assumes "byte_order compare" "elems sz array es" "0 < sz" "sorted_wrt (\<lambda>x y. compare x y \<le> 0) es"
  shows "\<exists>r. binary_search key array (length es) sz compare = Some r \<and>
      (case r of None \<Rightarrow> \<forall>e \<in> set es. compare key e \<noteq> 0
       | Some p \<Rightarrow> \<exists>k < length es. p = k * sz \<and> compare key (es ! k) = 0)"
  by (rule byte_order.binary_search_finds [OF assms])

theorem binary_search_correct_witness:
  "\<exists>r. binary_search [5] [2, 5, 9] 3 1 cmp_bytes = Some r \<and>
      (case r of None \<Rightarrow> False | Some p \<Rightarrow> p < 3)"
proof -
  have e: "elems 1 [2, 5, 9] [[2], [5], [9]]" by (simp add: elems_def)
  have s: "sorted_wrt (\<lambda>x y. cmp_bytes x y \<le> 0) [[2], [5], [9]]" by simp
  from binary_search_correct [OF lex.byte_order_axioms e _ s, of "[5]"] show ?thesis
    by (auto simp: numeral_3_eq_3 split: option.splits)
qed

section \<open>atoi reads decimal numbers\<close>

definition digit_byte :: "byte \<Rightarrow> bool" where
  "digit_byte x = isdigit (sint x)"

fun dec_value :: "int \<Rightarrow> byte list \<Rightarrow> int" where
  "dec_value v [] = v"
| "dec_value v (x # xs) = dec_value (v * 10 + (sint x - 48)) xs"

lemma dec_value_mono: "\<forall>x \<in> set xs. digit_byte x \<Longrightarrow> 0 \<le> v \<Longrightarrow> v \<le> dec_value v xs"
proof (induction xs arbitrary: v)
  case (Cons x xs)
  have d: "48 \<le> sint x" using Cons.prems(1) by (simp add: digit_byte_def isdigit_def)
  then have "v \<le> v * 10 + (sint x - 48)" "0 \<le> v * 10 + (sint x - 48)" using Cons.prems(2) by auto
  with Cons.IH [of "v * 10 + (sint x - 48)"] Cons.prems(1) show ?case by simp
qed simp

lemma atoi_digits_value:
  "buf m s ds \<Longrightarrow> m (s + length ds) = Some t \<Longrightarrow> \<not> digit_byte t \<Longrightarrow> \<forall>x \<in> set ds. digit_byte x \<Longrightarrow>
     0 \<le> v \<Longrightarrow> v \<le> - INT_MIN \<Longrightarrow> atoi_digits m s (- v) = cint (- dec_value v ds)"
proof (induction ds arbitrary: s v)
  case Nil
  then show ?case
    by (subst atoi_digits.simps) (simp add: digit_byte_def cint_def INT_MAX_def)
next
  case (Cons x ds)
  let ?v = "v * 10 + (sint x - 48)"
  have d: "isdigit (sint x)" "48 \<le> sint x" using Cons.prems(4) by (simp_all add: digit_byte_def isdigit_def)
  have e: "- v * 10 - (sint x - 48) = - ?v" by simp
  show ?case
  proof (cases "?v \<le> - INT_MIN")
    case True
    have "atoi_digits m (Suc s) (- ?v) = cint (- dec_value ?v ds)"
      using Cons.prems d(2) True by (intro Cons.IH) auto
    moreover have "INT_MIN \<le> - v * 10" "- v * 10 \<le> INT_MAX" "INT_MIN \<le> - ?v" "- ?v \<le> INT_MAX"
      using True d(2) Cons.prems(5) by (auto simp: INT_MAX_def)
    ultimately show ?thesis using d(1) Cons.prems(1)
      by (subst atoi_digits.simps) (simp add: e del: mult_minus_left)
  next
    case False
    have "?v \<le> dec_value ?v ds" using Cons.prems(4,5) d(2) by (intro dec_value_mono) auto
    with False have "cint (- dec_value v (x # ds)) = None" by (simp add: cint_def)
    moreover have "\<not> INT_MIN \<le> - ?v" using False by simp
    ultimately show ?thesis using d(1) Cons.prems(1)
      by (subst atoi_digits.simps) (simp add: e del: mult_minus_left)
  qed
qed

lemma atoi_spaces_skip:
  "buf m s sp \<Longrightarrow> \<forall>x \<in> set sp. isspace (uint x) \<Longrightarrow> m (s + length sp) = Some t \<Longrightarrow> \<not> isspace (uint t) \<Longrightarrow>
     atoi_spaces m s = Some (s + length sp)"
  by (induction sp arbitrary: s) (subst atoi_spaces.simps, simp)+

lemma digit_byte_uint: "digit_byte x \<Longrightarrow> uint x = sint x \<and> 48 \<le> uint x"
proof -
  assume "digit_byte x"
  then have d: "48 \<le> sint x" "sint x \<le> 57" by (auto simp: digit_byte_def isdigit_def)
  have "uint x = take_bit LENGTH(8) (sint x)" by (rule uint_sint)
  also have "\<dots> = sint x" using d by (simp add: take_bit_eq_mod)
  finally show ?thesis using d by simp
qed

lemma digit_byte_not:
  assumes "digit_byte x"
  shows "\<not> isspace (uint x)" "x \<noteq> 43" "x \<noteq> 45"
  using digit_byte_uint [OF assms] by (auto simp: isspace_def)

lemma atoi_decimal:
  assumes "buf m s (sp @ sg @ ds @ [t])" "s \<noteq> NULL"
    and "\<forall>x \<in> set sp. isspace (uint x)" "sg \<in> {[], [43], [45]}"
    and "ds \<noteq> []" "\<forall>x \<in> set ds. digit_byte x" "\<not> digit_byte t"
  shows "atoi m s = (if sg = [45] then cint (- dec_value 0 ds) else cint (dec_value 0 ds))"
proof -
  let ?p = "s + length sp"
  let ?q = "?p + length sg"
  have b: "buf m s sp" "buf m ?p sg" "buf m ?q ds" "m (?q + length ds) = Some t"
    using assms(1) by (simp_all add: buf_append)
  obtain d ds' where ds: "ds = d # ds'" using assms(5) by (cases ds) auto
  have d: "m ?q = Some d" "digit_byte d" using b(3) ds assms(6) by auto
  have dg: "atoi_digits m ?q 0 = cint (- dec_value 0 ds)"
    using atoi_digits_value [OF b(3,4) assms(7,6), of 0] by (simp add: INT_MIN_def)
  have v: "0 \<le> dec_value 0 ds" using dec_value_mono [OF assms(6), of 0] by simp
  obtain c where c: "m ?p = Some c" "\<not> isspace (uint c)" "c = (if sg = [] then d else hd sg)"
    using assms(4) b(2) d digit_byte_not(1) [OF d(2)] by (auto simp: isspace_def)
  have sp: "atoi_spaces m s = Some ?p" by (rule atoi_spaces_skip [OF b(1) assms(3) c(1,2)])
  have neg: "cint (- dec_value 0 ds) \<bind> (\<lambda>v. cint (- v)) = cint (dec_value 0 ds)"
    using v by (auto simp: cint_def INT_MIN_def INT_MAX_def)
  show ?thesis
    using assms(2,4) sp c dg digit_byte_not(2,3) [OF d(2)] neg
    by (auto simp: atoi_def simp del: bind_cint)
qed

text \<open>
  C34: \<open>atoi\<close> skips white space, accepts one sign and returns the value of the decimal digits that
  follow, for every \<open>int\<close> including the least one; a number outside the range of \<open>int\<close> overflows.
\<close>

theorem atoi_correct:
  assumes "buf m s (sp @ sg @ ds @ [t])" "s \<noteq> NULL"
    and "\<forall>x \<in> set sp. isspace (uint x)" "sg \<in> {[], [43], [45]}"
    and "ds \<noteq> []" "\<forall>x \<in> set ds. digit_byte x" "\<not> digit_byte t"
  shows "atoi m s = (if sg = [45] then cint (- dec_value 0 ds) else cint (dec_value 0 ds))"
  using assms by (rule atoi_decimal)

theorem atoi_correct_witness:
  "atoi (demo_mem 1 [32, 45, 52, 50, 0]) 1 = Some (-42)"
proof -
  have "atoi (demo_mem 1 [32, 45, 52, 50, 0]) 1 =
      (if [45 :: byte] = [45] then cint (- dec_value 0 [52, 50]) else cint (dec_value 0 [52, 50]))"
    by (rule atoi_correct [of _ 1 "[32]" "[45]" "[52, 50]" 0])
      (simp_all add: demo_mem_def put_def isspace_def digit_byte_def isdigit_def)
  then show ?thesis by (simp add: cint_def INT_MIN_def INT_MAX_def)
qed

end
