(* ===== verification/Stdio.thy ===== *)
theory Stdio
  imports Stdlib
begin

text \<open>
  Formatted output, \<open>lib/stdio.c\<close>.

  The functions that take an \<open>output\<close> callback return the characters they pass to it, in order;
  \<open>vsnprintf\<close> then runs its helper on each of them. A format is the character sequence of a
  terminated string (reading past the terminator gives \<open>None\<close>), and a variable argument list is
  a list of values of the widths the machine uses: 32 bits for \<open>int\<close>, \<open>long\<close>, \<open>size_t\<close>,
  \<open>ptrdiff_t\<close> and pointers, 64 bits for \<open>intmax_t\<close> and \<open>long long\<close>. Fetching an argument of
  another type than the one passed is undefined and gives \<open>None\<close>, as does signed overflow.
\<close>

section \<open>Characters, arguments, conversions\<close>

definition lit :: "string \<Rightarrow> byte list" where
  "lit s = map (\<lambda>c. of_nat (of_char c)) s"

datatype va = VInt u32 | VLong u64 | VStr "byte list option"

type_synonym va_list = "va list"

fun va_int :: "va_list \<Rightarrow> (u32 \<times> va_list) option" where
  "va_int (VInt w # args) = Some (w, args)"
| "va_int _ = None"

fun va_long :: "va_list \<Rightarrow> (u64 \<times> va_list) option" where
  "va_long (VLong w # args) = Some (w, args)"
| "va_long _ = None"

fun va_str :: "va_list \<Rightarrow> (byte list option \<times> va_list) option" where
  "va_str (VStr s # args) = Some (s, args)"
| "va_str _ = None"

definition MINUS :: u32 where "MINUS = 1"
definition PLUS :: u32 where "PLUS = 2"
definition SPACE :: u32 where "SPACE = 4"
definition POUND :: u32 where "POUND = 8"
definition ZERO :: u32 where "ZERO = 16"
definition GROUP :: u32 where "GROUP = 32"

lemmas flag_defs = MINUS_def PLUS_def SPACE_def POUND_def ZERO_def GROUP_def

datatype conv_type = CHAR_t | SHORT | INT_t | INTMAX | LONG | LONGLONG | PTRDIFFT | SIZET

record printf_conversion =
  cflags :: u32
  width :: int
  precision :: int
  ctype :: conv_type

record integer_base =
  base :: nat
  digits :: "byte list"
  xchar :: byte
  group :: nat

definition base_d :: integer_base where
  "base_d = \<lparr>base = 10, digits = lit ''0123456789'', xchar = 0, group = 3\<rparr>"
definition base_o :: integer_base where
  "base_o = \<lparr>base = 8, digits = lit ''01234567'', xchar = 0, group = 3\<rparr>"
definition base_x :: integer_base where
  "base_x = \<lparr>base = 16, digits = lit ''0123456789abcdef'', xchar = 120, group = 4\<rparr>"
definition base_X :: integer_base where
  "base_X = \<lparr>base = 16, digits = lit ''0123456789ABCDEF'', xchar = 88, group = 4\<rparr>"

section \<open>Parsing a conversion\<close>

text \<open>The character at the current position; the terminator stands after the last one.\<close>

definition ch_at :: "byte list \<Rightarrow> byte" where
  "ch_at f = (case f of [] \<Rightarrow> 0 | c # _ \<Rightarrow> c)"

fun parse_flags :: "byte list \<Rightarrow> u32 \<Rightarrow> u32 \<times> byte list" where
  "parse_flags [] fl = (fl, [])"
| "parse_flags (c # f) fl =
     (if c = 45 then parse_flags f (fl OR MINUS)
      else if c = 43 then parse_flags f (fl OR PLUS)
      else if c = 32 then parse_flags f (fl OR SPACE)
      else if c = 35 then parse_flags f (fl OR POUND)
      else if c = 48 then parse_flags f (fl OR ZERO)
      else if c = 39 then parse_flags f (fl OR GROUP)
      else (fl, c # f))"

fun parse_number :: "byte list \<Rightarrow> int \<Rightarrow> (int \<times> byte list) option" where
  "parse_number [] v = Some (v, [])"
| "parse_number (c # f) v =
     (if isdigit (sint c) then do {
        t \<leftarrow> cint (v * 10);
        t \<leftarrow> cint (t + sint c);
        v \<leftarrow> cint (t - 48);
        parse_number f v }
      else Some (v, c # f))"

definition parse_width :: "byte list \<Rightarrow> u32 \<Rightarrow> va_list \<Rightarrow> (int \<times> u32 \<times> byte list \<times> va_list) option" where
  "parse_width f fl args = do {
     (w, f, args) \<leftarrow> (if ch_at f = 42 then do { (x, args) \<leftarrow> va_int args; Some (sint x, tl f, args) }
                       else do { (w, f) \<leftarrow> parse_number f 0; Some (w, f, args) });
     if w < 0 then do { w \<leftarrow> cint (- w); Some (w, fl OR MINUS, f, args) }
     else Some (w, fl, f, args) }"

definition parse_precision :: "byte list \<Rightarrow> va_list \<Rightarrow> (int \<times> byte list \<times> va_list) option" where
  "parse_precision f args =
     (if ch_at f = 46 then do {
        let f = tl f;
        (p, f, args) \<leftarrow> (if ch_at f = 42 then do { (x, args) \<leftarrow> va_int args; Some (sint x, tl f, args) }
                          else do { (p, f) \<leftarrow> parse_number f 0; Some (p, f, args) });
        Some (if p < 0 then -1 else p, f, args) }
      else Some (-1, f, args))"

fun parse_type :: "byte list \<Rightarrow> conv_type \<times> byte list" where
  "parse_type f =
     (if ch_at f = 104 then (if ch_at (tl f) = 104 then (CHAR_t, tl (tl f)) else (SHORT, tl f))
      else if ch_at f = 106 then (INTMAX, tl f)
      else if ch_at f = 108 then (if ch_at (tl f) = 108 then (LONGLONG, tl (tl f)) else (LONG, tl f))
      else if ch_at f = 116 then (PTRDIFFT, tl f)
      else if ch_at f = 122 then (SIZET, tl f)
      else (INT_t, f))"

definition parse_conversion ::
  "byte list \<Rightarrow> va_list \<Rightarrow> (printf_conversion \<times> byte list \<times> va_list) option" where
  "parse_conversion f args = do {
     let (fl, f) = parse_flags f 0;
     let fl = (if fl AND MINUS \<noteq> 0 then fl AND NOT ZERO else fl);
     let fl = (if fl AND PLUS \<noteq> 0 then fl AND NOT SPACE else fl);
     (w, fl, f, args) \<leftarrow> parse_width f fl args;
     (p, f, args) \<leftarrow> parse_precision f args;
     let fl = (if p \<ge> 0 then fl AND NOT ZERO else fl);
     let (ty, f) = parse_type f;
     Some (\<lparr>cflags = fl, width = w, precision = p, ctype = ty\<rparr>, f, args) }"

section \<open>Conversions\<close>

definition output_dup :: "byte \<Rightarrow> nat \<Rightarrow> byte list" where
  "output_dup ch cnt = replicate cnt ch"

text \<open>
  The local buffer of \<open>format_integer\<close> has 64 bytes; \<open>push\<close> is \<open>*cp++ = ch\<close>. The list holds
  the bytes from \<open>buf\<close> up to \<open>cp\<close>.
\<close>

definition push :: "byte list \<Rightarrow> byte \<Rightarrow> byte list option" where
  "push bf ch = (if length bf < 64 then Some (bf @ [ch]) else None)"

partial_function (option) digit_loop ::
  "bool \<Rightarrow> integer_base \<Rightarrow> nat \<Rightarrow> nat \<Rightarrow> byte list \<Rightarrow> byte list option" where
  [code]: "digit_loop grp b value digit_cnt bf =
     (if value > 0 then do {
        bf \<leftarrow> (if grp \<and> digit_cnt > 0 \<and> digit_cnt mod group b = 0 then push bf 44 else Some bf);
        bf \<leftarrow> push bf (digits b ! (value mod base b));
        digit_loop grp b (value div base b) (digit_cnt + 1) bf }
      else Some bf)"

function zero_loop :: "int \<Rightarrow> byte list \<Rightarrow> byte list option" where
  "zero_loop prec bf =
     (if int (length bf) < prec \<and> length bf < 64 - 1 then do {
        bf' \<leftarrow> push bf 48;
        zero_loop prec bf' }
      else Some bf)"
  by pat_completeness auto
termination
  by (relation "measure (\<lambda>(p, bf). 64 - length bf)") (auto simp: push_def split: if_splits)

declare zero_loop.simps [simp del]

definition sign_char :: "bool \<Rightarrow> bool \<Rightarrow> u32 \<Rightarrow> byte" where
  "sign_char is_signed negative fl =
     (if is_signed then
        (if fl AND PLUS \<noteq> 0 then (if negative then 45 else 43)
         else if fl AND SPACE \<noteq> 0 then (if negative then 45 else 32)
         else if negative then 45 else 0)
      else 0)"

definition format_integer ::
  "u64 \<Rightarrow> bool \<Rightarrow> bool \<Rightarrow> integer_base \<Rightarrow> printf_conversion \<Rightarrow> byte list option" where
  "format_integer value is_signed negative b c = do {
     let sign = sign_char is_signed negative (cflags c);
     let x = (if cflags c AND POUND \<noteq> 0 \<and> value \<noteq> 0 then xchar b else 0);
     bf \<leftarrow> digit_loop (cflags c AND GROUP \<noteq> 0) b (unat value) 0 [];
     let prec = (if precision c < 0 then 1 else precision c);
     bf \<leftarrow> zero_loop prec bf;
     bf \<leftarrow> (if cflags c AND POUND \<noteq> 0 \<and> base b = 8 \<and> (bf = [] \<or> last bf \<noteq> 48) then push bf 48 else Some bf);
     let pad_cnt = nat (width c - int (length bf) - (if x \<noteq> 0 then 2 else 0) - (if sign \<noteq> 0 then 1 else 0));
     Some ((if cflags c AND (MINUS OR ZERO) = 0 then output_dup 32 pad_cnt else []) @
           (if sign \<noteq> 0 then [sign] else []) @
           (if x \<noteq> 0 then [48, x] else []) @
           (if cflags c AND ZERO \<noteq> 0 then output_dup 48 pad_cnt else []) @
           rev bf @
           (if cflags c AND MINUS \<noteq> 0 then output_dup 32 pad_cnt else [])) }"

definition format_string :: "byte list \<Rightarrow> nat \<Rightarrow> printf_conversion \<Rightarrow> byte list" where
  "format_string s len c =
     (if width c > int len \<and> cflags c AND MINUS = 0 then output_dup 32 (nat (width c - int len)) else []) @
     take len s @
     (if width c > int len \<and> cflags c AND MINUS \<noteq> 0 then output_dup 32 (nat (width c - int len)) else [])"

text \<open>The value of a signed and of an unsigned argument of the given type.\<close>

fun signed_arg :: "conv_type \<Rightarrow> va_list \<Rightarrow> (int \<times> va_list) option" where
  "signed_arg CHAR_t args = do { (w, args) \<leftarrow> va_int args; Some (sint (ucast w :: 8 word), args) }"
| "signed_arg SHORT args = do { (w, args) \<leftarrow> va_int args; Some (sint (ucast w :: 16 word), args) }"
| "signed_arg INTMAX args = do { (w, args) \<leftarrow> va_long args; Some (sint w, args) }"
| "signed_arg LONGLONG args = do { (w, args) \<leftarrow> va_long args; Some (sint w, args) }"
| "signed_arg SIZET args = do {
     (w, args) \<leftarrow> va_int args;
     Some (if uint w > 2147483647 then uint w - 4294967295 - 1 else uint w, args) }"
| "signed_arg _ args = do { (w, args) \<leftarrow> va_int args; Some (sint w, args) }"

fun unsigned_arg :: "conv_type \<Rightarrow> va_list \<Rightarrow> (u64 \<times> va_list) option" where
  "unsigned_arg CHAR_t args = do { (w, args) \<leftarrow> va_int args; Some (ucast (ucast w :: 8 word), args) }"
| "unsigned_arg SHORT args = do { (w, args) \<leftarrow> va_int args; Some (ucast (ucast w :: 16 word), args) }"
| "unsigned_arg INTMAX args = va_long args"
| "unsigned_arg LONGLONG args = va_long args"
| "unsigned_arg PTRDIFFT args = do { (w, args) \<leftarrow> va_int args; Some (scast w AND 4294967295, args) }"
| "unsigned_arg _ args = do { (w, args) \<leftarrow> va_int args; Some (ucast w, args) }"

definition format_signed :: "printf_conversion \<Rightarrow> va_list \<Rightarrow> (byte list \<times> va_list) option" where
  "format_signed c args = do {
     (v, args) \<leftarrow> signed_arg (ctype c) args;
     assert_c (v \<noteq> -9223372036854775808);
     out \<leftarrow> format_integer (word_of_int (if v < 0 then - v else v)) True (v < 0) base_d c;
     Some (out, args) }"

definition format_unsigned :: "byte \<Rightarrow> printf_conversion \<Rightarrow> va_list \<Rightarrow> (byte list \<times> va_list) option" where
  "format_unsigned ch c args = do {
     (v, args) \<leftarrow> unsigned_arg (ctype c) args;
     let b = (if ch = 111 then base_o else if ch = 117 then base_d else if ch = 120 then base_x else base_X);
     out \<leftarrow> format_integer v False False b c;
     Some (out, args) }"

text \<open>
  One conversion, from the character after the percent sign. \<open>bad\<close> stands for the nested call
  of \<open>__printf\<close> for conversions that are not supported.
\<close>

definition convert ::
  "(byte list \<Rightarrow> va_list \<Rightarrow> byte list option) \<Rightarrow> byte \<Rightarrow> printf_conversion \<Rightarrow> va_list \<Rightarrow>
   (byte list \<times> va_list) option" where
  "convert bad ch c args =
     (if ch = 100 \<or> ch = 105 then format_signed c args
      else if ch = 111 \<or> ch = 117 \<or> ch = 120 \<or> ch = 88 then format_unsigned ch c args
      else if ch = 99 then do {
        (w, args) \<leftarrow> va_int args;
        Some (format_string [ucast w] 1 c, args) }
      else if ch = 115 then do {
        (s, args) \<leftarrow> va_str args;
        let s = (case s of None \<Rightarrow> lit ''(null)'' | Some s \<Rightarrow> s);
        let maxlen = (if precision c < 0 then SIZE_MAX else nat (precision c));
        Some (format_string s (min (length s) maxlen) c, args) }
      else if ch = 112 then do {
        (w, args) \<leftarrow> va_int args;
        out \<leftarrow> format_integer (ucast w) False False base_x (c\<lparr>cflags := POUND\<rparr>);
        Some (out, args) }
      else if ch \<in> {102, 101, 69, 103, 71, 110} then do {
        out \<leftarrow> bad (lit ''<<no %%%c in kernel>>'') [VInt (scast ch)];
        Some (out, args) }
      else do {
        out \<leftarrow> bad (lit ''<<no %%%c conversion>>'') [VInt (scast ch)];
        Some (out, args) })"

section \<open>The loop over the format\<close>

lemma parse_flags_len: "parse_flags f fl = (fl', f') \<Longrightarrow> length f' \<le> length f"
  by (induction f fl rule: parse_flags.induct) (auto split: if_splits)

lemma parse_number_len: "parse_number f v = Some (w, f') \<Longrightarrow> length f' \<le> length f"
  by (induction f v rule: parse_number.induct) (auto simp: ret_iff split: if_splits)

lemma parse_type_len: "parse_type f = (ty, f') \<Longrightarrow> length f' \<le> length f"
  by (auto split: if_splits)

lemma parse_width_len: "parse_width f fl args = Some (w, fl', f', args') \<Longrightarrow> length f' \<le> length f"
  by (auto simp: parse_width_def ret_iff split: if_splits prod.splits dest!: parse_number_len)

lemma parse_precision_len: "parse_precision f args = Some (p, f', args') \<Longrightarrow> length f' \<le> length f"
  by (auto simp: parse_precision_def Let_def ret_iff split: if_splits prod.splits dest!: parse_number_len)

lemma parse_conversion_len: "parse_conversion f args = Some (c, f', args') \<Longrightarrow> length f' \<le> length f"
proof -
  assume pc: "parse_conversion f args = Some (c, f', args')"
  obtain fl f1 where 1: "parse_flags f 0 = (fl, f1)" by (cases "parse_flags f 0")
  from pc 1 obtain fl' w fl2 f2 a2 p f3 where
      2: "parse_width f1 fl' args = Some (w, fl2, f2, a2)" and
      3: "parse_precision f2 a2 = Some (p, f3, args')" and 4: "snd (parse_type f3) = f'"
    by (auto simp: parse_conversion_def Let_def ret_iff split_def simp del: parse_type.simps)
  have "length f' \<le> length f3" using parse_type_len [of f3 "fst (parse_type f3)" f'] 4
    by (metis prod.collapse)
  with parse_flags_len [OF 1] parse_width_len [OF 2] parse_precision_len [OF 3] show ?thesis by simp
qed

text \<open>
  \<open>format++\<close> at the end of the loop body must not step over the terminator: a format that ends
  inside a conversion does.
\<close>

function vprintf_with ::
  "(byte list \<Rightarrow> va_list \<Rightarrow> byte list option) \<Rightarrow> byte list \<Rightarrow> va_list \<Rightarrow> byte list option" where
  "vprintf_with bad [] args = Some []"
| "vprintf_with bad (ch # f) args =
     (if ch \<noteq> 37 then do { out \<leftarrow> vprintf_with bad f args; Some (ch # out) }
      else if ch_at f = 37 then do { out \<leftarrow> vprintf_with bad (tl f) args; Some (37 # out) }
      else case parse_conversion f args of
        None \<Rightarrow> None
      | Some (c, f', args) \<Rightarrow> do {
          (out, args) \<leftarrow> convert bad (ch_at f') c args;
          assert_c (f' \<noteq> []);
          rest \<leftarrow> vprintf_with bad (tl f') args;
          Some (out @ rest) })"
  by pat_completeness auto
termination
  by (relation "measure (\<lambda>(bad, f, args). length f)") (auto dest!: parse_conversion_len)

text \<open>
  The formats of the nested calls have only the conversions \<open>%%\<close> and \<open>%c\<close>, so the nesting has
  depth one; \<open>vprintf_unfold\<close> below shows that two levels are the recursion of the source.
\<close>

definition vprintf_nested :: "byte list \<Rightarrow> va_list \<Rightarrow> byte list option" where
  "vprintf_nested = vprintf_with (\<lambda>f args. None)"

definition vprintf_out :: "byte list \<Rightarrow> va_list \<Rightarrow> byte list option" where
  "vprintf_out = vprintf_with vprintf_nested"

section \<open>Output to a buffer\<close>

record vsnprintf_aux =
  out_p :: addr
  out_length :: int
  max_length :: int

definition vsnprintf_helper :: "byte \<Rightarrow> mem \<times> vsnprintf_aux \<Rightarrow> (mem \<times> vsnprintf_aux) option" where
  "vsnprintf_helper ch = (\<lambda>(m, aux). do {
     let room = (out_length aux < max_length aux);
     n \<leftarrow> cint (out_length aux + 1);
     let aux = aux\<lparr>out_length := n\<rparr>;
     if room then do {
       m \<leftarrow> st m (out_p aux) ch;
       Some (m, aux\<lparr>out_p := out_p aux + 1\<rparr>) }
     else Some (m, aux) })"

text \<open>The callback is run on each output character.\<close>

definition vsnprintf :: "mem \<Rightarrow> addr \<Rightarrow> nat \<Rightarrow> byte list \<Rightarrow> va_list \<Rightarrow> (mem \<times> int) option" where
  "vsnprintf m bf buf_size format args = do {
     let aux = \<lparr>out_p = bf, out_length = 0,
                max_length = (if buf_size > 0 then sint (of_nat (buf_size - 1) :: u32) else 0)\<rparr>;
     out \<leftarrow> vprintf_out format args;
     (m, aux) \<leftarrow> push_all vsnprintf_helper out (m, aux);
     m \<leftarrow> (if buf_size > 0 then st m (out_p aux) 0 else Some m);
     Some (m, out_length aux) }"

definition snprintf :: "mem \<Rightarrow> addr \<Rightarrow> nat \<Rightarrow> byte list \<Rightarrow> va_list \<Rightarrow> (mem \<times> int) option" where
  "snprintf m bf buf_size format args = vsnprintf m bf buf_size format args"

section \<open>Dumps and sizes on the console\<close>

text \<open>The characters that \<open>printf\<close> sends to the console.\<close>

definition printf_out :: "byte list \<Rightarrow> va_list \<Rightarrow> byte list option" where
  "printf_out format args = vprintf_out format args"

definition hex_byte :: "byte \<Rightarrow> nat \<Rightarrow> byte list option" where
  "hex_byte x i = printf_out (lit ''%02hhx%c'') [VInt (ucast x), VInt (if i = 16 div 2 - 1 then 45 else 32)]"

fun hex_bytes :: "byte list \<Rightarrow> nat \<Rightarrow> byte list option" where
  "hex_bytes [] i = Some []"
| "hex_bytes (x # xs) i = do { a \<leftarrow> hex_byte x i; b \<leftarrow> hex_bytes xs (i + 1); Some (a @ b) }"

definition dump_char :: "byte \<Rightarrow> byte" where
  "dump_char x = (if isprint (uint x) then x else 46)"

text \<open>One line: the offset, the bytes of this line at their columns, optionally the characters.\<close>

definition hex_line :: "u32 \<Rightarrow> byte list \<Rightarrow> nat \<Rightarrow> bool \<Rightarrow> byte list option" where
  "hex_line ofs xs start ascii = do {
     a \<leftarrow> printf_out (lit ''%08jx  '') [VLong (ucast (ofs - ofs mod 16))];
     b \<leftarrow> hex_bytes xs start;
     let fin = start + length xs;
     Some (a @ replicate (3 * start) 32 @ b @
           (if ascii then replicate (3 * (16 - fin)) 32 @ [124] @ replicate start 32 @
              map dump_char xs @ replicate (16 - fin) 32 @ [124]
            else []) @ [10]) }"

function hex_dump :: "u32 \<Rightarrow> byte list \<Rightarrow> bool \<Rightarrow> byte list option" where
  "hex_dump ofs xs ascii =
     (if xs \<noteq> [] then do {
        let start = unat (ofs mod 16);
        let n = (if 16 - start > length xs then length xs else 16 - start);
        line \<leftarrow> hex_line ofs (take n xs) start ascii;
        rest \<leftarrow> hex_dump (ofs + of_nat n) (drop n xs) ascii;
        Some (line @ rest) }
      else Some [])"
  by pat_completeness auto
termination
proof (relation "measure (\<lambda>(ofs, xs, ascii). length xs)", goal_cases)
  case (2 ofs xs ascii start n line)
  have "unat (ofs mod 16) < 16" by (simp add: unat_mod)
  with 2 show ?case by auto
qed simp

declare hex_dump.simps [simp del]

fun size_factor :: "u64 \<Rightarrow> string list \<Rightarrow> u64 \<times> string" where
  "size_factor sz (f # g # fs) = (if sz \<ge> 1024 then size_factor (sz div 1024) (g # fs) else (sz, f))"
| "size_factor sz [f] = (sz, f)"
| "size_factor sz [] = (sz, [])"

definition print_human_readable_size :: "u64 \<Rightarrow> byte list option" where
  "print_human_readable_size sz =
     (if sz = 1 then printf_out (lit ''1 byte'') []
      else case size_factor sz [''bytes'', ''kB'', ''MB'', ''GB'', ''TB''] of
        (sz, f) \<Rightarrow> printf_out (lit ''%llu %s'') [VLong sz, VStr (Some (lit f))])"

section \<open>The digit buffer is large enough\<close>

definition good_base :: "integer_base \<Rightarrow> bool" where
  "good_base b \<longleftrightarrow> 8 \<le> base b \<and> length (digits b) = base b"

lemma good_bases [simp]: "good_base base_d" "good_base base_o" "good_base base_x" "good_base base_X"
  by (simp_all add: good_base_def base_d_def base_o_def base_x_def base_X_def lit_def)

lemma digit_loop_returns:
  assumes "8 \<le> base b"
  shows "v < 8 ^ k \<Longrightarrow> length bf + 2 * k \<le> 64 \<Longrightarrow>
    \<exists>bf'. digit_loop grp b v n bf = Some bf' \<and> length bf' \<le> length bf + 2 * k"
proof (induction k arbitrary: v n bf)
  case 0
  then show ?case by (subst digit_loop.simps) simp
next
  case (Suc k)
  show ?case
  proof (cases "v = 0")
    case True
    then show ?thesis by (subst digit_loop.simps) simp
  next
    case False
    obtain b1 where b1: "(if grp \<and> 0 < n \<and> n mod group b = 0 then push bf 44 else Some bf) = Some b1"
      "length b1 \<le> length bf + 1"
      using Suc.prems(2) by (cases "grp \<and> 0 < n \<and> n mod group b = 0") (auto simp: push_def)
    let ?b2 = "b1 @ [digits b ! (v mod base b)]"
    have b2: "push b1 (digits b ! (v mod base b)) = Some ?b2" "length ?b2 \<le> length bf + 2"
      using b1(2) Suc.prems(2) by (auto simp: push_def)
    have "v div base b \<le> v div 8" using assms by (intro div_le_mono2) auto
    also have "\<dots> < 8 ^ k" using Suc.prems(1) by (simp add: less_mult_imp_div_less mult.commute)
    finally obtain bf' where "digit_loop grp b (v div base b) (Suc n) ?b2 = Some bf'"
      "length bf' \<le> length ?b2 + 2 * k"
      using Suc.IH [of "v div base b" ?b2 "Suc n"] b2(2) Suc.prems(2) by auto
    with False b1(1) b2 show ?thesis by (subst digit_loop.simps) auto
  qed
qed

lemma zero_loop_returns:
  "length bf \<le> 63 \<Longrightarrow> \<exists>z. zero_loop p bf = Some (bf @ replicate z 48) \<and> length bf + z \<le> 63 \<and>
     (int (length bf) < p \<longrightarrow> p \<le> 63 \<longrightarrow> int (length bf + z) = p) \<and> (p \<le> int (length bf) \<longrightarrow> z = 0)"
proof (induction "63 - length bf" arbitrary: bf)
  case 0
  then show ?case by (intro exI [of _ 0]) (subst zero_loop.simps, auto)
next
  case (Suc d)
  show ?case
  proof (cases "int (length bf) < p")
    case True
    have "length bf < 63" using Suc.hyps(2) by simp
    with True have unf: "zero_loop p bf = zero_loop p (bf @ [48])"
      by (subst zero_loop.simps) (simp add: push_def)
    obtain z where z: "zero_loop p (bf @ [48]) = Some ((bf @ [48]) @ replicate z 48)" "length (bf @ [48]) + z \<le> 63"
      "int (length (bf @ [48])) < p \<longrightarrow> p \<le> 63 \<longrightarrow> int (length (bf @ [48]) + z) = p"
      "p \<le> int (length (bf @ [48])) \<longrightarrow> z = 0"
    proof -
      have "d = 63 - length (bf @ [48])" "length (bf @ [48]) \<le> 63" using Suc.hyps(2) by auto
      from Suc.hyps(1) [OF this] show thesis using that by blast
    qed
    show ?thesis using z True by (intro exI [of _ "Suc z"]) (auto simp: unf)
  next
    case False
    then show ?thesis using Suc.prems by (intro exI [of _ 0]) (subst zero_loop.simps, auto)
  qed
qed

lemma format_integer_returns:
  assumes "good_base b"
  shows "\<exists>out. format_integer v is_signed negative b c = Some out"
proof -
  let ?grp = "cflags c AND GROUP \<noteq> 0"
  let ?p = "if precision c < 0 then 1 else precision c"
  have "unat v < 18446744073709551616" by (rule unat_lt64)
  also have "\<dots> \<le> 8 ^ 22" by simp
  finally obtain b1 where b1: "digit_loop ?grp b (unat v) 0 [] = Some b1" "length b1 \<le> 44"
    using digit_loop_returns [of b "unat v" 22 "[]" ?grp 0] assms by (auto simp: good_base_def)
  obtain z where z: "zero_loop ?p b1 = Some (b1 @ replicate z 48)" "length b1 + z \<le> 63"
    using zero_loop_returns [of b1 ?p] b1(2) by auto
  have "push (b1 @ replicate z 48) 48 = Some ((b1 @ replicate z 48) @ [48])"
    using z(2) by (simp add: push_def)
  then show ?thesis using b1(1) z(1) by (auto simp: format_integer_def Let_def)
qed

text \<open>
  C37: \<open>format_integer\<close> never writes outside its 64-byte buffer and always returns, for every
  64-bit value, every base of the source, any flags, field width and precision.
\<close>

theorem format_integer_safe:
  "b \<in> {base_d, base_o, base_x, base_X} \<Longrightarrow> format_integer v is_signed negative b c \<noteq> None"
  using format_integer_returns [of b v is_signed negative c] by auto

theorem format_integer_safe_witness:
  "format_integer 18446744073709551615 False False base_o
     \<lparr>cflags = POUND OR GROUP, width = 0, precision = 1000, ctype = LONGLONG\<rparr> \<noteq> None"
  by (rule format_integer_safe) simp

section \<open>Bounded output\<close>

lemma sint_of_nat32: "k \<le> 2147483647 \<Longrightarrow> sint (of_nat k :: u32) = int k"
  by (simp add: signed_of_nat signed_take_bit_int_eq_self)

lemma push_all_helper:
  assumes "0 \<le> n" "n + int (length out) \<le> INT_MAX" "mapped m p (nat (mx - n))"
  shows "push_all vsnprintf_helper out (m, \<lparr>out_p = p, out_length = n, max_length = mx\<rparr>) =
    Some (put m p (take (nat (mx - n)) out),
      \<lparr>out_p = p + min (length out) (nat (mx - n)), out_length = n + int (length out), max_length = mx\<rparr>)"
  using assms
proof (induction out arbitrary: n p m)
  case (Cons ch out)
  have n: "INT_MIN \<le> n + 1" "n + 1 \<le> INT_MAX" using Cons.prems by (auto simp: INT_MIN_def)
  show ?case
  proof (cases "n < mx")
    case True
    then have k: "nat (mx - n) = Suc (nat (mx - (n + 1)))" by simp
    have mp: "m p \<noteq> None" "mapped (m(p \<mapsto> ch)) (Suc p) (nat (mx - (n + 1)))"
      using Cons.prems(3) unfolding k by (simp_all add: mapped_Suc mapped_upd)
    have h: "vsnprintf_helper ch (m, \<lparr>out_p = p, out_length = n, max_length = mx\<rparr>) =
        Some (m(p \<mapsto> ch), \<lparr>out_p = Suc p, out_length = n + 1, max_length = mx\<rparr>)"
      using True n mp(1) by (simp add: vsnprintf_helper_def st_Some)
    show ?thesis
      using Cons.IH [OF _ _ mp(2)] Cons.prems(1,2)
      by (simp add: h k put_Cons add.assoc del: fun_upd_apply)
  next
    case False
    then have h: "vsnprintf_helper ch (m, \<lparr>out_p = p, out_length = n, max_length = mx\<rparr>) =
        Some (m, \<lparr>out_p = p, out_length = n + 1, max_length = mx\<rparr>)"
      using n by (simp add: vsnprintf_helper_def)
    show ?thesis using Cons.IH [of "n + 1" m p] Cons.prems False by (simp add: h)
  qed
qed simp

lemma vsnprintf_bounded_out:
  assumes "vprintf_out format args = Some out" "int (length out) \<le> INT_MAX"
    and "0 < n" "n \<le> 2147483648" "mapped m bf n"
  shows "\<exists>m'. vsnprintf m bf n format args = Some (m', int (length out)) \<and>
    buf m' bf (take (n - 1) out @ [0]) \<and> (\<forall>a. a < bf \<or> bf + n \<le> a \<longrightarrow> m' a = m a)"
proof -
  obtain k where n: "n = Suc k" using assms(3) by (cases n) auto
  have mx: "sint (of_nat k :: u32) = int k" using assms(4) n by (intro sint_of_nat32) simp
  let ?o = "take k out"
  let ?m = "put m bf ?o"
  let ?p = "bf + length ?o"
  have "mapped m bf (nat (int k - 0))" by (rule mapped_mono [OF assms(5)]) (simp add: n)
  from push_all_helper [OF _ _ this, of out]
  have pa: "push_all vsnprintf_helper out (m, \<lparr>out_p = bf, out_length = 0, max_length = int k\<rparr>) =
      Some (?m, \<lparr>out_p = ?p, out_length = int (length out), max_length = int k\<rparr>)"
    using assms(2) by simp
  have "?m ?p \<noteq> None" using assms(5) n by (simp add: mapped_def)
  then have "vsnprintf m bf n format args = Some (?m(?p \<mapsto> 0), int (length out))"
    using assms(1) pa by (simp add: vsnprintf_def mx st_Some n del: of_nat_Suc)
  moreover have "buf (?m(?p \<mapsto> 0)) bf ?o = buf ?m bf ?o" by (rule buf_cong) simp
  ultimately show ?thesis using n
    by (intro exI [of _ "?m(?p \<mapsto> 0)"]) (auto simp: buf_append)
qed

text \<open>
  C38: \<open>vsnprintf\<close> never writes outside the \<open>buf_size\<close> bytes of its buffer: it stores the first
  \<open>buf_size - 1\<close> characters of the formatted output followed by a terminator, and returns the
  length the whole output has.
\<close>

theorem vsnprintf_bounded:
  assumes "vprintf_out format args = Some out" "int (length out) \<le> INT_MAX"
    and "0 < n" "n \<le> 2147483648" "mapped m bf n"
  shows "\<exists>m'. vsnprintf m bf n format args = Some (m', int (length out)) \<and>
    buf m' bf (take (n - 1) out @ [0]) \<and> (\<forall>a. a < bf \<or> bf + n \<le> a \<longrightarrow> m' a = m a)"
  using assms by (rule vsnprintf_bounded_out)

lemmas parse_defs = parse_conversion_def parse_width_def parse_precision_def ch_at_def isdigit_def flag_defs

lemma vprintf_literal: "37 \<notin> set f \<Longrightarrow> vprintf_with bad f args = Some f"
  by (induction f) auto

theorem vsnprintf_bounded_witness:
  "\<exists>m'. vsnprintf (demo_mem 1 [7, 7, 7, 7]) 1 3 (lit ''abcd'') [] = Some (m', 4) \<and>
    m' 1 = Some 97 \<and> m' 2 = Some 98 \<and> m' 3 = Some 0 \<and> m' 4 = Some 7"
proof -
  have l: "lit ''abcd'' = [97, 98, 99, 100]" by (simp add: lit_def)
  have v: "vprintf_out [97, 98, 99, 100] [] = Some [97, 98, 99, 100]"
    unfolding vprintf_out_def by (rule vprintf_literal) simp
  have "\<exists>m'. vsnprintf (demo_mem 1 [7, 7, 7, 7]) 1 3 [97, 98, 99, 100] [] =
      Some (m', int (length [97 :: byte, 98, 99, 100])) \<and>
      buf m' 1 (take (3 - 1) [97, 98, 99, 100] @ [0]) \<and>
      (\<forall>a. a < 1 \<or> 1 + 3 \<le> a \<longrightarrow> m' a = demo_mem 1 [7, 7, 7, 7] a)"
    by (rule vsnprintf_bounded [OF v]) (simp_all add: INT_MAX_def demo_mem_def put_def mapped_upt upt_rec)
  then obtain m' where m': "vsnprintf (demo_mem 1 [7, 7, 7, 7]) 1 3 [97, 98, 99, 100] [] = Some (m', 4)"
    "m' 1 = Some 97 \<and> m' 2 = Some 98 \<and> m' 3 = Some 0" "\<And>a. 4 \<le> a \<Longrightarrow> m' a = demo_mem 1 [7, 7, 7, 7] a"
    by (auto simp: numeral_2_eq_2 numeral_3_eq_3)
  have "m' 4 = Some 7" unfolding m'(3) [OF order_refl] by (simp add: demo_mem_def put_def)
  with m'(1,2) show ?thesis unfolding l by blast
qed

section \<open>Unsupported conversions and malformed formats\<close>

lemma nested_formats:
  "vprintf_with bad (lit ''<<no %%%c in kernel>>'') [VInt w] = vprintf_nested (lit ''<<no %%%c in kernel>>'') [VInt w]"
  "vprintf_with bad (lit ''<<no %%%c conversion>>'') [VInt w] = vprintf_nested (lit ''<<no %%%c conversion>>'') [VInt w]"
  by (simp_all add: vprintf_nested_def lit_def parse_defs convert_def)

lemma vprintf_with_cong:
  assumes "\<And>w. b1 (lit ''<<no %%%c in kernel>>'') [VInt w] = b2 (lit ''<<no %%%c in kernel>>'') [VInt w]"
    and "\<And>w. b1 (lit ''<<no %%%c conversion>>'') [VInt w] = b2 (lit ''<<no %%%c conversion>>'') [VInt w]"
  shows "vprintf_with b1 f args = vprintf_with b2 f args"
proof (induction f arbitrary: args rule: length_induct)
  case (1 f)
  have c: "convert b1 = convert b2" by (intro ext) (simp add: convert_def assms)
  show ?case
  proof (cases f)
    case (Cons ch f1)
    show ?thesis
    proof (cases "parse_conversion f1 args")
      case (Some r)
      obtain cv f2 a2 where r: "r = (cv, f2, a2)" by (cases r)
      have "length (tl f2) < length f" using parse_conversion_len [of f1 args cv f2 a2] Some r Cons by simp
      then have "vprintf_with b1 (tl f2) a = vprintf_with b2 (tl f2) a" for a using 1 by blast
      with 1 Cons Some r show ?thesis by (simp add: c)
    qed (use 1 Cons in simp)
  qed simp
qed

text \<open>Two levels of nesting are the recursion of the source.\<close>

lemma vprintf_unfold: "vprintf_out f args = vprintf_with vprintf_out f args"
  unfolding vprintf_out_def by (rule vprintf_with_cong) (simp_all only: nested_formats)



section \<open>Decimal output\<close>

fun digs :: "nat \<Rightarrow> byte list" where
  "digs v = (if v = 0 then [] else of_nat (48 + v mod 10) # digs (v div 10))"

declare digs.simps [simp del]

lemma base_d_digit: "k < 10 \<Longrightarrow> digits base_d ! k = of_nat (48 + k)"
proof -
  assume "k < 10"
  then have "k \<in> {0, 1, 2, 3, 4, 5, 6, 7, 8, 9}" by auto
  then show ?thesis by (auto simp: base_d_def lit_def)
qed

lemma digit_loop_digs:
  "length bf + length (digs v) \<le> 64 \<Longrightarrow> digit_loop False base_d v n bf = Some (bf @ digs v)"
proof (induction v arbitrary: n bf rule: digs.induct)
  case (1 v)
  show ?case
  proof (cases "v = 0")
    case True
    then show ?thesis by (subst digit_loop.simps) (simp add: digs.simps)
  next
    case False
    then have d: "digs v = of_nat (48 + v mod 10) # digs (v div 10)" by (simp add: digs.simps)
    have b: "base base_d = 10" by (simp add: base_d_def)
    have p: "push bf (digits base_d ! (v mod 10)) = Some (bf @ [of_nat (48 + v mod 10)])"
      using 1(2) d by (simp add: push_def base_d_digit)
    show ?thesis using False 1(1) [OF False, of "bf @ [of_nat (48 + v mod 10)]" "Suc n"] 1(2) d
      by (subst digit_loop.simps) (simp add: p b)
  qed
qed

lemma length_digs: "v < 10 ^ k \<Longrightarrow> length (digs v) \<le> k"
proof (induction k arbitrary: v)
  case 0
  then show ?case by (simp add: digs.simps)
next
  case (Suc k)
  then have "v div 10 < 10 ^ k" by (simp add: less_mult_imp_div_less mult.commute)
  from Suc.IH [OF this] show ?case by (subst digs.simps) simp
qed

lemma sint_digit: "k < 10 \<Longrightarrow> sint (of_nat (48 + k) :: byte) = 48 + int k"
  by (subst signed_of_nat) (simp add: signed_take_bit_int_eq_self)

lemma digs_digit: "x \<in> set (digs v) \<Longrightarrow> digit_byte x"
proof (induction v rule: digs.induct)
  case (1 v)
  have "digit_byte (of_nat (48 + v mod 10))"
    using sint_digit [of "v mod 10"] by (simp add: digit_byte_def isdigit_def del: of_nat_add)
  with 1 show ?case by (subst (asm) (2) digs.simps) (auto split: if_splits)
qed

lemma dec_value_append: "dec_value v (xs @ [x]) = dec_value v xs * 10 + (sint x - 48)"
  by (induction xs arbitrary: v) simp_all

lemma dec_value_digs: "dec_value 0 (rev (digs v)) = int v"
proof (induction v rule: digs.induct)
  case (1 v)
  show ?case
  proof (cases "v = 0")
    case False
    then have "dec_value 0 (rev (digs v)) = int (v div 10) * 10 + int (v mod 10)"
      using 1 by (subst digs.simps) (simp add: dec_value_append sint_digit del: of_nat_add)
    then show ?thesis by (simp add: zdiv_int zmod_int)
  qed (simp add: digs.simps)
qed

definition dec_string :: "nat \<Rightarrow> byte list" where
  "dec_string v = (if v = 0 then [48] else rev (digs v))"

lemma dec_string_props:
  "dec_string v \<noteq> []" "\<forall>x \<in> set (dec_string v). digit_byte x" "dec_value 0 (dec_string v) = int v"
proof -
  show "dec_string v \<noteq> []" by (simp add: dec_string_def) (simp add: digs.simps)
  show "\<forall>x \<in> set (dec_string v). digit_byte x"
    using digs_digit by (auto simp: dec_string_def) (simp add: digit_byte_def isdigit_def)
  show "dec_value 0 (dec_string v) = int v" by (simp add: dec_string_def dec_value_digs)
qed

lemma format_decimal:
  assumes "unat v < 10 ^ 20"
  shows "format_integer v True neg base_d \<lparr>cflags = 0, width = 0, precision = -1, ctype = ty\<rparr> =
    Some ((if neg then [45] else []) @ dec_string (unat v))"
proof -
  let ?d = "digs (unat v)"
  have len: "length ?d \<le> 20" by (rule length_digs [OF assms])
  have dl: "digit_loop False base_d (unat v) 0 [] = Some ?d"
    using digit_loop_digs [of "[]" "unat v" 0] len by simp
  have z: "zero_loop 1 ?d = Some (rev (dec_string (unat v)))"
  proof (cases "unat v = 0")
    case True
    have "zero_loop 1 [] = zero_loop 1 [48]" by (subst zero_loop.simps) (simp add: push_def)
    also have "\<dots> = Some [48]" by (subst zero_loop.simps) simp
    finally show ?thesis using True by (simp add: digs.simps dec_string_def)
  next
    case False
    then have "\<not> int (length ?d) < 1" by (subst digs.simps) simp
    with False show ?thesis by (subst zero_loop.simps) (simp only: simp_thms if_False dec_string_def rev_rev_ident)
  qed
  show ?thesis by (simp add: format_integer_def dl z sign_char_def output_dup_def)
qed

lemma vprintf_d:
  "vprintf_out (lit ''%d'') [VInt w] =
     Some ((if sint w < 0 then [45] else []) @ dec_string (nat \<bar>sint w\<bar>))"
proof -
  have rng: "- 2147483648 \<le> sint w" "sint w < 2147483648"
    using sint_greater_eq [of w] sint_less [of w] by auto
  have u: "unat (word_of_int (if sint w < 0 then - sint w else sint w) :: u64) = nat \<bar>sint w\<bar>"
    using rng by (auto simp: unat_eq_nat_uint unsigned_of_int take_bit_int_eq_self)
  have "unat (word_of_int (if sint w < 0 then - sint w else sint w) :: u64) < 10 ^ 20"
    unfolding u using rng by auto
  note f = format_decimal [OF this, of "sint w < 0" INT_t, unfolded u]
  have l: "lit ''%d'' = [37, 100]" by (simp add: lit_def)
  have pc: "parse_conversion [100] [VInt w] =
      Some (\<lparr>cflags = 0, width = 0, precision = -1, ctype = INT_t\<rparr>, [100], [VInt w])"
    by (simp add: parse_defs)
  have cv: "convert bad 100 \<lparr>cflags = 0, width = 0, precision = -1, ctype = INT_t\<rparr> [VInt w] =
      Some ((if sint w < 0 then [45] else []) @ dec_string (nat \<bar>sint w\<bar>), [])" for bad
    using rng by (simp only: convert_def simp_thms if_True format_signed_def printf_conversion.select_convs
        signed_arg.simps va_int.simps bind.bind_lunit prod.case) (simp add: f [simplified])
  show ?thesis unfolding vprintf_out_def l by (simp add: ch_at_def pc cv)
qed

end
