(* ===== verification/Threads.thy ===== *)
theory Threads
  imports Kernel_List
begin

text \<open>
  Kernel threads and the scheduler: \<open>threads/thread.c\<close>, in the configuration with
  \<open>USERPROG\<close> defined.

  A thread is the address of its page. The state \<open>kstate\<close> holds every \<open>struct thread\<close>, the
  run queue, the list of all threads, the semaphores, locks and condition variables by address,
  and the timer's list of sleeping threads. Lists of threads are the sequences their links
  form (\<open>Kernel_List\<close>).

  A kernel function that can give up the processor in the middle is split where it does: what
  is left to do is a continuation (\<open>kont\<close>) on the kernel stack of the thread. Everything
  between two such points runs with interrupts off and is one function here, so the assertions
  on the interrupt level hold by construction. \<open>intr_context ()\<close> is the field
  \<open>in_external_intr\<close>. \<open>None\<close> is a failed assertion, a use of a list link that is not
  (or no longer) in a list, or a recursion that does not end.
\<close>

section \<open>Threads and the state of the kernel\<close>

datatype thread_status = THREAD_RUNNING | THREAD_READY | THREAD_BLOCKED | THREAD_DYING

text \<open>
  Points at which a thread can be suspended inside the kernel. \<open>KNew\<close>: about to enter
  \<open>kernel_thread\<close>. \<open>KSemaDown\<close>, \<open>KLockDown\<close>: in the waiting loop of \<open>sema_down\<close>, called
  directly or by \<open>lock_acquire\<close>. \<open>KLockUp\<close>: in \<open>lock_release\<close> after \<open>sema_up\<close>.
  \<open>KCondDown\<close>, \<open>KCondLock\<close>: in \<open>cond_wait\<close> after \<open>lock_release\<close>, after \<open>sema_down\<close>.
  \<open>KCondMore\<close>: in the loop of \<open>cond_broadcast\<close>. \<open>KTid\<close>, \<open>KCreate\<close>: in \<open>thread_create\<close>
  inside and after \<open>allocate_tid\<close>. \<open>KStart\<close>: in \<open>thread_start\<close> after \<open>thread_create\<close>. \<open>KSleep\<close>: in \<open>timer_sleep\<close>. \<open>KIdle\<close>, \<open>KIdleLoop\<close>:
  at the start and in the loop of \<open>idle\<close>. \<open>KExitKids\<close>, \<open>KExitWait\<close>, \<open>KExitTail\<close>: in
  \<open>thread_exit\<close> in the loop over the children, after \<open>process_exit\<close>, after the wait for the
  parent.
\<close>

datatype kont =
    KNew
  | KSemaDown addr
  | KLockDown addr
  | KLockUp addr
  | KCondDown addr addr
  | KCondLock addr
  | KCondMore addr addr
  | KTid addr addr
  | KCreate addr addr int
  | KStart addr
  | KSleep
  | KIdle addr
  | KIdleLoop
  | KExitKids addr
  | KExitWait
  | KExitTail

record thread =
  tid :: int
  status :: thread_status
  tname :: "byte list"
  stack_p :: nat
  priority :: int
  parent_tid :: int
  children_list :: "addr list"
  child_of :: addr
  exit_value :: int
  wait_on_called :: bool
  load_success_status :: bool
  fd_counter :: int
  effective_priority :: int
  holding_locks_list :: "addr list"
  waiting_lock :: addr
  target_ticks :: int
  retval :: int
  konts :: "kont list"

text \<open>
  \<open>child_of\<close> and \<open>linked_in\<close> say which thread's list the links \<open>child_elem\<close> of a thread and
  \<open>holder_elem\<close> of a lock are in. \<open>retval\<close> is the result of the last kernel function the thread
  called. \<open>user_proc\<close> says which threads have a page directory.
\<close>

record semaphore =
  sval :: nat
  waiters :: "addr list"

record lock =
  holder :: addr
  linked_in :: addr

record kstate =
  thr :: "addr \<Rightarrow> thread option"
  ready_list :: "addr list"
  all_list :: "addr list"
  cur :: addr
  idle_thread :: addr
  initial_thread :: addr
  next_tid :: int
  sems :: "addr \<Rightarrow> semaphore"
  locks :: "addr \<Rightarrow> lock"
  conds :: "addr \<Rightarrow> addr list"
  sleep_threads_list :: "addr list"
  ticks :: int
  idle_ticks :: int
  kernel_ticks :: int
  user_ticks :: int
  thread_ticks :: nat
  in_external_intr :: bool
  yield_on_return :: bool
  user_proc :: "addr \<Rightarrow> bool"

definition PRI_MIN :: int where "PRI_MIN = 0"
definition PRI_DEFAULT :: int where "PRI_DEFAULT = 31"
definition PRI_MAX :: int where "PRI_MAX = 63"
definition TID_ERROR :: int where "TID_ERROR = -1"
definition TIME_SLICE :: nat where "TIME_SLICE = 4"
definition INITIAL_FD_COUNT :: int where "INITIAL_FD_COUNT = 2"

section \<open>Access to threads\<close>

definition upd :: "addr \<Rightarrow> (thread \<Rightarrow> thread) \<Rightarrow> kstate \<Rightarrow> kstate" where
  "upd x f s = s\<lparr>thr := (thr s)(x := map_option f (thr s x))\<rparr>"

text \<open>A pointer to a live \<open>struct thread\<close>; any other address is not backed by an object.\<close>

definition is_thread :: "addr \<Rightarrow> kstate \<Rightarrow> bool" where
  "is_thread x s = (x \<noteq> NULL \<and> thr s x \<noteq> None)"

definition thread_current :: "kstate \<Rightarrow> addr option" where
  "thread_current s = do {
     assert_c (is_thread (cur s) s);
     t \<leftarrow> thr s (cur s);
     assert_c (status t = THREAD_RUNNING);
     Some (cur s) }"

definition thread_tid :: "kstate \<Rightarrow> int option" where
  "thread_tid s = do { x \<leftarrow> thread_current s; t \<leftarrow> thr s x; Some (tid t) }"

definition thread_name :: "kstate \<Rightarrow> byte list option" where
  "thread_name s = do { x \<leftarrow> thread_current s; t \<leftarrow> thr s x; Some (tname t) }"

definition eff :: "kstate \<Rightarrow> addr \<Rightarrow> int" where
  "eff s x = (case thr s x of Some t \<Rightarrow> effective_priority t | None \<Rightarrow> 0)"

section \<open>Choosing a thread\<close>

definition thread_priority_less_function :: "kstate \<Rightarrow> addr \<Rightarrow> addr \<Rightarrow> bool" where
  "thread_priority_less_function s a b = (eff s a < eff s b)"

text \<open>\<open>pick_max\<close> is what \<open>list_max\<close> computes on the elements of a list (\<open>lrep_max\<close>).\<close>

definition get_and_remove_next_thread :: "addr list \<Rightarrow> kstate \<Rightarrow> (addr \<times> addr list) option" where
  "get_and_remove_next_thread xs s = (case xs of
     [] \<Rightarrow> None
   | x # ys \<Rightarrow> let t = pick_max (thread_priority_less_function s) x ys in Some (t, remove1 t xs))"

fun highest_priority_loop :: "kstate \<Rightarrow> addr list \<Rightarrow> int \<Rightarrow> int" where
  "highest_priority_loop s [] h = h"
| "highest_priority_loop s (x # xs) h = highest_priority_loop s xs (if eff s x > h then eff s x else h)"

definition get_highest_priority :: "kstate \<Rightarrow> int" where
  "get_highest_priority s = highest_priority_loop s (ready_list s) PRI_MIN"

definition next_thread_to_run :: "kstate \<Rightarrow> (addr \<times> kstate) option" where
  "next_thread_to_run s =
     (if ready_list s = [] then Some (idle_thread s, s)
      else do {
        (t, rs) \<leftarrow> get_and_remove_next_thread (ready_list s) s;
        Some (t, s\<lparr>ready_list := rs\<rparr>) })"

section \<open>Switching threads\<close>

text \<open>
  \<open>thread_schedule_tail\<close> runs on the stack of the new thread. \<open>process_activate\<close> loads the
  page directory of the new thread; address spaces are not part of this state.
\<close>

definition thread_schedule_tail :: "addr \<Rightarrow> kstate \<Rightarrow> kstate option" where
  "thread_schedule_tail prev s = do {
     let s = upd (cur s) (\<lambda>t. t\<lparr>status := THREAD_RUNNING\<rparr>) s;
     let s = s\<lparr>thread_ticks := 0\<rparr>;
     case (if prev = NULL then None else thr s prev) of
       None \<Rightarrow> Some s
     | Some p \<Rightarrow>
         if status p = THREAD_DYING \<and> prev \<noteq> initial_thread s then do {
           assert_c (prev \<noteq> cur s);
           Some (s\<lparr>thr := (thr s)(prev := None)\<rparr>) }
         else Some s }"

definition schedule :: "kstate \<Rightarrow> kstate option" where
  "schedule s = do {
     let c = cur s;
     (next, s) \<leftarrow> next_thread_to_run s;
     t \<leftarrow> thr s c;
     assert_c (status t \<noteq> THREAD_RUNNING);
     assert_c (is_thread next s);
     if c \<noteq> next then thread_schedule_tail c (s\<lparr>cur := next\<rparr>)
     else thread_schedule_tail NULL s }"

definition thread_block :: "kstate \<Rightarrow> kstate option" where
  "thread_block s = do {
     assert_c (\<not> in_external_intr s);
     c \<leftarrow> thread_current s;
     schedule (upd c (\<lambda>t. t\<lparr>status := THREAD_BLOCKED\<rparr>) s) }"

definition thread_unblock :: "addr \<Rightarrow> kstate \<Rightarrow> kstate option" where
  "thread_unblock x s = do {
     assert_c (is_thread x s);
     t \<leftarrow> thr s x;
     assert_c (status t = THREAD_BLOCKED);
     let s = s\<lparr>ready_list := ready_list s @ [x]\<rparr>;
     Some (upd x (\<lambda>t. t\<lparr>status := THREAD_READY\<rparr>) s) }"

definition thread_yield :: "kstate \<Rightarrow> kstate option" where
  "thread_yield s = do {
     c \<leftarrow> thread_current s;
     assert_c (\<not> in_external_intr s);
     let s = (if c \<noteq> idle_thread s then s\<lparr>ready_list := ready_list s @ [c]\<rparr> else s);
     schedule (upd c (\<lambda>t. t\<lparr>status := THREAD_READY\<rparr>) s) }"

definition intr_yield_on_return :: "kstate \<Rightarrow> kstate option" where
  "intr_yield_on_return s = do {
     assert_c (in_external_intr s);
     Some (s\<lparr>yield_on_return := True\<rparr>) }"

definition thread_yield_if_necessery :: "kstate \<Rightarrow> kstate option" where
  "thread_yield_if_necessery s = do {
     c \<leftarrow> thread_current s;
     if get_highest_priority s > eff s c then
       (if in_external_intr s then intr_yield_on_return s else thread_yield s)
     else Some s }"

definition thread_tick :: "kstate \<Rightarrow> kstate option" where
  "thread_tick s = do {
     t \<leftarrow> thread_current s;
     let s = (if t = idle_thread s then s\<lparr>idle_ticks := idle_ticks s + 1\<rparr>
              else if user_proc s t then s\<lparr>user_ticks := user_ticks s + 1\<rparr>
              else s\<lparr>kernel_ticks := kernel_ticks s + 1\<rparr>);
     let s = s\<lparr>thread_ticks := thread_ticks s + 1\<rparr>;
     if thread_ticks s \<ge> TIME_SLICE then intr_yield_on_return s else Some s }"

section \<open>Priorities and donation\<close>

text \<open>The recursion follows the chain of lock holders and need not end.\<close>

partial_function (option) compare_priority_and_update :: "addr \<Rightarrow> int \<Rightarrow> kstate \<Rightarrow> kstate option" where
  [code]: "compare_priority_and_update x p s =
     (if x = NULL then Some s
      else do {
        t \<leftarrow> thr s x;
        if effective_priority t > p then Some s
        else do {
          let s = upd x (\<lambda>t. t\<lparr>effective_priority := p\<rparr>) s;
          if waiting_lock t \<noteq> NULL
          then compare_priority_and_update (holder (locks s (waiting_lock t))) p s
          else Some s } })"

fun waiters_priority :: "kstate \<Rightarrow> addr list \<Rightarrow> int \<Rightarrow> int" where
  "waiters_priority s [] p = p"
| "waiters_priority s (x # xs) p = waiters_priority s xs (if eff s x > p then eff s x else p)"

fun locks_priority :: "kstate \<Rightarrow> addr list \<Rightarrow> int \<Rightarrow> int" where
  "locks_priority s [] p = p"
| "locks_priority s (l # ls) p = locks_priority s ls (waiters_priority s (waiters (sems s l)) p)"

definition calculate_priority_and_yield :: "addr \<Rightarrow> kstate \<Rightarrow> kstate option" where
  "calculate_priority_and_yield x s = do {
     t \<leftarrow> thr s x;
     let new_priority = locks_priority s (holding_locks_list t) (priority t);
     let s = upd x (\<lambda>t. t\<lparr>effective_priority := new_priority\<rparr>) s;
     thread_yield_if_necessery s }"

definition thread_set_priority :: "int \<Rightarrow> kstate \<Rightarrow> kstate option" where
  "thread_set_priority new_priority s = do {
     c \<leftarrow> thread_current s;
     let s = upd c (\<lambda>t. t\<lparr>priority := new_priority\<rparr>) s;
     calculate_priority_and_yield c s }"

definition thread_get_priority :: "kstate \<Rightarrow> int option" where
  "thread_get_priority s = do { c \<leftarrow> thread_current s; Some (eff s c) }"

section \<open>Creation and lookup\<close>

definition blank_thread :: thread where
  "blank_thread = \<lparr>tid = 0, status = THREAD_RUNNING, tname = [], stack_p = 0, priority = 0,
     parent_tid = 0, children_list = [], child_of = NULL, exit_value = 0, wait_on_called = False,
     load_success_status = False, fd_counter = 0, effective_priority = 0, holding_locks_list = [],
     waiting_lock = NULL, target_ticks = 0, retval = 0, konts = []\<rparr>"

definition init_thread :: "addr \<Rightarrow> byte list \<Rightarrow> int \<Rightarrow> kstate \<Rightarrow> kstate option" where
  "init_thread x nm pri s = do {
     assert_c (x \<noteq> NULL);
     assert_c (PRI_MIN \<le> pri \<and> pri \<le> PRI_MAX);
     let t = blank_thread\<lparr>status := THREAD_BLOCKED, tname := take 15 nm, stack_p := x + 4096,
               priority := pri, effective_priority := pri\<rparr>;
     Some (s\<lparr>thr := (thr s)(x \<mapsto> t), all_list := all_list s @ [x]\<rparr>) }"

definition alloc_frame :: "addr \<Rightarrow> nat \<Rightarrow> kstate \<Rightarrow> kstate option" where
  "alloc_frame x sz s = do {
     assert_c (is_thread x s);
     assert_c (sz mod 4 = 0);
     Some (upd x (\<lambda>t. t\<lparr>stack_p := stack_p t - sz\<rparr>) s) }"

text \<open>The semaphores inside a \<open>struct thread\<close>, by their place in its page.\<close>

definition exited :: "addr \<Rightarrow> addr" where "exited x = x + 1"
definition can_free :: "addr \<Rightarrow> addr" where "can_free x = x + 2"
definition load_done :: "addr \<Rightarrow> addr" where "load_done x = x + 3"

fun get_thread_loop :: "kstate \<Rightarrow> addr list \<Rightarrow> int \<Rightarrow> addr option" where
  "get_thread_loop s [] i = Some NULL"
| "get_thread_loop s (x # xs) i = do {
     t \<leftarrow> thr s x;
     if tid t = i then Some x else get_thread_loop s xs i }"

definition get_thread :: "int \<Rightarrow> kstate \<Rightarrow> addr option" where
  "get_thread i s = get_thread_loop s (all_list s) i"

definition get_child_thread :: "int \<Rightarrow> kstate \<Rightarrow> addr option" where
  "get_child_thread i s = do {
     c \<leftarrow> thread_current s;
     t \<leftarrow> thr s c;
     get_thread_loop s (children_list t) i }"

fun thread_foreach_loop :: "(addr \<Rightarrow> kstate \<Rightarrow> kstate option) \<Rightarrow> addr list \<Rightarrow> kstate \<Rightarrow> kstate option" where
  "thread_foreach_loop func [] s = Some s"
| "thread_foreach_loop func (x # xs) s = do { s \<leftarrow> func x s; thread_foreach_loop func xs s }"

definition thread_foreach :: "(addr \<Rightarrow> kstate \<Rightarrow> kstate option) \<Rightarrow> kstate \<Rightarrow> kstate option" where
  "thread_foreach func s = thread_foreach_loop func (all_list s) s"

end
