(* ===== verification/Synch.thy ===== *)
theory Synch
  imports Threads
begin

text \<open>
  Semaphores, locks with priority donation and condition variables, \<open>threads/synch.c\<close>.

  A lock's semaphore has the address of the lock. An operation that may sleep pushes the
  continuation of its caller and then runs; the functions named \<open>resume_...\<close> are what a thread
  does when it runs again at that continuation.
\<close>

definition push_kont :: "kont \<Rightarrow> kstate \<Rightarrow> kstate" where
  "push_kont k s = upd (cur s) (\<lambda>t. t\<lparr>konts := k # konts t\<rparr>) s"

definition pop_kont :: "kstate \<Rightarrow> kstate" where
  "pop_kont s = upd (cur s) (\<lambda>t. t\<lparr>konts := tl (konts t)\<rparr>) s"

section \<open>Semaphores\<close>

definition set_sema :: "addr \<Rightarrow> semaphore \<Rightarrow> kstate \<Rightarrow> kstate" where
  "set_sema a x s = s\<lparr>sems := (sems s)(a := x)\<rparr>"

definition sema_init :: "addr \<Rightarrow> nat \<Rightarrow> kstate \<Rightarrow> kstate option" where
  "sema_init a v s = do {
     assert_c (a \<noteq> NULL);
     Some (set_sema a \<lparr>sval = v, waiters = []\<rparr> s) }"

text \<open>One test of the loop condition: wait, or take the semaphore (the result is \<open>True\<close>).\<close>

definition sema_down_iter :: "addr \<Rightarrow> kstate \<Rightarrow> (bool \<times> kstate) option" where
  "sema_down_iter a s =
     (if sval (sems s a) = 0 then do {
        c \<leftarrow> thread_current s;
        let s = set_sema a ((sems s a)\<lparr>waiters := waiters (sems s a) @ [c]\<rparr>) s;
        s \<leftarrow> thread_block s;
        Some (False, s) }
      else Some (True, set_sema a ((sems s a)\<lparr>sval := sval (sems s a) - 1\<rparr>) s))"

definition resume_sema_down :: "addr \<Rightarrow> kstate \<Rightarrow> kstate option" where
  "resume_sema_down a s = do {
     (dn, s) \<leftarrow> sema_down_iter a s;
     Some (if dn then pop_kont s else s) }"

definition sema_down :: "addr \<Rightarrow> kstate \<Rightarrow> kstate option" where
  "sema_down a s = do {
     assert_c (a \<noteq> NULL);
     assert_c (\<not> in_external_intr s);
     resume_sema_down a (push_kont (KSemaDown a) s) }"

definition sema_try_down :: "addr \<Rightarrow> kstate \<Rightarrow> (bool \<times> kstate) option" where
  "sema_try_down a s = do {
     assert_c (a \<noteq> NULL);
     if sval (sems s a) > 0
     then Some (True, set_sema a ((sems s a)\<lparr>sval := sval (sems s a) - 1\<rparr>) s)
     else Some (False, s) }"

definition sema_wake :: "addr \<Rightarrow> kstate \<Rightarrow> kstate option" where
  "sema_wake a s =
     (if waiters (sems s a) \<noteq> [] then do {
        (t, ws) \<leftarrow> get_and_remove_next_thread (waiters (sems s a)) s;
        thread_unblock t (set_sema a ((sems s a)\<lparr>waiters := ws\<rparr>) s) }
      else Some s)"

definition sema_up :: "addr \<Rightarrow> kstate \<Rightarrow> kstate option" where
  "sema_up a s = do {
     assert_c (a \<noteq> NULL);
     s \<leftarrow> sema_wake a s;
     let s = set_sema a ((sems s a)\<lparr>sval := (sval (sems s a) + 1) mod 4294967296\<rparr>) s;
     thread_yield_if_necessery s }"

section \<open>Locks\<close>

definition set_lock :: "addr \<Rightarrow> lock \<Rightarrow> kstate \<Rightarrow> kstate" where
  "set_lock l x s = s\<lparr>locks := (locks s)(l := x)\<rparr>"

text \<open>\<open>holder_elem\<close> is not initialised by the source; the link is in no list.\<close>

definition lock_init :: "addr \<Rightarrow> kstate \<Rightarrow> kstate option" where
  "lock_init l s = do {
     assert_c (l \<noteq> NULL);
     sema_init l 1 (set_lock l \<lparr>holder = NULL, linked_in = NULL\<rparr> s) }"

definition lock_held_by_current_thread :: "addr \<Rightarrow> kstate \<Rightarrow> bool option" where
  "lock_held_by_current_thread l s = do {
     assert_c (l \<noteq> NULL);
     c \<leftarrow> thread_current s;
     Some (holder (locks s l) = c) }"

text \<open>The rest of \<open>lock_acquire\<close> once the semaphore is taken.\<close>

definition lock_acquired :: "addr \<Rightarrow> kstate \<Rightarrow> kstate option" where
  "lock_acquired l s = do {
     let s = upd (cur s) (\<lambda>t. t\<lparr>waiting_lock := NULL\<rparr>) s;
     assert_c (linked_in (locks s l) = NULL);
     let s = upd (cur s) (\<lambda>t. t\<lparr>holding_locks_list := holding_locks_list t @ [l]\<rparr>) s;
     c \<leftarrow> thread_current s;
     Some (set_lock l \<lparr>holder = c, linked_in = c\<rparr> s) }"

definition resume_lock_down :: "addr \<Rightarrow> kstate \<Rightarrow> kstate option" where
  "resume_lock_down l s = do {
     (dn, s) \<leftarrow> sema_down_iter l s;
     if dn then lock_acquired l (pop_kont s) else Some s }"

definition lock_acquire :: "addr \<Rightarrow> kstate \<Rightarrow> kstate option" where
  "lock_acquire l s = do {
     assert_c (l \<noteq> NULL);
     assert_c (\<not> in_external_intr s);
     held \<leftarrow> lock_held_by_current_thread l s;
     assert_c (\<not> held);
     t \<leftarrow> thread_current s;
     let s = upd t (\<lambda>t. t\<lparr>waiting_lock := l\<rparr>) s;
     s \<leftarrow> compare_priority_and_update (holder (locks s l)) (eff s t) s;
     assert_c (holder (locks s l) = NULL \<or> eff s (holder (locks s l)) \<ge> eff s t);
     resume_lock_down l (push_kont (KLockDown l) s) }"

definition lock_try_acquire :: "addr \<Rightarrow> kstate \<Rightarrow> (bool \<times> kstate) option" where
  "lock_try_acquire l s = do {
     assert_c (l \<noteq> NULL);
     held \<leftarrow> lock_held_by_current_thread l s;
     assert_c (\<not> held);
     (success, s) \<leftarrow> sema_try_down l s;
     c \<leftarrow> thread_current s;
     Some (success, if success then set_lock l ((locks s l)\<lparr>holder := c\<rparr>) s else s) }"

definition lock_release :: "addr \<Rightarrow> kstate \<Rightarrow> kstate option" where
  "lock_release l s = do {
     assert_c (l \<noteq> NULL);
     held \<leftarrow> lock_held_by_current_thread l s;
     assert_c held;
     let s = set_lock l ((locks s l)\<lparr>holder := NULL\<rparr>) s;
     sema_up l (push_kont (KLockUp l) s) }"

text \<open>
  After \<open>sema_up\<close>: \<open>list_remove\<close> unlinks \<open>holder_elem\<close> from whatever list holds it, which
  must be the list of a live thread.
\<close>

definition resume_lock_up :: "addr \<Rightarrow> kstate \<Rightarrow> kstate option" where
  "resume_lock_up l s = do {
     let s = pop_kont s;
     let x = linked_in (locks s l);
     assert_c (is_thread x s);
     let s = upd x (\<lambda>t. t\<lparr>holding_locks_list := remove1 l (holding_locks_list t)\<rparr>) s;
     let s = set_lock l ((locks s l)\<lparr>linked_in := NULL\<rparr>) s;
     t \<leftarrow> thread_current s;
     calculate_priority_and_yield t s }"

section \<open>Condition variables\<close>

text \<open>The waiters of a condition are the semaphores of its \<open>semaphore_elem\<close>s.\<close>

definition cond_init :: "addr \<Rightarrow> kstate \<Rightarrow> kstate option" where
  "cond_init cv s = do {
     assert_c (cv \<noteq> NULL);
     Some (s\<lparr>conds := (conds s)(cv := [])\<rparr>) }"

text \<open>\<open>w\<close> is the address of the semaphore in the local variable \<open>waiter\<close>.\<close>

definition cond_wait :: "addr \<Rightarrow> addr \<Rightarrow> addr \<Rightarrow> kstate \<Rightarrow> kstate option" where
  "cond_wait cv l w s = do {
     assert_c (cv \<noteq> NULL);
     assert_c (l \<noteq> NULL);
     assert_c (\<not> in_external_intr s);
     held \<leftarrow> lock_held_by_current_thread l s;
     assert_c held;
     s \<leftarrow> sema_init w 0 s;
     let s = s\<lparr>conds := (conds s)(cv := conds s cv @ [w])\<rparr>;
     lock_release l (push_kont (KCondDown l w) s) }"

definition resume_cond_down :: "addr \<Rightarrow> addr \<Rightarrow> kstate \<Rightarrow> kstate option" where
  "resume_cond_down l w s = sema_down w (push_kont (KCondLock l) (pop_kont s))"

definition resume_cond_lock :: "addr \<Rightarrow> kstate \<Rightarrow> kstate option" where
  "resume_cond_lock l s = lock_acquire l (pop_kont s)"

text \<open>
  The comparison looks at the first waiter of each semaphore. The source copies the two
  structures, and \<open>list_front\<close> of a copy does not notice an empty list: it returns a pointer to
  the tail of the original, which is no thread.
\<close>

definition cond_priority_less_function :: "kstate \<Rightarrow> addr \<Rightarrow> addr \<Rightarrow> bool option" where
  "cond_priority_less_function s a b = do {
     assert_c (waiters (sems s a) \<noteq> []);
     assert_c (waiters (sems s b) \<noteq> []);
     Some (eff s (hd (waiters (sems s a))) < eff s (hd (waiters (sems s b)))) }"

fun cond_max :: "kstate \<Rightarrow> addr list \<Rightarrow> addr \<Rightarrow> addr option" where
  "cond_max s [] mx = Some mx"
| "cond_max s (e # es) mx = do {
     b \<leftarrow> cond_priority_less_function s mx e;
     cond_max s es (if b then e else mx) }"

definition get_and_remove_next_sema_for_cond :: "addr list \<Rightarrow> kstate \<Rightarrow> (addr \<times> addr list) option" where
  "get_and_remove_next_sema_for_cond xs s = (case xs of
     [] \<Rightarrow> None
   | x # ys \<Rightarrow> do {
       e \<leftarrow> cond_max s ys x;
       Some (e, remove1 e xs) })"

definition cond_signal :: "addr \<Rightarrow> addr \<Rightarrow> kstate \<Rightarrow> kstate option" where
  "cond_signal cv l s = do {
     assert_c (cv \<noteq> NULL);
     assert_c (l \<noteq> NULL);
     assert_c (\<not> in_external_intr s);
     held \<leftarrow> lock_held_by_current_thread l s;
     assert_c held;
     if conds s cv \<noteq> [] then do {
       (e, ws) \<leftarrow> get_and_remove_next_sema_for_cond (conds s cv) s;
       sema_up e (s\<lparr>conds := (conds s)(cv := ws)\<rparr>) }
     else Some s }"

definition cond_broadcast :: "addr \<Rightarrow> addr \<Rightarrow> kstate \<Rightarrow> kstate option" where
  "cond_broadcast cv l s = do {
     assert_c (cv \<noteq> NULL);
     assert_c (l \<noteq> NULL);
     if conds s cv \<noteq> [] then cond_signal cv l (push_kont (KCondMore cv l) s)
     else Some s }"

definition resume_cond_more :: "addr \<Rightarrow> addr \<Rightarrow> kstate \<Rightarrow> kstate option" where
  "resume_cond_more cv l s = cond_broadcast cv l (pop_kont s)"

end
