(* ===== verification/Timer.thy ===== *)
theory Timer
  imports Synch
begin

text \<open>
  The timer: \<open>devices/timer.c\<close>, and the dispatch of interrupts of \<open>threads/interrupt.c\<close>.

  Time is the field \<open>ticks\<close>. Busy waiting does not change the state of the kernel, so the
  delay functions are the number of loops they run. 64-bit signed overflow gives \<open>None\<close>.
\<close>

definition TIMER_FREQ :: int where "TIMER_FREQ = 100"

definition int64 :: "int \<Rightarrow> int option" where
  "int64 x = (if - 9223372036854775808 \<le> x \<and> x \<le> 9223372036854775807 then Some x else None)"

text \<open>Division of signed integers truncates towards zero.\<close>

definition cdiv :: "int \<Rightarrow> int \<Rightarrow> int" where
  "cdiv x y = sgn x * sgn y * (\<bar>x\<bar> div \<bar>y\<bar>)"

section \<open>Sleeping\<close>

definition timer_ticks :: "kstate \<Rightarrow> int" where
  "timer_ticks s = ticks s"

definition timer_elapsed :: "int \<Rightarrow> kstate \<Rightarrow> int option" where
  "timer_elapsed since s = int64 (timer_ticks s - since)"

definition cmp_target_ticks :: "kstate \<Rightarrow> addr \<Rightarrow> addr \<Rightarrow> bool" where
  "cmp_target_ticks s a b = (case (thr s a, thr s b) of
     (Some x, Some y) \<Rightarrow> target_ticks x < target_ticks y
   | _ \<Rightarrow> False)"

definition thread_push_block :: "addr \<Rightarrow> kstate \<Rightarrow> kstate option" where
  "thread_push_block t s = do {
     let s = s\<lparr>sleep_threads_list := ins_ordered (cmp_target_ticks s) t (sleep_threads_list s)\<rparr>;
     thread_block s }"

definition timer_sleep :: "int \<Rightarrow> kstate \<Rightarrow> kstate option" where
  "timer_sleep n s = do {
     let start = timer_ticks s;
     t \<leftarrow> thread_current s;
     due \<leftarrow> int64 (n + start);
     let s = upd t (\<lambda>t. t\<lparr>target_ticks := due\<rparr>) s;
     thread_push_block t (push_kont KSleep s) }"

definition resume_sleep :: "kstate \<Rightarrow> kstate option" where
  "resume_sleep s = Some (pop_kont s)"

fun pop_unblock_loop :: "addr list \<Rightarrow> kstate \<Rightarrow> kstate option" where
  "pop_unblock_loop [] s = Some s"
| "pop_unblock_loop (x # xs) s = do {
     t \<leftarrow> thr s x;
     if target_ticks t \<le> timer_ticks s \<and> status t = THREAD_BLOCKED then do {
       s \<leftarrow> thread_unblock x s;
       pop_unblock_loop xs (s\<lparr>sleep_threads_list := remove1 x (sleep_threads_list s)\<rparr>) }
     else Some s }"

definition thread_pop_unblock :: "kstate \<Rightarrow> kstate option" where
  "thread_pop_unblock s = pop_unblock_loop (sleep_threads_list s) s"

section \<open>Delays\<close>

definition real_time_delay :: "nat \<Rightarrow> int \<Rightarrow> int \<Rightarrow> int option" where
  "real_time_delay loops_per_tick num denom = do {
     assert_c (denom mod 1000 = 0);
     a \<leftarrow> int64 (int loops_per_tick * num);
     b \<leftarrow> int64 (cdiv a 1000 * TIMER_FREQ);
     assert_c (cdiv denom 1000 \<noteq> 0);
     Some (cdiv b (cdiv denom 1000)) }"

definition real_time_sleep :: "nat \<Rightarrow> int \<Rightarrow> int \<Rightarrow> kstate \<Rightarrow> kstate option" where
  "real_time_sleep loops_per_tick num denom s = do {
     a \<leftarrow> int64 (num * TIMER_FREQ);
     assert_c (denom \<noteq> 0);
     let n = cdiv a denom;
     if n > 0 then timer_sleep n s
     else do { _ \<leftarrow> real_time_delay loops_per_tick num denom; Some s } }"

definition timer_msleep :: "nat \<Rightarrow> int \<Rightarrow> kstate \<Rightarrow> kstate option" where
  "timer_msleep lpt ms s = real_time_sleep lpt ms 1000 s"

definition timer_usleep :: "nat \<Rightarrow> int \<Rightarrow> kstate \<Rightarrow> kstate option" where
  "timer_usleep lpt us s = real_time_sleep lpt us (1000 * 1000) s"

definition timer_nsleep :: "nat \<Rightarrow> int \<Rightarrow> kstate \<Rightarrow> kstate option" where
  "timer_nsleep lpt ns s = real_time_sleep lpt ns (1000 * 1000 * 1000) s"

definition timer_mdelay :: "nat \<Rightarrow> int \<Rightarrow> int option" where
  "timer_mdelay lpt ms = real_time_delay lpt ms 1000"

definition timer_udelay :: "nat \<Rightarrow> int \<Rightarrow> int option" where
  "timer_udelay lpt us = real_time_delay lpt us (1000 * 1000)"

definition timer_ndelay :: "nat \<Rightarrow> int \<Rightarrow> int option" where
  "timer_ndelay lpt ns = real_time_delay lpt ns (1000 * 1000 * 1000)"

section \<open>Interrupts\<close>

definition timer_interrupt :: "kstate \<Rightarrow> kstate option" where
  "timer_interrupt s = do {
     let s = s\<lparr>ticks := ticks s + 1\<rparr>;
     s \<leftarrow> thread_tick s;
     thread_pop_unblock s }"

type_synonym intr_table = "nat \<Rightarrow> (kstate \<Rightarrow> kstate option) option"

definition register_handler :: "nat \<Rightarrow> (kstate \<Rightarrow> kstate option) \<Rightarrow> intr_table \<Rightarrow> intr_table option" where
  "register_handler vec_no handler tab = do {
     assert_c (tab vec_no = None);
     Some (tab(vec_no := Some handler)) }"

definition intr_register_ext :: "nat \<Rightarrow> (kstate \<Rightarrow> kstate option) \<Rightarrow> intr_table \<Rightarrow> intr_table option" where
  "intr_register_ext vec_no handler tab = do {
     assert_c (vec_no \<ge> 0x20 \<and> vec_no \<le> 0x2f);
     register_handler vec_no handler tab }"

definition intr_register_int :: "nat \<Rightarrow> (kstate \<Rightarrow> kstate option) \<Rightarrow> intr_table \<Rightarrow> intr_table option" where
  "intr_register_int vec_no handler tab = do {
     assert_c (vec_no < 0x20 \<or> vec_no > 0x2f);
     register_handler vec_no handler tab }"

text \<open>
  The handler for every interrupt. An interrupt with no handler is counted and reported on the
  console, which leaves this state as it is; so does the acknowledgement to the controller.
\<close>

definition intr_handler :: "intr_table \<Rightarrow> nat \<Rightarrow> kstate \<Rightarrow> kstate option" where
  "intr_handler tab vec_no s = do {
     let external = (vec_no \<ge> 0x20 \<and> vec_no < 0x30);
     assert_c (external \<longrightarrow> \<not> in_external_intr s);
     let s = (if external then s\<lparr>in_external_intr := True, yield_on_return := False\<rparr> else s);
     s \<leftarrow> (case tab vec_no of Some handler \<Rightarrow> handler s | None \<Rightarrow> Some s);
     if external then do {
       assert_c (in_external_intr s);
       let s = s\<lparr>in_external_intr := False\<rparr>;
       if yield_on_return s then thread_yield s else Some s }
     else Some s }"

definition timer_init :: "kstate \<Rightarrow> intr_table \<Rightarrow> (kstate \<times> intr_table) option" where
  "timer_init s tab = do {
     tab \<leftarrow> intr_register_ext 0x20 timer_interrupt tab;
     Some (s\<lparr>sleep_threads_list := []\<rparr>, tab) }"

end
