(* ===== verification/Thread_Life.thy ===== *)
theory Thread_Life
  imports Timer
begin

text \<open>
  The life of a thread: the parts of \<open>threads/thread.c\<close> that use locks and semaphores, from
  the start of the thread system through the creation and the exit of threads, and
  \<open>process_exit\<close> of \<open>userprog/process.c\<close>.

  The page for a new thread is the result of \<open>palloc_get_page\<close>, \<open>NULL\<close> when there is none.
  The start function of a thread is \<open>idle\<close> with its semaphore as argument, or any other
  function (\<open>NULL\<close> for the semaphore). The first part of \<open>thread_exit\<close>, which closes files and
  directories, works on the state of the file system and not on this one.
\<close>

definition tid_lock :: addr where "tid_lock = 8"

section \<open>Creation\<close>

definition start_konts :: "addr \<Rightarrow> kont list" where
  "start_konts aux = (if aux = NULL then [KNew] else [KNew, KIdle aux])"

text \<open>
  \<open>thread_create\<close> up to the call of \<open>allocate_tid\<close>, \<open>allocate_tid\<close> from the point where the lock
  is taken, and the rest of \<open>thread_create\<close> before and from \<open>thread_unblock\<close>. The three stack frames have 12, 4 and 28 bytes.
\<close>

definition thread_create :: "addr \<Rightarrow> byte list \<Rightarrow> int \<Rightarrow> addr \<Rightarrow> kstate \<Rightarrow> kstate option" where
  "thread_create t name pri aux s =
     (if t = NULL then Some (upd (cur s) (\<lambda>t. t\<lparr>retval := TID_ERROR\<rparr>) s)
      else do {
        s \<leftarrow> init_thread t name pri s;
        lock_acquire tid_lock (push_kont (KTid t aux) s) })"

definition allocate_tid :: "addr \<Rightarrow> addr \<Rightarrow> kstate \<Rightarrow> kstate option" where
  "allocate_tid t aux s = do {
     let s = pop_kont s;
     let i = next_tid s;
     let s = s\<lparr>next_tid := next_tid s + 1\<rparr>;
     lock_release tid_lock (push_kont (KCreate t aux i) s) }"

definition create_setup :: "addr \<Rightarrow> addr \<Rightarrow> int \<Rightarrow> kstate \<Rightarrow> kstate option" where
  "create_setup t aux i s = do {
     let s = upd t (\<lambda>t. t\<lparr>tid := i\<rparr>) s;
     s \<leftarrow> alloc_frame t 12 s;
     s \<leftarrow> alloc_frame t 4 s;
     s \<leftarrow> alloc_frame t 28 s;
     let s = upd t (\<lambda>t. t\<lparr>konts := start_konts aux\<rparr>) s;
     par \<leftarrow> thread_current s;
     p \<leftarrow> thr s par;
     let s = upd t (\<lambda>t. t\<lparr>parent_tid := tid p\<rparr>) s;
     let s = upd par (\<lambda>p. p\<lparr>children_list := children_list p @ [t]\<rparr>) s;
     let s = upd t (\<lambda>t. t\<lparr>child_of := par\<rparr>) s;
     s \<leftarrow> sema_init (exited t) 0 s;
     s \<leftarrow> sema_init (can_free t) 0 s;
     s \<leftarrow> sema_init (load_done t) 0 s;
     Some (upd t (\<lambda>t. t\<lparr>exit_value := -1, load_success_status := False,
                         wait_on_called := False, fd_counter := INITIAL_FD_COUNT\<rparr>) s) }"

definition resume_create :: "addr \<Rightarrow> addr \<Rightarrow> int \<Rightarrow> kstate \<Rightarrow> kstate option" where
  "resume_create t aux i s = do {
     s \<leftarrow> create_setup t aux i (pop_kont s);
     s \<leftarrow> thread_unblock t s;
     thread_yield_if_necessery (upd (cur s) (\<lambda>p. p\<lparr>retval := i\<rparr>) s) }"

text \<open>\<open>kernel_thread\<close> enters the start function.\<close>

definition kernel_thread :: "kstate \<Rightarrow> kstate option" where
  "kernel_thread s = Some (pop_kont s)"

section \<open>The idle thread\<close>

definition idle :: "addr \<Rightarrow> kstate \<Rightarrow> kstate option" where
  "idle idle_started s = do {
     let s = pop_kont s;
     c \<leftarrow> thread_current s;
     let s = s\<lparr>idle_thread := c\<rparr>;
     sema_up idle_started (push_kont KIdleLoop s) }"

definition idle_loop :: "kstate \<Rightarrow> kstate option" where
  "idle_loop s = thread_block s"

section \<open>Starting the thread system\<close>

definition name_main :: "byte list" where "name_main = [109, 97, 105, 110]"
definition name_idle :: "byte list" where "name_idle = [105, 100, 108, 101]"

text \<open>
  \<open>m\<close> is the page of the running thread. It is the only thread, so its first use of
  \<open>allocate_tid\<close> does not switch threads.
\<close>

definition thread_init :: "addr \<Rightarrow> kstate \<Rightarrow> kstate option" where
  "thread_init m s = do {
     s \<leftarrow> lock_init tid_lock s;
     let s = s\<lparr>ready_list := [], all_list := [], cur := m, initial_thread := m\<rparr>;
     s \<leftarrow> init_thread m name_main PRI_DEFAULT s;
     let s = upd m (\<lambda>t. t\<lparr>status := THREAD_RUNNING\<rparr>) s;
     s \<leftarrow> lock_acquire tid_lock s;
     let i = next_tid s;
     let s = s\<lparr>next_tid := next_tid s + 1\<rparr>;
     s \<leftarrow> lock_release tid_lock s;
     s \<leftarrow> resume_lock_up tid_lock s;
     Some (upd m (\<lambda>t. t\<lparr>tid := i\<rparr>) s) }"

definition thread_start :: "addr \<Rightarrow> addr \<Rightarrow> kstate \<Rightarrow> kstate option" where
  "thread_start idle_started t s = do {
     s \<leftarrow> sema_init idle_started 0 s;
     thread_create t name_idle PRI_MIN idle_started (push_kont (KStart idle_started) s) }"

definition resume_start :: "addr \<Rightarrow> kstate \<Rightarrow> kstate option" where
  "resume_start idle_started s = sema_down idle_started (pop_kont s)"

section \<open>Exit\<close>

definition prepare_thread_for_exit :: "int \<Rightarrow> kstate \<Rightarrow> kstate option" where
  "prepare_thread_for_exit v s = do {
     c \<leftarrow> thread_current s;
     Some (upd c (\<lambda>t. t\<lparr>exit_value := v\<rparr>) s) }"

text \<open>The element of a list after \<open>e\<close>; \<open>NULL\<close> stands before the first and after the last.\<close>

fun elem_after :: "addr \<Rightarrow> addr list \<Rightarrow> addr" where
  "elem_after e [] = NULL"
| "elem_after e (x # xs) =
     (if e = NULL then x else if x = e then (case xs of [] \<Rightarrow> NULL | y # _ \<Rightarrow> y) else elem_after e xs)"

definition thread_exit :: "kstate \<Rightarrow> kstate option" where
  "thread_exit s = do {
     assert_c (\<not> in_external_intr s);
     c \<leftarrow> thread_current s;
     sema_up (exited c) (push_kont (KExitKids NULL) s) }"

definition process_exit :: "kstate \<Rightarrow> kstate option" where
  "process_exit s = do {
     c \<leftarrow> thread_current s;
     let s = s\<lparr>user_proc := (user_proc s)(c := False)\<rparr>;
     sema_up (exited c) s }"

text \<open>
  The loop over the children, at the child \<open>e\<close> whose semaphore has been raised. The child may
  have run and ended meanwhile; its link is then in a page that has been freed.
\<close>

definition exit_kids :: "addr \<Rightarrow> kstate \<Rightarrow> kstate option" where
  "exit_kids e s = do {
     let s = pop_kont s;
     t \<leftarrow> thr s (cur s);
     assert_c (e = NULL \<or> is_thread e s \<and> e \<in> set (children_list t));
     let x = elem_after e (children_list t);
     if x \<noteq> NULL then sema_up (can_free x) (push_kont (KExitKids x) s)
     else process_exit (push_kont KExitWait s) }"

definition exit_wait :: "kstate \<Rightarrow> kstate option" where
  "exit_wait s = do {
     let s = pop_kont s;
     sema_down (can_free (cur s)) (push_kont KExitTail s) }"

text \<open>\<open>child_elem\<close> is unlinked from the list of the parent, which must still exist.\<close>

definition exit_tail :: "kstate \<Rightarrow> kstate option" where
  "exit_tail s = do {
     let s = pop_kont s;
     c \<leftarrow> thread_current s;
     t \<leftarrow> thr s c;
     let s = s\<lparr>all_list := remove1 c (all_list s)\<rparr>;
     assert_c (is_thread (child_of t) s);
     let s = upd (child_of t) (\<lambda>p. p\<lparr>children_list := remove1 c (children_list p)\<rparr>) s;
     schedule (upd c (\<lambda>t. t\<lparr>status := THREAD_DYING\<rparr>) s) }"

section \<open>Running a suspended thread\<close>

fun resume :: "kont \<Rightarrow> kstate \<Rightarrow> kstate option" where
  "resume KNew s = kernel_thread s"
| "resume (KSemaDown a) s = resume_sema_down a s"
| "resume (KLockDown l) s = resume_lock_down l s"
| "resume (KLockUp l) s = resume_lock_up l s"
| "resume (KCondDown l w) s = resume_cond_down l w s"
| "resume (KCondLock l) s = resume_cond_lock l s"
| "resume (KCondMore cv l) s = resume_cond_more cv l s"
| "resume (KTid t aux) s = allocate_tid t aux s"
| "resume (KCreate t aux i) s = resume_create t aux i s"
| "resume (KStart a) s = resume_start a s"
| "resume KSleep s = resume_sleep s"
| "resume (KIdle a) s = idle a s"
| "resume KIdleLoop s = idle_loop s"
| "resume (KExitKids e) s = exit_kids e s"
| "resume KExitWait s = exit_wait s"
| "resume KExitTail s = exit_tail s"

text \<open>What the running thread is in the middle of.\<close>

definition cur_konts :: "kstate \<Rightarrow> kont list" where
  "cur_konts s = (case thr s (cur s) of Some t \<Rightarrow> konts t | None \<Rightarrow> [])"

text \<open>Let the running thread continue for at most \<open>n\<close> steps, until no call is pending.\<close>

fun run :: "nat \<Rightarrow> kstate \<Rightarrow> kstate option" where
  "run 0 s = Some s"
| "run (Suc n) s = (case cur_konts s of [] \<Rightarrow> Some s | k # _ \<Rightarrow> resume k s \<bind> run n)"

end
