(* ===== verification/Kernel_Inv.thy ===== *)
theory Kernel_Inv
  imports Thread_Life
begin

text \<open>
  The invariant of the thread system: every thread is where its status says it is.

  The invariant \<open>kcore\<close> is about the threads, the run queue, the idle thread, the queues of
  the semaphores and the list of sleeping threads. The lemmas named \<open>core_...\<close> say which
  elementary changes keep it.
\<close>

section \<open>The parts of the invariant\<close>

type_synonym threads = "addr \<Rightarrow> thread option"

text \<open>The semaphore whose queue a blocked thread is in, by what it is in the middle of.\<close>

definition waits_on :: "thread \<Rightarrow> addr option" where
  "waits_on t = (case konts t of KSemaDown a # _ \<Rightarrow> Some a | KLockDown a # _ \<Rightarrow> Some a | _ \<Rightarrow> None)"

definition sleeping :: "thread \<Rightarrow> bool" where
  "sleeping t = (case konts t of KSleep # _ \<Rightarrow> True | _ \<Rightarrow> False)"

text \<open>
  The threads a thread is in the middle of creating, and what such a thread looks like. The
  continuations that only occur while the thread system is started, and in the idle thread,
  count as creating \<open>NULL\<close>; no other thread has them.
\<close>

definition makes1 :: "kont \<Rightarrow> addr list" where
  "makes1 k = (case k of
     KTid x a \<Rightarrow> x # (if a = NULL then [] else [NULL])
   | KCreate x a _ \<Rightarrow> x # (if a = NULL then [] else [NULL])
   | KStart _ \<Rightarrow> [NULL] | KIdle _ \<Rightarrow> [NULL] | KIdleLoop \<Rightarrow> [NULL]
   | _ \<Rightarrow> [])"

fun makes :: "kont list \<Rightarrow> addr list" where
  "makes [] = []"
| "makes (k # ks) = makes1 k @ makes ks"

definition is_new :: "threads \<Rightarrow> addr \<Rightarrow> bool" where
  "is_new th x = (\<exists>t. th x = Some t \<and> status t = THREAD_BLOCKED \<and> konts t = [])"

definition tgt :: "threads \<Rightarrow> addr \<Rightarrow> int" where
  "tgt th x = (case th x of Some t \<Rightarrow> target_ticks t | None \<Rightarrow> 0)"

definition c_ready :: "threads \<Rightarrow> addr list \<Rightarrow> addr \<Rightarrow> bool" where
  "c_ready th rl i = (distinct rl \<and>
     (\<forall>x. x \<in> set rl \<longleftrightarrow> (\<exists>t. th x = Some t \<and> status t = THREAD_READY) \<and> x \<noteq> i))"

definition c_wait :: "threads \<Rightarrow> (addr \<Rightarrow> addr list) \<Rightarrow> bool" where
  "c_wait th w = (\<forall>a. distinct (w a) \<and>
     (\<forall>x. x \<in> set (w a) \<longleftrightarrow> (\<exists>t. th x = Some t \<and> status t = THREAD_BLOCKED \<and> waits_on t = Some a)))"

definition c_sleep :: "threads \<Rightarrow> addr list \<Rightarrow> bool" where
  "c_sleep th sl = (distinct sl \<and>
     (\<forall>x. x \<in> set sl \<longleftrightarrow> (\<exists>t. th x = Some t \<and> status t = THREAD_BLOCKED \<and> sleeping t)) \<and>
     sorted_wrt (\<lambda>x y. tgt th x \<le> tgt th y) sl)"

definition c_idle :: "threads \<Rightarrow> addr \<Rightarrow> bool" where
  "c_idle th i = (\<exists>t. th i = Some t \<and> konts t = [KIdleLoop] \<and> status t \<noteq> THREAD_DYING)"

definition c_make :: "threads \<Rightarrow> addr \<Rightarrow> bool" where
  "c_make th i = ((\<forall>y t. th y = Some t \<longrightarrow> distinct (makes (konts t)) \<and>
       (\<forall>x\<in>set (makes (konts t)). is_new th x \<or> x = NULL \<and> y = i)) \<and>
     (\<forall>y z t u. th y = Some t \<longrightarrow> th z = Some u \<longrightarrow> y \<noteq> z \<longrightarrow> set (makes (konts t)) \<inter> set (makes (konts u)) = {}))"

definition c_prio :: "threads \<Rightarrow> bool" where
  "c_prio th = (\<forall>x t. th x = Some t \<longrightarrow> priority t \<le> effective_priority t)"

definition c_rest :: "threads \<Rightarrow> addr \<Rightarrow> bool" where
  "c_rest th i = (\<forall>x t. th x = Some t \<longrightarrow> status t = THREAD_BLOCKED \<longrightarrow>
     x = i \<or> waits_on t \<noteq> None \<or> sleeping t \<or> konts t = [])"

definition core :: "threads \<Rightarrow> addr list \<Rightarrow> addr \<Rightarrow> (addr \<Rightarrow> addr list) \<Rightarrow> addr list \<Rightarrow> bool" where
  "core th rl i w sl = (th NULL = None \<and> c_ready th rl i \<and> c_wait th w \<and> c_sleep th sl \<and> c_idle th i \<and>
     c_make th i \<and> c_prio th \<and> c_rest th i)"

definition kcore :: "kstate \<Rightarrow> bool" where
  "kcore s = core (thr s) (ready_list s) (idle_thread s) (\<lambda>a. waiters (sems s a)) (sleep_threads_list s)"

definition one_running :: "kstate \<Rightarrow> bool" where
  "one_running s = ((\<exists>t. thr s (cur s) = Some t \<and> status t = THREAD_RUNNING) \<and>
     (\<forall>x t. thr s x = Some t \<longrightarrow> x \<noteq> cur s \<longrightarrow> status t \<noteq> THREAD_RUNNING))"

definition kinv :: "kstate \<Rightarrow> bool" where
  "kinv s = (kcore s \<and> one_running s)"

lemmas c_defs = c_ready_def c_wait_def c_sleep_def c_idle_def c_make_def c_prio_def c_rest_def

lemma coreD:
  assumes "core th rl i w sl"
  shows "th NULL = None" "c_ready th rl i" "c_wait th w" "c_sleep th sl" "c_idle th i" "c_make th i"
    "c_prio th" "c_rest th i"
  using assms unfolding core_def by auto

lemma coreI:
  assumes "th NULL = None" "c_ready th rl i" "c_wait th w" "c_sleep th sl" "c_idle th i" "c_make th i"
    "c_prio th" "c_rest th i"
  shows "core th rl i w sl"
  using assms unfolding core_def by auto

lemma waits_on_simps [simp]:
  "konts t = [] \<Longrightarrow> waits_on t = None" "konts t = [] \<Longrightarrow> \<not> sleeping t"
  "konts t = KSemaDown a # ks \<Longrightarrow> waits_on t = Some a" "konts t = KLockDown a # ks \<Longrightarrow> waits_on t = Some a"
  "konts t = KSleep # ks \<Longrightarrow> waits_on t = None" "konts t = KSleep # ks \<Longrightarrow> sleeping t"
  "konts t = [KIdleLoop] \<Longrightarrow> waits_on t = None" "konts t = [KIdleLoop] \<Longrightarrow> \<not> sleeping t"
  by (auto simp: waits_on_def sleeping_def)

lemma waits_not_sleeping: "waits_on t = Some a \<Longrightarrow> \<not> sleeping t \<and> konts t \<noteq> []"
  by (auto simp: waits_on_def sleeping_def split: list.splits kont.splits)

lemma waits_on_cong: "konts t' = konts t \<Longrightarrow> waits_on t' = waits_on t \<and> sleeping t' = sleeping t"
  by (simp add: waits_on_def sleeping_def)

lemma idle_not_waiting: "c_idle th i \<Longrightarrow> th i = Some t \<Longrightarrow> waits_on t = None \<and> \<not> sleeping t \<and> konts t \<noteq> []"
  by (auto simp: c_idle_def)

section \<open>Elementary changes\<close>

lemma sorted_tgt_upd:
  assumes "sorted_wrt (\<lambda>x y. tgt th x \<le> tgt th y) sl"
      and "\<And>z. z \<in> set sl \<Longrightarrow> tgt th' z = tgt th z"
  shows "sorted_wrt (\<lambda>x y. tgt th' x \<le> tgt th' y) sl"
  using sorted_wrt_mono_rel [OF _ assms(1), of "\<lambda>x y. tgt th' x \<le> tgt th' y"] assms(2) by auto

text \<open>A change of one thread that leaves every list as it is.\<close>

lemma c_make_upd:
  assumes m: "c_make th i" and x: "th x = Some t"
      and ki: "x = i \<Longrightarrow> konts t' = konts t"
      and k: "status t = THREAD_BLOCKED \<Longrightarrow> status t' = THREAD_BLOCKED \<and> konts t' = konts t"
      and d: "distinct (makes (konts t'))"
      and n: "\<And>z. z \<in> set (makes (konts t')) \<Longrightarrow> z \<in> set (makes (konts t)) \<or>
                (is_new th z \<and> (\<forall>y u. th y = Some u \<longrightarrow> z \<notin> set (makes (konts u))))"
  shows "c_make (th(x \<mapsto> t')) i"
proof -
  have nw: "is_new (th(x \<mapsto> t')) z" if "is_new th z" for z
    using that k x by (auto simp: is_new_def)
  have n': "is_new th z \<or> z = NULL \<and> x = i" if "z \<in> set (makes (konts t'))" for z
    using n [OF that] m x by (auto simp: c_make_def)
  have dj: "set (makes (konts t')) \<inter> set (makes (konts u)) = {}" if "th y = Some u" "y \<noteq> x" for y u
    using n m x that unfolding c_make_def by blast
  show ?thesis
    unfolding c_make_def
  proof (intro conjI allI impI)
    fix y u assume y: "(th(x \<mapsto> t')) y = Some u"
    then show "distinct (makes (konts u))" using d m by (auto simp: c_make_def split: if_splits)
    show "\<forall>z\<in>set (makes (konts u)). is_new (th(x \<mapsto> t')) z \<or> z = NULL \<and> y = i"
    proof (cases "y = x")
      case True
      then show ?thesis using y n' nw by auto
    next
      case False
      then have "\<forall>z\<in>set (makes (konts u)). is_new th z \<or> z = NULL \<and> y = i"
        using y m by (simp add: c_make_def)
      then show ?thesis using nw by blast
    qed
  next
    fix y z u v assume "(th(x \<mapsto> t')) y = Some u" "(th(x \<mapsto> t')) z = Some v" "y \<noteq> z"
    then show "set (makes (konts u)) \<inter> set (makes (konts v)) = {}"
      using dj [of y u] dj [of z v] m by (auto simp: c_make_def split: if_splits)
  qed
qed

lemma core_upd_make:
  assumes c: "core th rl i w sl" and x: "th x = Some t" and st: "status t' = status t"
      and k: "status t = THREAD_BLOCKED \<or> x = i \<Longrightarrow> konts t' = konts t"
      and tg: "status t = THREAD_BLOCKED \<Longrightarrow> target_ticks t' = target_ticks t"
      and p: "priority t' \<le> effective_priority t'"
      and mk: "c_make (th(x \<mapsto> t')) i"
  shows "core (th(x \<mapsto> t')) rl i w sl"
proof -
  note C = coreD [OF c]
  have w: "waits_on t' = waits_on t" "sleeping t' = sleeping t" if "status t = THREAD_BLOCKED"
    using waits_on_cong [OF k] that by auto
  show ?thesis
  proof (rule coreI)
    show "(th(x \<mapsto> t')) NULL = None" using C(1) x by (cases "x = NULL") auto
    show "c_ready (th(x \<mapsto> t')) rl i" using C(2) x st by (auto simp: c_ready_def)
    show "c_wait (th(x \<mapsto> t')) w" using C(3) x st w by (auto simp: c_wait_def)
    show "c_sleep (th(x \<mapsto> t')) sl"
      using C(4) x st w tg by (auto simp: c_sleep_def tgt_def elim!: sorted_wrt_mono_rel [rotated])
    show "c_idle (th(x \<mapsto> t')) i" using C(5) x st k by (auto simp: c_idle_def)
    show "c_make (th(x \<mapsto> t')) i" by (rule mk)
    show "c_prio (th(x \<mapsto> t'))" using C(7) p by (auto simp: c_prio_def)
    show "c_rest (th(x \<mapsto> t')) i" using C(8) x st w k by (auto simp: c_rest_def)
  qed
qed

lemma core_upd:
  assumes c: "core th rl i w sl" and x: "th x = Some t" and st: "status t' = status t"
      and k: "status t = THREAD_BLOCKED \<or> x = i \<Longrightarrow> konts t' = konts t"
      and tg: "status t = THREAD_BLOCKED \<Longrightarrow> target_ticks t' = target_ticks t"
      and p: "priority t' \<le> effective_priority t'"
      and mk: "makes (konts t') = makes (konts t)"
  shows "core (th(x \<mapsto> t')) rl i w sl"
  by (rule core_upd_make [OF c x st k tg p], assumption+)
    (rule c_make_upd [OF coreD(6) [OF c] x], use assms coreD(6) [OF c] in \<open>auto simp: c_make_def\<close>)

text \<open>A new thread.\<close>

lemma core_new:
  assumes c: "core th rl i w sl" and x: "th x = None" "x \<noteq> NULL"
      and t: "status t = THREAD_BLOCKED" "konts t = []" "priority t \<le> effective_priority t"
  shows "core (th(x \<mapsto> t)) rl i w sl"
proof -
  note C = coreD [OF c]
  have nw: "is_new (th(x \<mapsto> t)) z" if "is_new th z" for z using that x by (auto simp: is_new_def)
  show ?thesis
  proof (rule coreI)
    show "(th(x \<mapsto> t)) NULL = None" using C(1) x by simp
    show "c_ready (th(x \<mapsto> t)) rl i" using C(2) x t by (auto simp: c_ready_def)
    show "c_wait (th(x \<mapsto> t)) w" using C(3) x t by (auto simp: c_wait_def)
    show "c_sleep (th(x \<mapsto> t)) sl"
      using C(4) x t by (auto simp: c_sleep_def tgt_def elim!: sorted_wrt_mono_rel [rotated])
    show "c_idle (th(x \<mapsto> t)) i" using C(5) x by (auto simp: c_idle_def)
    show "c_make (th(x \<mapsto> t)) i" using C(6) x t nw by (auto simp: c_make_def)
    show "c_prio (th(x \<mapsto> t))" using C(7) t by (auto simp: c_prio_def)
    show "c_rest (th(x \<mapsto> t)) i" using C(8) t by (auto simp: c_rest_def)
  qed
qed

text \<open>
  The other changes are of the status of one thread. \<open>c_make\<close>, \<open>c_prio\<close>, \<open>c_idle\<close> follow the same
  way for all of them.
\<close>

lemma core_status_common:
  assumes c: "core th rl i w sl" and x: "th x = Some t"
      and b: "status t = THREAD_BLOCKED \<Longrightarrow> (\<forall>y u. th y = Some u \<longrightarrow> x \<notin> set (makes (konts u)))"
      and k: "makes (konts t') = makes (konts t)"
      and i: "x = i \<Longrightarrow> konts t' = konts t \<and> status t' \<noteq> THREAD_DYING"
      and p: "priority t' \<le> effective_priority t'"
  shows "(th(x \<mapsto> t')) NULL = None \<and> c_idle (th(x \<mapsto> t')) i \<and> c_make (th(x \<mapsto> t')) i \<and> c_prio (th(x \<mapsto> t'))"
proof -
  note C = coreD [OF c]
  have x0: "x \<noteq> NULL" using C(1) x by (cases "x = NULL") auto
  have nx: "z \<noteq> x" if "th y = Some u" "z \<in> set (makes (konts u))" for y u z
    using that C(6) b x x0 by (force simp: c_make_def is_new_def)
  have "c_make (th(x \<mapsto> t')) i"
    unfolding c_make_def
  proof (intro conjI allI impI)
    fix y u assume y: "(th(x \<mapsto> t')) y = Some u"
    obtain u0 where u0: "th y = Some u0" "makes (konts u) = makes (konts u0)"
      using y x k by (cases "y = x") auto
    show "distinct (makes (konts u))" using C(6) u0 by (auto simp: c_make_def)
    show "\<forall>z\<in>set (makes (konts u)). is_new (th(x \<mapsto> t')) z \<or> z = NULL \<and> y = i"
      using C(6) u0 nx [of y u0] by (auto simp: c_make_def is_new_def)
  next
    fix y z u v assume "(th(x \<mapsto> t')) y = Some u" "(th(x \<mapsto> t')) z = Some v" "y \<noteq> z"
    then show "set (makes (konts u)) \<inter> set (makes (konts v)) = {}"
      using C(6) x k by (auto simp: c_make_def split: if_splits)
  qed
  moreover have "(th(x \<mapsto> t')) NULL = None" using C(1) x by (cases "x = NULL") auto
  moreover have "c_idle (th(x \<mapsto> t')) i" using C(5) x i by (auto simp: c_idle_def)
  moreover have "c_prio (th(x \<mapsto> t'))" using C(7) p by (auto simp: c_prio_def)
  ultimately show ?thesis by simp
qed

text \<open>A running thread joins the queue of a semaphore.\<close>

lemma core_block_wait:
  assumes c: "core th rl i w sl" and x: "th x = Some t" "status t = THREAD_RUNNING"
      and t': "status t' = THREAD_BLOCKED" "waits_on t' = Some a" "makes (konts t') = makes (konts t)"
        "priority t' \<le> effective_priority t'" "x \<noteq> i"
      and w': "\<And>b. w' b = (if b = a then w a @ [x] else w b)"
  shows "core (th(x \<mapsto> t')) rl i w' sl"
proof -
  note C = coreD [OF c]
  have *: "(th(x \<mapsto> t')) NULL = None \<and> c_idle (th(x \<mapsto> t')) i \<and> c_make (th(x \<mapsto> t')) i \<and> c_prio (th(x \<mapsto> t'))"
    by (rule core_status_common [OF c x(1)]) (use x t' in auto)
  show ?thesis
  proof (rule coreI)
    show "c_ready (th(x \<mapsto> t')) rl i" using C(2) x t' by (auto simp: c_ready_def)
    show "c_wait (th(x \<mapsto> t')) w'" using C(3) x t' w' by (auto simp: c_wait_def)
    show "c_sleep (th(x \<mapsto> t')) sl"
      using C(4) x t' waits_not_sleeping [OF t'(2)]
      by (auto simp: c_sleep_def tgt_def elim!: sorted_wrt_mono_rel [rotated])
    show "c_rest (th(x \<mapsto> t')) i" using C(8) t' by (auto simp: c_rest_def)
  qed (use * in auto)
qed

text \<open>A running thread goes to sleep.\<close>

lemma sorted_tgt_ins_ordered:
  assumes "sorted_wrt (\<lambda>x y. (f x :: int) \<le> f y) xs"
      and "\<And>y. y \<in> set xs \<Longrightarrow> lt e y \<longleftrightarrow> f e < f y"
  shows "sorted_wrt (\<lambda>x y. f x \<le> f y) (ins_ordered lt e xs)"
  using assms by (induction xs) force+

lemma core_block_sleep:
  assumes c: "core th rl i w sl" and x: "th x = Some t" "status t = THREAD_RUNNING"
      and t': "status t' = THREAD_BLOCKED" "konts t' = KSleep # ks" "makes ks = makes (konts t)"
        "priority t' \<le> effective_priority t'" "x \<noteq> i"
      and lt: "\<And>y u. th y = Some u \<Longrightarrow> y \<noteq> x \<Longrightarrow> lt x y \<longleftrightarrow> target_ticks t' < target_ticks u"
  shows "core (th(x \<mapsto> t')) rl i w (ins_ordered lt x sl)"
proof -
  note C = coreD [OF c]
  have *: "(th(x \<mapsto> t')) NULL = None \<and> c_idle (th(x \<mapsto> t')) i \<and> c_make (th(x \<mapsto> t')) i \<and> c_prio (th(x \<mapsto> t'))"
    by (rule core_status_common [OF c x(1)]) (use x t' in \<open>auto simp: makes1_def\<close>)
  have nx: "x \<notin> set sl" using C(4) x by (auto simp: c_sleep_def)
  have srt: "sorted_wrt (\<lambda>y z. tgt (th(x \<mapsto> t')) y \<le> tgt (th(x \<mapsto> t')) z) sl"
    using C(4) nx by (auto simp: c_sleep_def tgt_def elim!: sorted_wrt_mono_rel [rotated])
  have lt': "lt x y \<longleftrightarrow> tgt (th(x \<mapsto> t')) x < tgt (th(x \<mapsto> t')) y" if y: "y \<in> set sl" for y
  proof -
    have "y \<noteq> x" using y nx by auto
    moreover obtain u where "th y = Some u" using y C(4) by (auto simp: c_sleep_def)
    ultimately show ?thesis using lt by (simp add: tgt_def)
  qed
  show ?thesis
  proof (rule coreI)
    show "c_ready (th(x \<mapsto> t')) rl i" using C(2) x t' by (auto simp: c_ready_def)
    show "c_wait (th(x \<mapsto> t')) w" using C(3) x t' by (auto simp: c_wait_def)
    show "c_sleep (th(x \<mapsto> t')) (ins_ordered lt x sl)"
      unfolding c_sleep_def
    proof (intro conjI)
      show "distinct (ins_ordered lt x sl)"
        using nx C(4) distinct_map_ins_ordered [of "\<lambda>y. y" lt x sl] by (simp add: c_sleep_def)
      show "sorted_wrt (\<lambda>y z. tgt (th(x \<mapsto> t')) y \<le> tgt (th(x \<mapsto> t')) z) (ins_ordered lt x sl)"
        by (rule sorted_tgt_ins_ordered [of "tgt (th(x \<mapsto> t'))" sl lt x, OF srt lt'])
    qed (use C(4) x t' in \<open>auto simp: c_sleep_def\<close>)
    show "c_rest (th(x \<mapsto> t')) i" using C(8) t' by (auto simp: c_rest_def)
  qed (use * in auto)
qed

text \<open>The idle thread blocks or yields: it is in no list.\<close>

lemma core_idle_off:
  assumes c: "core th rl i w sl" and x: "th i = Some t" "status t = THREAD_RUNNING"
      and t': "status t' = THREAD_BLOCKED \<or> status t' = THREAD_READY" "konts t' = konts t"
        "priority t' \<le> effective_priority t'"
  shows "core (th(i \<mapsto> t')) rl i w sl"
proof -
  note C = coreD [OF c]
  have *: "(th(i \<mapsto> t')) NULL = None \<and> c_idle (th(i \<mapsto> t')) i \<and> c_make (th(i \<mapsto> t')) i \<and> c_prio (th(i \<mapsto> t'))"
    by (rule core_status_common [OF c x(1)]) (use x t' in auto)
  have nw: "waits_on t' = None \<and> \<not> sleeping t'"
    using idle_not_waiting [OF C(5) x(1)] waits_on_cong [OF t'(2)] by simp
  show ?thesis
  proof (rule coreI)
    show "c_ready (th(i \<mapsto> t')) rl i" using C(2) x by (auto simp: c_ready_def)
    show "c_wait (th(i \<mapsto> t')) w" using C(3) x nw by (auto simp: c_wait_def)
    show "c_sleep (th(i \<mapsto> t')) sl"
      using C(4) x nw by (auto simp: c_sleep_def tgt_def elim!: sorted_wrt_mono_rel [rotated])
    show "c_rest (th(i \<mapsto> t')) i" using C(8) by (auto simp: c_rest_def)
  qed (use * in auto)
qed

text \<open>A running thread joins the run queue.\<close>

lemma core_to_ready:
  assumes c: "core th rl i w sl" and x: "th x = Some t" "status t = THREAD_RUNNING"
      and t': "status t' = THREAD_READY" "makes (konts t') = makes (konts t)"
        "priority t' \<le> effective_priority t'" "x \<noteq> i"
  shows "core (th(x \<mapsto> t')) (rl @ [x]) i w sl"
proof -
  note C = coreD [OF c]
  have *: "(th(x \<mapsto> t')) NULL = None \<and> c_idle (th(x \<mapsto> t')) i \<and> c_make (th(x \<mapsto> t')) i \<and> c_prio (th(x \<mapsto> t'))"
    by (rule core_status_common [OF c x(1)]) (use x t' in auto)
  show ?thesis
  proof (rule coreI)
    show "c_ready (th(x \<mapsto> t')) (rl @ [x]) i" using C(2) x t' by (auto simp: c_ready_def)
    show "c_wait (th(x \<mapsto> t')) w" using C(3) x t' by (auto simp: c_wait_def)
    show "c_sleep (th(x \<mapsto> t')) sl"
      using C(4) x t' by (auto simp: c_sleep_def tgt_def elim!: sorted_wrt_mono_rel [rotated])
    show "c_rest (th(x \<mapsto> t')) i" using C(8) t' by (auto simp: c_rest_def)
  qed (use * in auto)
qed

text \<open>A running thread dies, and the page of a dead thread is freed.\<close>

lemma core_die:
  assumes c: "core th rl i w sl" and x: "th x = Some t" "status t = THREAD_RUNNING"
      and t': "status t' = THREAD_DYING" "makes (konts t') = makes (konts t)"
        "priority t' \<le> effective_priority t'" "x \<noteq> i"
  shows "core (th(x \<mapsto> t')) rl i w sl"
proof -
  note C = coreD [OF c]
  have *: "(th(x \<mapsto> t')) NULL = None \<and> c_idle (th(x \<mapsto> t')) i \<and> c_make (th(x \<mapsto> t')) i \<and> c_prio (th(x \<mapsto> t'))"
    by (rule core_status_common [OF c x(1)]) (use x t' in auto)
  show ?thesis
  proof (rule coreI)
    show "c_ready (th(x \<mapsto> t')) rl i" using C(2) x t' by (auto simp: c_ready_def)
    show "c_wait (th(x \<mapsto> t')) w" using C(3) x t' by (auto simp: c_wait_def)
    show "c_sleep (th(x \<mapsto> t')) sl"
      using C(4) x t' by (auto simp: c_sleep_def tgt_def elim!: sorted_wrt_mono_rel [rotated])
    show "c_rest (th(x \<mapsto> t')) i" using C(8) t' by (auto simp: c_rest_def)
  qed (use * in auto)
qed

lemma core_free:
  assumes c: "core th rl i w sl" and x: "th x = Some t" "status t = THREAD_DYING"
  shows "core (th(x := None)) rl i w sl"
proof -
  note C = coreD [OF c]
  have nw: "is_new (th(x := None)) z" if "is_new th z" for z using that x by (auto simp: is_new_def)
  show ?thesis
  proof (rule coreI)
    show "(th(x := None)) NULL = None" using C(1) by simp
    show "c_ready (th(x := None)) rl i" using C(2) x by (auto simp: c_ready_def)
    show "c_wait (th(x := None)) w" using C(3) x by (auto simp: c_wait_def)
    show "c_sleep (th(x := None)) sl"
      using C(4) x by (auto simp: c_sleep_def tgt_def elim!: sorted_wrt_mono_rel [rotated])
    show "c_idle (th(x := None)) i" using C(5) x by (auto simp: c_idle_def)
    show "c_make (th(x := None)) i" using C(6) nw by (auto simp: c_make_def)
    show "c_prio (th(x := None))" using C(7) by (auto simp: c_prio_def)
    show "c_rest (th(x := None)) i" using C(8) by (auto simp: c_rest_def)
  qed
qed

text \<open>The scheduler's choice starts to run.\<close>

lemma core_run:
  assumes c: "core th rl i w sl" and x: "th x = Some t" "x \<in> set rl \<or> x = i"
  shows "core (th(x \<mapsto> t\<lparr>status := THREAD_RUNNING\<rparr>)) (remove1 x rl) i w sl"
proof -
  note C = coreD [OF c]
  let ?t = "t\<lparr>status := THREAD_RUNNING\<rparr>"
  have st: "status t = THREAD_READY \<or> x = i" using C(2) x by (auto simp: c_ready_def)
  have "x \<noteq> NULL" using C(1) x by (cases "x = NULL") auto
  then have nm: "\<forall>y u. th y = Some u \<longrightarrow> x \<notin> set (makes (konts u))"
    using C(6) st x(1) idle_not_waiting [OF C(5), of t] by (force simp: c_make_def is_new_def)
  have *: "(th(x \<mapsto> ?t)) NULL = None \<and> c_idle (th(x \<mapsto> ?t)) i \<and> c_make (th(x \<mapsto> ?t)) i \<and> c_prio (th(x \<mapsto> ?t))"
    by (rule core_status_common [OF c x(1)]) (use nm C(7) x in \<open>auto simp: c_prio_def\<close>)
  have nw: "status t = THREAD_BLOCKED \<Longrightarrow> waits_on t = None \<and> \<not> sleeping t"
    using st x(1) idle_not_waiting [OF C(5), of t] by auto
  show ?thesis
  proof (rule coreI)
    show "c_ready (th(x \<mapsto> ?t)) (remove1 x rl) i" using C(2) x by (auto simp: c_ready_def)
    show "c_wait (th(x \<mapsto> ?t)) w" using C(3) x nw by (auto simp: c_wait_def)
    show "c_sleep (th(x \<mapsto> ?t)) sl"
      using C(4) x nw by (auto simp: c_sleep_def tgt_def elim!: sorted_wrt_mono_rel [rotated])
    show "c_rest (th(x \<mapsto> ?t)) i" using C(8) by (auto simp: c_rest_def)
  qed (use * in auto)
qed

text \<open>A blocked thread is woken.\<close>

lemma core_wake:
  assumes c: "core th rl i w sl" and x: "th x = Some t" "status t = THREAD_BLOCKED" "x \<noteq> i"
      and nm: "\<forall>y u. th y = Some u \<longrightarrow> x \<notin> set (makes (konts u))"
      and t': "status t' = THREAD_READY" "makes (konts t') = makes (konts t)"
        "priority t' \<le> effective_priority t'"
      and w': "\<And>b. w' b = remove1 x (w b)" and sl': "sl' = remove1 x sl"
  shows "core (th(x \<mapsto> t')) (rl @ [x]) i w' sl'"
proof -
  note C = coreD [OF c]
  have *: "(th(x \<mapsto> t')) NULL = None \<and> c_idle (th(x \<mapsto> t')) i \<and> c_make (th(x \<mapsto> t')) i \<and> c_prio (th(x \<mapsto> t'))"
    by (rule core_status_common [OF c x(1)]) (use x nm t' in auto)
  show ?thesis
  proof (rule coreI)
    show "c_ready (th(x \<mapsto> t')) (rl @ [x]) i" using C(2) x t' by (auto simp: c_ready_def)
    show "c_wait (th(x \<mapsto> t')) w'" using C(3) x t' w' by (auto simp: c_wait_def)
    have "sorted_wrt (\<lambda>x y. tgt th x \<le> tgt th y) sl'"
      using C(4) by (auto simp: c_sleep_def sl' sorted_wrt_filter distinct_remove1_removeAll
        removeAll_filter_not_eq)
    then show "c_sleep (th(x \<mapsto> t')) sl'"
      using C(4) x t' by (auto simp: c_sleep_def sl' tgt_def elim!: sorted_wrt_mono_rel [rotated])
    show "c_rest (th(x \<mapsto> t')) i" using C(8) t' by (auto simp: c_rest_def)
  qed (use * in auto)
qed

section \<open>The scheduler\<close>

lemma pick_max_greatest:
  fixes f :: "'a \<Rightarrow> int"
  shows "pick_max (\<lambda>a b. f a < f b) x ys \<in> set (x # ys) \<and>
    (\<forall>y\<in>set (x # ys). f y \<le> f (pick_max (\<lambda>a b. f a < f b) x ys))"
  unfolding pick_max_def
proof (induction ys arbitrary: x)
  case (Cons y ys)
  show ?case using Cons.IH [of x] Cons.IH [of y] by (cases "f x < f y") auto
qed simp

lemma next_thread_greatest:
  assumes "xs \<noteq> []"
  shows "\<exists>t. get_and_remove_next_thread xs s = Some (t, remove1 t xs) \<and> t \<in> set xs \<and>
    (\<forall>y\<in>set xs. eff s y \<le> eff s t)"
proof -
  have f: "thread_priority_less_function s = (\<lambda>a b. eff s a < eff s b)"
    by (intro ext) (simp add: thread_priority_less_function_def)
  obtain x ys where xs: "xs = x # ys" using assms by (cases xs) auto
  show ?thesis
    using pick_max_greatest [of "eff s" x ys] unfolding xs get_and_remove_next_thread_def f by (simp add: Let_def)
qed

text \<open>What switching threads leaves as it is.\<close>

definition sched_frame :: "kstate \<Rightarrow> kstate \<Rightarrow> bool" where
  "sched_frame s s' = (sems s' = sems s \<and> locks s' = locks s \<and> conds s' = conds s \<and>
     sleep_threads_list s' = sleep_threads_list s \<and> ticks s' = ticks s \<and> idle_thread s' = idle_thread s \<and>
     initial_thread s' = initial_thread s \<and> in_external_intr s' = in_external_intr s \<and>
     next_tid s' = next_tid s \<and>
     (\<forall>x t. thr s x = Some t \<longrightarrow> status t = THREAD_BLOCKED \<longrightarrow> x \<noteq> idle_thread s \<longrightarrow> thr s' x = Some t) \<and>
     (\<forall>x t. thr s x = Some t \<longrightarrow> status t \<noteq> THREAD_DYING \<longrightarrow>
        (\<exists>t'. thr s' x = Some t' \<and> status t' \<noteq> THREAD_DYING \<and> konts t' = konts t)))"

lemma sched_frame_trans:
  assumes "sched_frame s r" "sched_frame r s'"
  shows "sched_frame s s'"
  unfolding sched_frame_def
proof (intro conjI allI impI)
  fix x t assume "thr s x = Some t" "status t \<noteq> THREAD_DYING"
  then show "\<exists>t'. thr s' x = Some t' \<and> status t' \<noteq> THREAD_DYING \<and> konts t' = konts t"
    using assms unfolding sched_frame_def by metis
qed (use assms in \<open>simp_all add: sched_frame_def\<close>)

lemma sched_frame_refl [simp]: "sched_frame s s"
  by (simp add: sched_frame_def)

definition runs_highest :: "kstate \<Rightarrow> bool" where
  "runs_highest s = (\<forall>x\<in>set (ready_list s). eff s x \<le> eff s (cur s))"

lemma next_thread_core:
  assumes c: "kcore s"
  shows "\<exists>x t rs. next_thread_to_run s = Some (x, s\<lparr>ready_list := rs\<rparr>) \<and> rs = remove1 x (ready_list s) \<and>
    thr s x = Some t \<and> x \<noteq> NULL \<and> (x \<in> set (ready_list s) \<or> x = idle_thread s) \<and>
    (\<forall>y\<in>set rs. eff s y \<le> eff s x)"
proof (cases "ready_list s = []")
  case True
  obtain t where t: "thr s (idle_thread s) = Some t"
    using coreD(5) [OF c [unfolded kcore_def]] by (auto simp: c_idle_def)
  moreover have "idle_thread s \<noteq> NULL" using t coreD(1) [OF c [unfolded kcore_def]] by (cases "idle_thread s = NULL") auto
  ultimately show ?thesis using True by (auto simp: next_thread_to_run_def)
next
  case False
  obtain x where x: "get_and_remove_next_thread (ready_list s) s = Some (x, remove1 x (ready_list s))"
    "x \<in> set (ready_list s)" "\<forall>y\<in>set (ready_list s). eff s y \<le> eff s x"
    using next_thread_greatest [OF False] by blast
  obtain t where t: "thr s x = Some t"
    using coreD(2) [OF c [unfolded kcore_def]] x by (auto simp: c_ready_def)
  moreover have "x \<noteq> NULL" using t coreD(1) [OF c [unfolded kcore_def]] by (cases "x = NULL") auto
  moreover have "\<forall>y\<in>set (remove1 x (ready_list s)). eff s y \<le> eff s x"
    using x(3) set_remove1_subset [of x "ready_list s"] by auto
  ultimately show ?thesis using False x by (auto simp: next_thread_to_run_def)
qed

lemma kinvI:
  assumes "core (thr s) (ready_list s) (idle_thread s) (\<lambda>a. waiters (sems s a)) (sleep_threads_list s)"
      and "thr s (cur s) = Some t" "status t = THREAD_RUNNING"
      and "\<And>x u. thr s x = Some u \<Longrightarrow> x \<noteq> cur s \<Longrightarrow> status u \<noteq> THREAD_RUNNING"
  shows "kinv s"
  using assms unfolding kinv_def kcore_def one_running_def by blast

lemma kinv_running: "kinv s \<Longrightarrow> thr s x = Some u \<Longrightarrow> status u = THREAD_RUNNING \<Longrightarrow> x = cur s"
  unfolding kinv_def one_running_def by blast

lemma schedule_ok:
  assumes c: "kcore s" and nr: "\<And>x t. thr s x = Some t \<Longrightarrow> status t \<noteq> THREAD_RUNNING"
      and cu: "thr s (cur s) = Some u"
  shows "\<exists>s'. schedule s = Some s' \<and> kinv s' \<and> sched_frame s s' \<and> runs_highest s'"
proof -
  obtain x t rs where x: "next_thread_to_run s = Some (x, s\<lparr>ready_list := rs\<rparr>)"
    and rs: "rs = remove1 x (ready_list s)" and t: "thr s x = Some t" "x \<noteq> NULL"
    and xr: "x \<in> set (ready_list s) \<or> x = idle_thread s" and mx: "\<forall>y\<in>set rs. eff s y \<le> eff s x"
    using next_thread_core [OF c] by blast
  define th where "th = (thr s)(x \<mapsto> t\<lparr>status := THREAD_RUNNING\<rparr>)"
  define w where "w = (\<lambda>a. waiters (sems s a))"
  have co: "core th rs (idle_thread s) w (sleep_threads_list s)"
    unfolding th_def rs w_def by (rule core_run [OF c [unfolded kcore_def] t(1) xr])
  have blk: "thr s y = Some v \<Longrightarrow> status v = THREAD_BLOCKED \<Longrightarrow> y \<noteq> idle_thread s \<Longrightarrow> y \<noteq> x" for y v
    using xr coreD(2) [OF c [unfolded kcore_def]] by (auto simp: c_ready_def)
  have ef: "eff s' y = eff s y" if "thr s' = th" for s' y
    using that t by (auto simp: eff_def th_def split: option.splits)
  have run1: "th y = Some v \<Longrightarrow> y \<noteq> x \<Longrightarrow> status v \<noteq> THREAD_RUNNING" for y v
    using nr by (auto simp: th_def split: if_splits)
  show ?thesis
  proof (cases "cur s \<noteq> x \<and> status u = THREAD_DYING \<and> cur s \<noteq> initial_thread s")
    case False
    let ?s = "s\<lparr>ready_list := rs, cur := x, thr := th, thread_ticks := 0\<rparr>"
    have "schedule s = Some ?s"
      using False x t cu nr [OF cu] coreD(1) [OF c [unfolded kcore_def]]
      by (auto simp: schedule_def thread_schedule_tail_def is_thread_def upd_def th_def Let_def split: option.splits)
    moreover have "kinv ?s"
      by (rule kinvI [where t = "t\<lparr>status := THREAD_RUNNING\<rparr>"])
        (use co run1 in \<open>simp_all add: w_def\<close>, simp add: th_def)
    moreover have "sched_frame s ?s" using blk t by (auto simp: sched_frame_def th_def)
    moreover have "runs_highest ?s" using mx ef [of ?s] by (simp add: runs_highest_def)
    ultimately show ?thesis by blast
  next
    case True
    let ?s = "s\<lparr>ready_list := rs, cur := x, thr := th(cur s := None), thread_ticks := 0\<rparr>"
    have cth: "th (cur s) = Some u" using True cu by (simp add: th_def)
    have "schedule s = Some ?s"
      using True x t cu cth nr [OF cu] coreD(1) [OF c [unfolded kcore_def]]
      by (auto simp: schedule_def thread_schedule_tail_def is_thread_def upd_def th_def Let_def split: option.splits)
    moreover have "core (th(cur s := None)) rs (idle_thread s) w (sleep_threads_list s)"
      by (rule core_free [OF co cth]) (use True in simp)
    then have "kinv ?s"
      by (intro kinvI [where t = "t\<lparr>status := THREAD_RUNNING\<rparr>"])
        (use run1 True in \<open>simp_all add: w_def split: if_splits\<close>, simp add: th_def)
    moreover have "sched_frame s ?s" using blk True cu t by (auto simp: sched_frame_def th_def)
    moreover have "runs_highest ?s"
    proof -
      have "cur s \<notin> set rs" using coreD(2) [OF co] cth True by (auto simp: c_ready_def)
      moreover have "eff ?s y = eff s y" if "y \<noteq> cur s" for y
        using that t by (auto simp: eff_def th_def split: option.splits)
      moreover have "x \<noteq> cur s" using True by simp
      ultimately show ?thesis using mx by (simp add: runs_highest_def) metis
    qed
    ultimately show ?thesis by blast
  qed
qed

lemma kinv_current:
  assumes "kinv s"
  obtains t where "thr s (cur s) = Some t" "status t = THREAD_RUNNING" "cur s \<noteq> NULL"
    "thread_current s = Some (cur s)" "priority t \<le> effective_priority t"
proof -
  obtain t where t: "thr s (cur s) = Some t" "status t = THREAD_RUNNING"
    using assms by (auto simp: kinv_def one_running_def)
  have c: "core (thr s) (ready_list s) (idle_thread s) (\<lambda>a. waiters (sems s a)) (sleep_threads_list s)"
    using assms by (simp add: kinv_def kcore_def)
  have "cur s \<noteq> NULL" using t coreD(1) [OF c] by (cases "cur s = NULL") auto
  moreover have "priority t \<le> effective_priority t" using coreD(7) [OF c] t by (auto simp: c_prio_def)
  ultimately show ?thesis
    using that t by (simp add: thread_current_def is_thread_def)
qed

lemma upd_Some: "thr s x = Some t \<Longrightarrow> upd x f s = s\<lparr>thr := (thr s)(x \<mapsto> f t)\<rparr>"
  by (simp add: upd_def)

lemma thread_yield_ok:
  assumes k: "kinv s" and "\<not> in_external_intr s"
  shows "\<exists>s'. thread_yield s = Some s' \<and> kinv s' \<and> sched_frame s s' \<and> runs_highest s'"
proof -
  obtain t where t: "thr s (cur s) = Some t" "status t = THREAD_RUNNING" "thread_current s = Some (cur s)"
    "priority t \<le> effective_priority t"
    using kinv_current [OF k] by metis
  have c: "core (thr s) (ready_list s) (idle_thread s) (\<lambda>a. waiters (sems s a)) (sleep_threads_list s)"
    using k by (simp add: kinv_def kcore_def)
  let ?th = "(thr s)(cur s \<mapsto> t\<lparr>status := THREAD_READY\<rparr>)"
  let ?s = "s\<lparr>ready_list := (if cur s = idle_thread s then ready_list s else ready_list s @ [cur s]), thr := ?th\<rparr>"
  have "kcore ?s"
  proof (cases "cur s = idle_thread s")
    case True
    then show ?thesis
      using core_idle_off [OF c, of t "t\<lparr>status := THREAD_READY\<rparr>"] t by (simp add: kcore_def)
  next
    case False
    then show ?thesis
      using core_to_ready [OF c t(1,2), of "t\<lparr>status := THREAD_READY\<rparr>"] t by (simp add: kcore_def)
  qed
  moreover have "status v \<noteq> THREAD_RUNNING" if "thr ?s y = Some v" for y v
    using that kinv_running [OF k, of y v] by (cases "y = cur s") auto
  ultimately obtain s' where s': "schedule ?s = Some s'" "kinv s'" "sched_frame ?s s'" "runs_highest s'"
    using schedule_ok [of ?s "t\<lparr>status := THREAD_READY\<rparr>"] by auto
  have "thread_yield s = schedule ?s"
    using t assms(2) by (auto simp: thread_yield_def upd_Some Let_def)
  moreover have "sched_frame s ?s" using t by (auto simp: sched_frame_def)
  then have "sched_frame s s'" by (rule sched_frame_trans [OF _ s'(3)])
  ultimately show ?thesis using s' by auto
qed

text \<open>Giving up the processor inside \<open>sema_down\<close>, in \<open>timer_sleep\<close>, in the idle loop.\<close>

lemma thread_block_ok:
  assumes k: "kcore (upd (cur s) (\<lambda>t. t\<lparr>status := THREAD_BLOCKED\<rparr>) s)" and "one_running s"
      and "thr s NULL = None" and "\<not> in_external_intr s"
  shows "\<exists>s'. thread_block s = Some s' \<and> kinv s' \<and> sched_frame s s' \<and> runs_highest s' \<and>
    sched_frame (upd (cur s) (\<lambda>t. t\<lparr>status := THREAD_BLOCKED\<rparr>) s) s'"
proof -
  obtain t where t: "thr s (cur s) = Some t" "status t = THREAD_RUNNING"
    using assms(2) by (auto simp: one_running_def)
  let ?s = "s\<lparr>thr := (thr s)(cur s \<mapsto> t\<lparr>status := THREAD_BLOCKED\<rparr>)\<rparr>"
  have "cur s \<noteq> NULL" using assms(3) t by (cases "cur s = NULL") auto
  then have b: "thread_block s = schedule ?s"
    using t assms(4) by (simp add: thread_block_def thread_current_def is_thread_def upd_Some)
  have "status v \<noteq> THREAD_RUNNING" if "thr ?s y = Some v" for y v
    using that assms(2) unfolding one_running_def by (cases "y = cur s") auto
  then obtain s' where s': "schedule ?s = Some s'" "kinv s'" "sched_frame ?s s'" "runs_highest s'"
    using schedule_ok [of ?s "t\<lparr>status := THREAD_BLOCKED\<rparr>"] k t by (auto simp: upd_Some)
  moreover have "sched_frame s ?s" using t by (auto simp: sched_frame_def)
  then have "sched_frame s s'" by (rule sched_frame_trans [OF _ s'(3)])
  ultimately show ?thesis using b t by (auto simp: upd_Some)
qed

lemma kinv_core: "kinv s \<Longrightarrow>
    core (thr s) (ready_list s) (idle_thread s) (\<lambda>a. waiters (sems s a)) (sleep_threads_list s)"
  by (simp add: kinv_def kcore_def)

lemma one_running_upd:
  "one_running s \<Longrightarrow> (\<And>t. status (f t) = status t) \<Longrightarrow> one_running (upd x f s)"
  unfolding one_running_def upd_def by (cases "x = cur s") auto

definition cur_waits :: "kstate \<Rightarrow> addr \<Rightarrow> bool" where
  "cur_waits s a = (cur s \<noteq> idle_thread s \<and> (\<exists>t. thr s (cur s) = Some t \<and> waits_on t = Some a))"

lemma sema_down_iter_wait:
  assumes k: "kinv s" and x: "\<not> in_external_intr s" and w: "cur_waits s a" and v: "sval (sems s a) = 0"
  shows "\<exists>s'. sema_down_iter a s = Some (False, s') \<and> kinv s' \<and> runs_highest s' \<and>
    sched_frame (set_sema a ((sems s a)\<lparr>waiters := waiters (sems s a) @ [cur s]\<rparr>) s) s'"
proof -
  obtain t where t: "thr s (cur s) = Some t" "status t = THREAD_RUNNING" "thread_current s = Some (cur s)"
    "priority t \<le> effective_priority t"
    using kinv_current [OF k] by metis
  let ?r = "set_sema a ((sems s a)\<lparr>waiters := waiters (sems s a) @ [cur s]\<rparr>) s"
  have "core ((thr s)(cur s \<mapsto> t\<lparr>status := THREAD_BLOCKED\<rparr>)) (ready_list s) (idle_thread s)
      (\<lambda>b. waiters (sems ?r b)) (sleep_threads_list s)"
    by (rule core_block_wait [OF kinv_core [OF k] t(1,2), where a = a])
      (use t w in \<open>auto simp: cur_waits_def set_sema_def waits_on_def\<close>)
  then have "kcore (upd (cur ?r) (\<lambda>t. t\<lparr>status := THREAD_BLOCKED\<rparr>) ?r)"
    using t by (simp add: kcore_def upd_def set_sema_def)
  moreover have "one_running ?r" using k by (simp add: kinv_def one_running_def set_sema_def)
  moreover have "thr ?r NULL = None" using coreD(1) [OF kinv_core [OF k]] by (simp add: set_sema_def)
  moreover have "\<not> in_external_intr ?r" using x by (simp add: set_sema_def)
  ultimately have "\<exists>s'. thread_block ?r = Some s' \<and> kinv s' \<and> sched_frame ?r s' \<and> runs_highest s'"
    using thread_block_ok [of ?r] by blast
  then show ?thesis using v t by (auto simp: sema_down_iter_def)
qed

lemma kinv_sval:
  assumes "kinv s" shows "kinv (set_sema a ((sems s a)\<lparr>sval := v\<rparr>) s)"
proof -
  have "(\<lambda>b. waiters (((sems s)(a := (sems s a)\<lparr>sval := v\<rparr>)) b)) = (\<lambda>b. waiters (sems s b))" by auto
  then show ?thesis
    using assms by (simp add: kinv_def kcore_def one_running_def set_sema_def)
qed

lemma sema_down_iter_kinv:
  assumes "sema_down_iter a s = Some (b, s')" and k: "kinv s" "\<not> in_external_intr s" and w: "cur_waits s a"
  shows "kinv s' \<and> \<not> in_external_intr s'"
proof (cases "sval (sems s a) = 0")
  case True
  then show ?thesis
    using sema_down_iter_wait [OF k w True] assms(1) k by (auto simp: sched_frame_def set_sema_def)
next
  case False
  then show ?thesis
    using assms(1) kinv_sval [OF k(1)] k by (auto simp: sema_down_iter_def set_sema_def)
qed

end
