(* ===== verification/Kernel_Ops.thy ===== *)
theory Kernel_Ops
  imports Kernel_Inv
begin

text \<open>
  Every operation on threads, semaphores, locks, condition variables and the timer keeps the
  invariant of \<open>Kernel_Inv\<close>. The operations that cannot fail in a state that satisfies it are
  shown to return.
\<close>

definition kok :: "kstate \<Rightarrow> bool" where
  "kok s = (kinv s \<and> \<not> in_external_intr s)"

section \<open>Changes of a thread that leave it where it is\<close>

lemma kinv_upd:
  assumes k: "kinv s"
      and f: "\<And>t. thr s x = Some t \<Longrightarrow> priority t \<le> effective_priority t \<Longrightarrow>
        status (f t) = status t \<and> (status t = THREAD_BLOCKED \<or> x = idle_thread s \<longrightarrow> konts (f t) = konts t) \<and>
        (status t = THREAD_BLOCKED \<longrightarrow> target_ticks (f t) = target_ticks t) \<and>
        priority (f t) \<le> effective_priority (f t) \<and> makes (konts (f t)) = makes (konts t)"
  shows "kinv (upd x f s)"
proof (cases "thr s x")
  case None
  then have "(thr s)(x := None) = thr s" by auto
  then show ?thesis using k None by (simp add: upd_def)
next
  case (Some t)
  have "priority t \<le> effective_priority t"
    using coreD(7) [OF kinv_core [OF k]] Some by (auto simp: c_prio_def)
  note F = f [OF Some this]
  have "core ((thr s)(x \<mapsto> f t)) (ready_list s) (idle_thread s) (\<lambda>a. waiters (sems s a)) (sleep_threads_list s)"
    by (rule core_upd [OF kinv_core [OF k] Some]) (use F in auto)
  moreover have "one_running (s\<lparr>thr := (thr s)(x \<mapsto> f t)\<rparr>)"
    using k Some F unfolding kinv_def one_running_def by auto
  ultimately show ?thesis using Some by (simp add: kinv_def kcore_def upd_Some)
qed

lemma kinv_other:
  assumes "kinv s" "thr s' = thr s" "ready_list s' = ready_list s" "idle_thread s' = idle_thread s"
    "cur s' = cur s" "sems s' = sems s" "sleep_threads_list s' = sleep_threads_list s"
  shows "kinv s'"
  using assms by (simp add: kinv_def kcore_def one_running_def)

lemma kinv_set_lock [simp]: "kinv s \<Longrightarrow> kinv (set_lock l x s)"
  by (erule kinv_other) (simp_all add: set_lock_def)

definition plain :: "kont \<Rightarrow> bool" where
  "plain k = (makes1 k = [])"

lemma makes_plain [simp]: "plain k \<Longrightarrow> makes (k # ks) = makes ks"
  by (simp add: plain_def)

lemma makes_Cons [simp]: "makes (KTid x NULL # ks) = x # makes ks" "makes (KCreate x NULL i # ks) = x # makes ks"
  by (simp_all add: makes1_def)

declare makes.simps(2) [simp del]

lemma plain_simps [simp]:
  "plain KNew" "plain (KSemaDown a)" "plain (KLockDown a)" "plain (KLockUp a)" "plain (KCondDown a b)"
  "plain (KCondLock a)" "plain (KCondMore a b)" "plain KSleep" "plain (KExitKids a)" "plain KExitWait"
  "plain KExitTail"
  by (simp_all add: plain_def makes1_def)

lemma kinv_cur_status: "kinv s \<Longrightarrow> thr s (cur s) = Some t \<Longrightarrow> status t = THREAD_RUNNING"
  unfolding kinv_def one_running_def by auto

lemma push_kont_kinv:
  assumes "kinv s" "cur s \<noteq> idle_thread s" "plain k"
  shows "kinv (push_kont k s)"
  unfolding push_kont_def
  by (rule kinv_upd [OF assms(1)]) (use kinv_cur_status [OF assms(1)] assms in auto)

lemma kinv_upd_make:
  assumes k: "kinv s" and x: "thr s x = Some t" "status t = THREAD_RUNNING" "x \<noteq> idle_thread s"
      and f: "status (f t) = THREAD_RUNNING" "priority (f t) \<le> effective_priority (f t)"
        "distinct (makes (konts (f t)))"
      and n: "\<And>z. z \<in> set (makes (konts (f t))) \<Longrightarrow> z \<in> set (makes (konts t)) \<or>
                (is_new (thr s) z \<and> (\<forall>y u. thr s y = Some u \<longrightarrow> z \<notin> set (makes (konts u))))"
  shows "kinv (upd x f s)"
proof -
  note c = kinv_core [OF k]
  have "c_make ((thr s)(x \<mapsto> f t)) (idle_thread s)"
    by (rule c_make_upd [OF coreD(6) [OF c] x(1)]) (use x f n in auto)
  then have "core ((thr s)(x \<mapsto> f t)) (ready_list s) (idle_thread s) (\<lambda>a. waiters (sems s a)) (sleep_threads_list s)"
    by (intro core_upd_make [OF c x(1)]) (use x f in auto)
  moreover have "one_running (s\<lparr>thr := (thr s)(x \<mapsto> f t)\<rparr>)"
    using k x f unfolding kinv_def one_running_def by auto
  ultimately show ?thesis using x by (simp add: kinv_def kcore_def upd_Some)
qed

lemma pop_kont_kinv:
  assumes k: "kinv s" "cur s \<noteq> idle_thread s" "cur_konts s = k # ks"
  shows "kinv (pop_kont s)"
proof -
  obtain t where t: "thr s (cur s) = Some t" "status t = THREAD_RUNNING" "priority t \<le> effective_priority t"
    using kinv_current [OF k(1)] by metis
  have ks: "konts t = k # ks" using k(3) t by (simp add: cur_konts_def)
  have "distinct (makes (k # ks))"
    using coreD(6) [OF kinv_core [OF k(1)]] t unfolding c_make_def ks [symmetric] by blast
  then show ?thesis
    unfolding pop_kont_def
    by (intro kinv_upd_make [OF k(1) t(1,2) k(2)]) (use t ks in \<open>auto simp: makes.simps(2)\<close>)
qed

text \<open>A thread that is being created belongs to one creator only.\<close>

lemma pop_make:
  assumes k: "kinv s" "cur s \<noteq> idle_thread s" "cur_konts s = k # ks" and m: "x \<in> set (makes1 k)"
  shows "is_new (thr (pop_kont s)) x" "\<And>y u. thr (pop_kont s) y = Some u \<Longrightarrow> x \<notin> set (makes (konts u))"
    "x \<noteq> cur s" "is_new (thr s) x"
proof -
  obtain t where t: "thr s (cur s) = Some t" "status t = THREAD_RUNNING"
    using kinv_current [OF k(1)] by metis
  have ks: "konts t = k # ks" using k(3) t by (simp add: cur_konts_def)
  note C = coreD(6) [OF kinv_core [OF k(1)], unfolded c_make_def]
  have d: "distinct (makes (k # ks))" using C t unfolding ks [symmetric] by blast
  have xm: "x \<in> set (makes (konts t))" using ks m by (simp add: makes.simps(2))
  have nw: "is_new (thr s) x" using C t xm k(2) by blast
  then show "is_new (thr s) x" .
  show xc: "x \<noteq> cur s" using nw t by (auto simp: is_new_def)
  show "is_new (thr (pop_kont s)) x" using nw xc by (simp add: is_new_def pop_kont_def upd_def)
  show "x \<notin> set (makes (konts u))" if u: "thr (pop_kont s) y = Some u" for y u
  proof (cases "y = cur s")
    case True
    then have "makes (konts u) = makes ks" using u t ks by (auto simp: pop_kont_def upd_def)
    then show ?thesis using d m by (auto simp: makes.simps(2))
  next
    case False
    then have "thr s y = Some u" using u by (simp add: pop_kont_def upd_def)
    then show ?thesis using C t False xm by blast
  qed
qed

lemma push_make:
  assumes k: "kinv s" "cur s \<noteq> idle_thread s" and m: "makes1 k = [x]" "is_new (thr s) x"
      and n: "\<And>y u. thr s y = Some u \<Longrightarrow> x \<notin> set (makes (konts u))"
  shows "kinv (push_kont k s)"
proof -
  obtain t where t: "thr s (cur s) = Some t" "status t = THREAD_RUNNING" "priority t \<le> effective_priority t"
    using kinv_current [OF k(1)] by metis
  have "distinct (makes (konts t))" using coreD(6) [OF kinv_core [OF k(1)]] t by (auto simp: c_make_def)
  then show ?thesis
    unfolding push_kont_def
    by (intro kinv_upd_make [OF k(1) t(1,2) k(2)]) (use t m n in \<open>auto simp: makes.simps(2)\<close>)
qed

lemma push_pop_fields [simp]:
  "cur (push_kont k s) = cur s" "cur (pop_kont s) = cur s"
  "idle_thread (push_kont k s) = idle_thread s" "idle_thread (pop_kont s) = idle_thread s"
  "in_external_intr (push_kont k s) = in_external_intr s" "in_external_intr (pop_kont s) = in_external_intr s"
  "sems (push_kont k s) = sems s" "sems (pop_kont s) = sems s"
  "locks (push_kont k s) = locks s" "locks (pop_kont s) = locks s"
  "conds (push_kont k s) = conds s" "conds (pop_kont s) = conds s"
  "ready_list (push_kont k s) = ready_list s" "ready_list (pop_kont s) = ready_list s"
  by (simp_all add: push_kont_def pop_kont_def upd_def)

lemma upd_fields [simp]:
  "cur (upd x f s) = cur s" "idle_thread (upd x f s) = idle_thread s"
  "in_external_intr (upd x f s) = in_external_intr s" "sems (upd x f s) = sems s"
  "locks (upd x f s) = locks s" "conds (upd x f s) = conds s" "ready_list (upd x f s) = ready_list s"
  "next_tid (upd x f s) = next_tid s" "ticks (upd x f s) = ticks s"
  "sleep_threads_list (upd x f s) = sleep_threads_list s" "thread_ticks (upd x f s) = thread_ticks s"
  "yield_on_return (upd x f s) = yield_on_return s" "initial_thread (upd x f s) = initial_thread s"
  "all_list (upd x f s) = all_list s"
  by (simp_all add: upd_def)

lemma set_fields [simp]:
  "cur (set_sema a x s) = cur s" "idle_thread (set_sema a x s) = idle_thread s"
  "in_external_intr (set_sema a x s) = in_external_intr s" "locks (set_sema a x s) = locks s"
  "thr (set_sema a x s) = thr s" "ready_list (set_sema a x s) = ready_list s" "conds (set_sema a x s) = conds s"
  "cur (set_lock l y s) = cur s" "idle_thread (set_lock l y s) = idle_thread s"
  "in_external_intr (set_lock l y s) = in_external_intr s" "sems (set_lock l y s) = sems s"
  "thr (set_lock l y s) = thr s" "ready_list (set_lock l y s) = ready_list s" "conds (set_lock l y s) = conds s"
  by (simp_all add: set_sema_def set_lock_def)

section \<open>Waking and yielding\<close>

text \<open>The state after \<open>sema_wake\<close> has moved \<open>x\<close> from the queue of \<open>a\<close> to the run queue.\<close>

definition woken :: "addr \<Rightarrow> addr \<Rightarrow> kstate \<Rightarrow> kstate" where
  "woken a x s = s\<lparr>thr := (thr s)(x := map_option (\<lambda>t. t\<lparr>status := THREAD_READY\<rparr>) (thr s x)),
     sems := (sems s)(a := (sems s a)\<lparr>waiters := remove1 x (waiters (sems s a))\<rparr>),
     ready_list := ready_list s @ [x]\<rparr>"

lemma woken_fields [simp]:
  "cur (woken a x s) = cur s" "idle_thread (woken a x s) = idle_thread s"
  "in_external_intr (woken a x s) = in_external_intr s" "locks (woken a x s) = locks s"
  "conds (woken a x s) = conds s" "sval (sems (woken a x s) b) = sval (sems s b)"
  by (simp_all add: woken_def)

definition best_waiter :: "addr \<Rightarrow> addr \<Rightarrow> kstate \<Rightarrow> bool" where
  "best_waiter a x s = (x \<in> set (waiters (sems s a)) \<and> (\<forall>y\<in>set (waiters (sems s a)). eff s y \<le> eff s x))"

lemma sema_wake_ok:
  assumes k: "kinv s"
  shows "if waiters (sems s a) = [] then sema_wake a s = Some s
    else \<exists>x. best_waiter a x s \<and> sema_wake a s = Some (woken a x s) \<and> kinv (woken a x s)"
proof (cases "waiters (sems s a) = []")
  case True
  then show ?thesis by (simp add: sema_wake_def)
next
  case False
  note C = coreD [OF kinv_core [OF k]]
  obtain x where x: "get_and_remove_next_thread (waiters (sems s a)) s = Some (x, remove1 x (waiters (sems s a)))"
    "x \<in> set (waiters (sems s a))" "\<forall>y\<in>set (waiters (sems s a)). eff s y \<le> eff s x"
    using next_thread_greatest [OF False] by blast
  obtain t where t: "thr s x = Some t" "status t = THREAD_BLOCKED" "waits_on t = Some a"
    using C(3) x(2) by (auto simp: c_wait_def)
  have x0: "x \<noteq> NULL" using C(1) t by (cases "x = NULL") auto
  have xi: "x \<noteq> idle_thread s" using idle_not_waiting [OF C(5), of t] t by auto
  have xs: "x \<notin> set (sleep_threads_list s)" using C(4) t waits_not_sleeping by (auto simp: c_sleep_def)
  have xw: "x \<notin> set (waiters (sems s b))" if "b \<noteq> a" for b using C(3) t that by (auto simp: c_wait_def)
  have nm: "\<forall>y u. thr s y = Some u \<longrightarrow> x \<notin> set (makes (konts u))"
    using C(6) t x0 waits_not_sleeping [OF t(3)] by (force simp: c_make_def is_new_def)
  let ?t = "t\<lparr>status := THREAD_READY\<rparr>"
  let ?s = "s\<lparr>thr := (thr s)(x \<mapsto> ?t), sems := (sems s)(a := (sems s a)\<lparr>waiters := remove1 x (waiters (sems s a))\<rparr>),
    ready_list := ready_list s @ [x]\<rparr>"
  have "core ((thr s)(x \<mapsto> ?t)) (ready_list s @ [x]) (idle_thread s) (\<lambda>b. waiters (sems ?s b)) (sleep_threads_list s)"
    by (rule core_wake [OF kinv_core [OF k] t(1,2) xi nm])
      (use t C(7) xs xw in \<open>auto simp: c_prio_def remove1_idem\<close>)
  then have "kcore ?s" by (simp add: kcore_def)
  moreover have "one_running ?s"
    using k t unfolding kinv_def one_running_def by auto
  ultimately have "kinv ?s" by (simp add: kinv_def)
  moreover have "sema_wake a s = Some ?s"
    using False x t x0 by (simp add: sema_wake_def thread_unblock_def is_thread_def set_sema_def upd_def)
  moreover have "woken a x s = ?s" using t by (simp add: woken_def)
  moreover have "best_waiter a x s" using x by (simp add: best_waiter_def)
  ultimately show ?thesis using False by (auto intro!: exI [of _ x])
qed

lemma yield_if_ok:
  assumes k: "kinv s"
  shows "\<exists>s'. thread_yield_if_necessery s = Some s' \<and> kinv s' \<and> sched_frame s s' \<and>
    (cur s' = cur s \<or> runs_highest s')"
proof -
  obtain t where t: "thread_current s = Some (cur s)" using kinv_current [OF k] by metis
  show ?thesis
  proof (cases "get_highest_priority s > eff s (cur s)")
    case False
    then show ?thesis using k t by (simp add: thread_yield_if_necessery_def)
  next
    case True
    show ?thesis
    proof (cases "in_external_intr s")
      case True
      have "kinv (s\<lparr>yield_on_return := True\<rparr>)" by (rule kinv_other [OF k]) simp_all
      moreover have "sched_frame s (s\<lparr>yield_on_return := True\<rparr>)" by (simp add: sched_frame_def)
      ultimately show ?thesis
        using True t \<open>get_highest_priority s > eff s (cur s)\<close>
        by (simp add: thread_yield_if_necessery_def intr_yield_on_return_def)
    next
      case False
      then show ?thesis
        using thread_yield_ok [OF k False] t \<open>get_highest_priority s > eff s (cur s)\<close>
        by (auto simp: thread_yield_if_necessery_def)
    qed
  qed
qed

lemma sema_up_ok:
  assumes k: "kinv s" and a: "a \<noteq> NULL"
  shows "\<exists>r s'. (if waiters (sems s a) = [] then r = s else \<exists>x. best_waiter a x s \<and> r = woken a x s) \<and> kinv r \<and>
    sema_up a s = Some s' \<and> kinv s' \<and> (cur s' = cur s \<or> runs_highest s') \<and>
    sched_frame (set_sema a ((sems r a)\<lparr>sval := (sval (sems s a) + 1) mod 4294967296\<rparr>) r) s'"
proof -
  obtain r where r: "if waiters (sems s a) = [] then r = s else \<exists>x. best_waiter a x s \<and> r = woken a x s"
    "kinv r" "sema_wake a s = Some r"
    using sema_wake_ok [OF k, of a] k by (auto split: if_splits)
  have v: "sval (sems r a) = sval (sems s a)" "cur r = cur s" using r(1) by (auto split: if_splits)
  let ?q = "set_sema a ((sems r a)\<lparr>sval := (sval (sems r a) + 1) mod 4294967296\<rparr>) r"
  obtain s' where s': "thread_yield_if_necessery ?q = Some s'" "kinv s'" "sched_frame ?q s'"
    "cur s' = cur ?q \<or> runs_highest s'"
    using yield_if_ok [OF kinv_sval [OF r(2), of a "(sval (sems r a) + 1) mod 4294967296"]] by blast
  have "sema_up a s = Some s'" using a r(3) s'(1) by (simp add: sema_up_def)
  then show ?thesis using r s' v by (intro exI [of _ r] exI [of _ s']) auto
qed

lemma sema_up_kok:
  assumes "sema_up a s = Some s'" "kok s"
  shows "kok s'"
proof -
  have "a \<noteq> NULL" using assms(1) by (auto simp: sema_up_def ret_iff)
  then show ?thesis
    using sema_up_ok [of s a] assms by (auto simp: kok_def sched_frame_def split: if_splits)
qed

lemma cur_konts_push [simp]: "kinv s \<Longrightarrow> cur_konts (push_kont k s) = k # cur_konts s"
  by (auto simp: cur_konts_def push_kont_def upd_def elim!: kinv_current)

lemma cur_waits_konts:
  assumes "kinv s" "cur_konts s = KSemaDown a # ks \<or> cur_konts s = KLockDown a # ks" "cur s \<noteq> idle_thread s"
  shows "cur_waits s a"
  using assms by (auto simp: cur_waits_def cur_konts_def elim!: kinv_current)

lemma down_iter_true:
  assumes "sema_down_iter a s = Some (True, s')" "kinv s" "\<not> in_external_intr s" "cur_waits s a"
  shows "s' = set_sema a ((sems s a)\<lparr>sval := sval (sems s a) - 1\<rparr>) s \<and> sval (sems s a) > 0"
  using assms sema_down_iter_wait [of s a] by (cases "sval (sems s a) = 0") (auto simp: sema_down_iter_def)

lemma resume_sema_down_kok:
  assumes "resume_sema_down a s = Some s'" "kok s" "cur_konts s = KSemaDown a # ks" "cur s \<noteq> idle_thread s"
  shows "kok s'"
proof -
  obtain b r where r: "sema_down_iter a s = Some (b, r)" "s' = (if b then pop_kont r else r)"
    using assms(1) by (auto simp: resume_sema_down_def ret_iff)
  have k: "kinv s" "\<not> in_external_intr s" using assms(2) by (simp_all add: kok_def)
  note w = cur_waits_konts [OF k(1) disjI1 [OF assms(3)] assms(4)]
  show ?thesis
  proof (cases b)
    case True
    have q: "r = set_sema a ((sems s a)\<lparr>sval := sval (sems s a) - 1\<rparr>) s"
      using down_iter_true [OF _ k w, of r] r True by simp
    have "kinv (pop_kont r)"
      by (rule pop_kont_kinv [where k = "KSemaDown a" and ks = ks])
        (use q kinv_sval [OF k(1)] assms in \<open>auto simp: cur_konts_def\<close>)
    then show ?thesis using r True q k by (simp add: kok_def)
  next
    case False
    then show ?thesis using sema_down_iter_kinv [OF r(1) k w] r by (simp add: kok_def)
  qed
qed

lemma sema_down_kok:
  assumes "sema_down a s = Some s'" "kok s" "cur s \<noteq> idle_thread s"
  shows "kok s'"
proof -
  have "resume_sema_down a (push_kont (KSemaDown a) s) = Some s'"
    using assms(1) by (auto simp: sema_down_def ret_iff)
  moreover have "kok (push_kont (KSemaDown a) s)"
    using assms push_kont_kinv [of s "KSemaDown a"] by (simp add: kok_def)
  ultimately show ?thesis
    using resume_sema_down_kok [of a "push_kont (KSemaDown a) s" s' "cur_konts s"] assms by (simp add: kok_def)
qed

lemma sema_init_kok:
  assumes "sema_init a v s = Some s'" "kok s" "waiters (sems s a) = []"
  shows "kok s'"
proof -
  have s': "s' = set_sema a \<lparr>sval = v, waiters = []\<rparr> s"
    using assms(1) by (auto simp: sema_init_def ret_iff)
  have "(\<lambda>b. waiters (((sems s)(a := \<lparr>sval = v, waiters = []\<rparr>)) b)) = (\<lambda>b. waiters (sems s b))"
    using assms(3) by auto
  then show ?thesis
    using assms(2) unfolding s' by (simp add: kok_def kinv_def kcore_def one_running_def set_sema_def)
qed

lemma sema_try_down_kok:
  assumes "sema_try_down a s = Some (b, s')" "kok s"
  shows "kok s'"
  using assms kinv_sval [of s a] by (auto simp: sema_try_down_def kok_def ret_iff split: if_splits)

section \<open>Priorities\<close>

text \<open>Donation changes effective priorities only, and only upwards.\<close>

definition with_eff :: "(addr \<Rightarrow> int) \<Rightarrow> kstate \<Rightarrow> kstate" where
  "with_eff p s = s\<lparr>thr := (\<lambda>x. map_option (\<lambda>t. t\<lparr>effective_priority := p x\<rparr>) (thr s x))\<rparr>"

definition donated :: "kstate \<Rightarrow> kstate \<Rightarrow> bool" where
  "donated s s' = (\<exists>p. s' = with_eff p s \<and> (\<forall>x t. thr s x = Some t \<longrightarrow> effective_priority t \<le> p x))"

lemma with_eff_fields [simp]:
  "cur (with_eff p s) = cur s" "idle_thread (with_eff p s) = idle_thread s"
  "in_external_intr (with_eff p s) = in_external_intr s" "sems (with_eff p s) = sems s"
  "locks (with_eff p s) = locks s" "conds (with_eff p s) = conds s" "ready_list (with_eff p s) = ready_list s"
  "sleep_threads_list (with_eff p s) = sleep_threads_list s" "next_tid (with_eff p s) = next_tid s"
  "ticks (with_eff p s) = ticks s"
  "thr (with_eff p s) x = map_option (\<lambda>t. t\<lparr>effective_priority := p x\<rparr>) (thr s x)"
  "cur_konts (with_eff p s) = cur_konts s"
  by (simp_all add: with_eff_def cur_konts_def split: option.split)

lemma donated_refl [simp]: "donated s s"
proof -
  have "(\<lambda>x. map_option (\<lambda>t. t\<lparr>effective_priority := eff s x\<rparr>) (thr s x)) = thr s"
    by (intro ext) (auto simp: eff_def split: option.split)
  then have "s = with_eff (eff s) s" by (simp add: with_eff_def)
  then show ?thesis unfolding donated_def by (intro exI [of _ "eff s"]) (auto simp: eff_def)
qed

lemma donated_trans:
  assumes "donated s r" "donated r s'"
  shows "donated s s'"
proof -
  obtain p q where p: "r = with_eff p s" "\<And>x t. thr s x = Some t \<Longrightarrow> effective_priority t \<le> p x"
    and q: "s' = with_eff q r" "\<And>x t. thr r x = Some t \<Longrightarrow> effective_priority t \<le> q x"
    using assms by (auto simp: donated_def)
  have "s' = with_eff q s" by (simp add: p q with_eff_def option.map_comp comp_def)
  moreover have "effective_priority t \<le> q x" if "thr s x = Some t" for x t
  proof (rule order_trans [OF p(2) [OF that]])
    show "p x \<le> q x" using q(2) [of x "t\<lparr>effective_priority := p x\<rparr>"] that by (simp add: p(1))
  qed
  ultimately show ?thesis unfolding donated_def by blast
qed

lemma donated_upd:
  assumes "thr s x = Some t" "effective_priority t \<le> p"
  shows "donated s (upd x (\<lambda>t. t\<lparr>effective_priority := p\<rparr>) s)"
proof -
  let ?p = "\<lambda>y. if y = x then p else eff s y"
  have "(\<lambda>y. map_option (\<lambda>t. t\<lparr>effective_priority := ?p y\<rparr>) (thr s y)) =
      (thr s)(x := map_option (\<lambda>t. t\<lparr>effective_priority := p\<rparr>) (thr s x))"
    by (intro ext) (auto simp: eff_def split: option.split)
  then have "upd x (\<lambda>t. t\<lparr>effective_priority := p\<rparr>) s = with_eff ?p s"
    by (simp add: with_eff_def upd_def)
  then show ?thesis
    using assms unfolding donated_def by (intro exI [of _ ?p]) (auto simp: eff_def)
qed

lemma compare_priority_donated:
  assumes "compare_priority_and_update x p s = Some s'"
  shows "donated s s'"
proof (rule compare_priority_and_update.raw_induct
    [where P = "\<lambda>x p s s'. donated s s'" and xa = "((x, p), s)", unfolded prod.case, OF _ assms])
  fix cpu x p s s'
  assume ih: "\<And>x p s s'. cpu x p s = Some s' \<Longrightarrow> donated s s'"
    and st: "(if x = NULL then Some s else do {
        t \<leftarrow> thr s x;
        if effective_priority t > p then Some s
        else do {
          let s = upd x (\<lambda>t. t\<lparr>effective_priority := p\<rparr>) s;
          if waiting_lock t \<noteq> NULL then cpu (holder (locks s (waiting_lock t))) p s else Some s } }) = Some s'"
  show "donated s s'"
  proof (cases "x = NULL")
    case False
    then obtain t where t: "thr s x = Some t" using st by (auto simp: ret_iff)
    show ?thesis
    proof (cases "effective_priority t > p")
      case le: False
      let ?r = "upd x (\<lambda>t. t\<lparr>effective_priority := p\<rparr>) s"
      have d: "donated s ?r" using donated_upd [OF t] le by simp
      have "donated ?r s'"
        using st False t le ih [of "holder (locks s (waiting_lock t))" p ?r s'] by (auto simp: Let_def split: if_splits)
      then show ?thesis by (rule donated_trans [OF d])
    qed (use st False t in simp)
  qed (use st in simp)
qed

lemma with_eff_core:
  assumes c: "core th rl i w sl" and p: "\<And>x t. th x = Some t \<Longrightarrow> effective_priority t \<le> p x"
  shows "core (\<lambda>x. map_option (\<lambda>t. t\<lparr>effective_priority := p x\<rparr>) (th x)) rl i w sl"
proof -
  note C = coreD [OF c]
  let ?th = "\<lambda>x. map_option (\<lambda>t. t\<lparr>effective_priority := p x\<rparr>) (th x)"
  have W: "waits_on (t\<lparr>effective_priority := q\<rparr>) = waits_on t" "sleeping (t\<lparr>effective_priority := q\<rparr>) = sleeping t" for t q
    by (simp_all add: waits_on_def sleeping_def)
  have N: "is_new ?th x = is_new th x" for x by (auto simp: is_new_def)
  have T: "tgt ?th x = tgt th x" for x by (auto simp: tgt_def split: option.split)
  show ?thesis
  proof (rule coreI)
    show "?th NULL = None" using C(1) by simp
    show "c_ready ?th rl i" using C(2) by (auto simp: c_ready_def)
    show "c_wait ?th w" using C(3) by (auto simp: c_wait_def W)
    show "c_sleep ?th sl" using C(4) by (auto simp: c_sleep_def W T)
    show "c_idle ?th i" using C(5) by (auto simp: c_idle_def)
    show "c_make ?th i" using C(6) unfolding c_make_def by (fastforce simp: N)
    show "c_prio ?th" using C(7) p by (force simp: c_prio_def intro: order_trans)
    show "c_rest ?th i" using C(8) by (fastforce simp: c_rest_def W)
  qed
qed

lemma donated_kinv:
  assumes "donated s s'" "kinv s"
  shows "kinv s'"
proof -
  obtain p where p: "s' = with_eff p s" "\<And>x t. thr s x = Some t \<Longrightarrow> effective_priority t \<le> p x"
    using assms(1) by (auto simp: donated_def)
  have "core (thr s') (ready_list s') (idle_thread s') (\<lambda>a. waiters (sems s' a)) (sleep_threads_list s')"
    using with_eff_core [OF kinv_core [OF assms(2)], of p] p by (simp add: with_eff_def)
  moreover have "one_running s'"
    using assms(2) unfolding kinv_def one_running_def p(1) by auto
  ultimately show ?thesis by (simp add: kinv_def kcore_def)
qed

lemma donated_fields:
  assumes "donated s s'"
  shows "cur s' = cur s" "idle_thread s' = idle_thread s" "in_external_intr s' = in_external_intr s"
    "sems s' = sems s" "locks s' = locks s" "cur_konts s' = cur_konts s" "ready_list s' = ready_list s"
  using assms by (auto simp: donated_def)

lemma waiters_priority_ge: "p \<le> waiters_priority s xs p"
  by (induction s xs p rule: waiters_priority.induct) auto

lemma locks_priority_ge: "p \<le> locks_priority s ls p"
proof (induction s ls p rule: locks_priority.induct)
  case (2 s l ls p)
  then show ?case using waiters_priority_ge [of p s "waiters (sems s l)"] by simp
qed simp

lemma waiters_priority_cong:
  "(\<And>x. eff s' x = eff s x) \<Longrightarrow> waiters_priority s' xs p = waiters_priority s xs p"
  by (induction s xs p rule: waiters_priority.induct) auto

lemma locks_priority_cong:
  "(\<And>x. eff s' x = eff s x) \<Longrightarrow> sems s' = sems s \<Longrightarrow> locks_priority s' ls p = locks_priority s ls p"
proof (induction s ls p rule: locks_priority.induct)
  case (2 s l ls p)
  note w = waiters_priority_cong [of s' s "waiters (sems s l)" p, OF 2(2)]
  show ?case using 2(1) [OF 2(2) 2(3)] by (simp add: 2(3) w)
qed simp

lemma locks_priority_priority:
  assumes "thr s x = Some t"
  shows "locks_priority (s\<lparr>thr := (thr s)(x \<mapsto> t\<lparr>priority := q\<rparr>)\<rparr>) ls p = locks_priority s ls p"
  by (rule locks_priority_cong) (use assms in \<open>auto simp: eff_def\<close>)

lemma calculate_ok:
  assumes k: "kinv s" and x: "thr s x = Some t"
  shows "\<exists>s'. calculate_priority_and_yield x s = Some s' \<and> kinv s' \<and> (cur s' = cur s \<or> runs_highest s') \<and>
    sched_frame (upd x (\<lambda>u. u\<lparr>effective_priority := locks_priority s (holding_locks_list t) (priority t)\<rparr>) s) s'"
proof -
  let ?r = "upd x (\<lambda>u. u\<lparr>effective_priority := locks_priority s (holding_locks_list t) (priority t)\<rparr>) s"
  have "kinv ?r"
    by (rule kinv_upd [OF k]) (use x locks_priority_ge in auto)
  then show ?thesis using yield_if_ok [of ?r] x by (auto simp: calculate_priority_and_yield_def)
qed

lemma calculate_kok:
  assumes "calculate_priority_and_yield x s = Some s'" "kok s"
  shows "kok s'"
proof -
  obtain t where "thr s x = Some t" using assms(1) by (auto simp: calculate_priority_and_yield_def ret_iff)
  then show ?thesis using calculate_ok [of s x t] assms by (auto simp: kok_def sched_frame_def)
qed

lemma thread_set_priority_ok:
  assumes "thread_set_priority p s = Some s'" "kok s"
  shows "kok s' \<and> (cur s' = cur s \<or> runs_highest s') \<and> sems s' = sems s \<and> locks s' = locks s"
proof -
  obtain t where t: "thr s (cur s) = Some t" "status t = THREAD_RUNNING" "thread_current s = Some (cur s)"
    using kinv_current [of s] assms(2) unfolding kok_def by metis
  let ?q = "locks_priority s (holding_locks_list t) p"
  have eq: "calculate_priority_and_yield (cur s) (upd (cur s) (\<lambda>t. t\<lparr>priority := p\<rparr>) s) =
      thread_yield_if_necessery (upd (cur s) (\<lambda>t. t\<lparr>priority := p, effective_priority := ?q\<rparr>) s)"
    using t by (simp add: calculate_priority_and_yield_def upd_def locks_priority_priority)
  have "kinv (upd (cur s) (\<lambda>t. t\<lparr>priority := p, effective_priority := ?q\<rparr>) s)"
    by (rule kinv_upd) (use assms(2) locks_priority_ge in \<open>auto simp: kok_def\<close>)
  from yield_if_ok [OF this] show ?thesis
    using assms t by (auto simp: thread_set_priority_def eq kok_def sched_frame_def)
qed

section \<open>Locks\<close>

lemma lock_acquired_kok:
  assumes "lock_acquired l s = Some s'" "kok s"
  shows "kok s'"
proof -
  let ?r = "upd (cur s) (\<lambda>t. t\<lparr>waiting_lock := NULL\<rparr>) s"
  let ?q = "upd (cur s) (\<lambda>t. t\<lparr>holding_locks_list := holding_locks_list t @ [l]\<rparr>) ?r"
  have "kinv ?r" by (rule kinv_upd) (use assms(2) in \<open>auto simp: kok_def\<close>)
  then have "kinv ?q" by (rule kinv_upd) auto
  then show ?thesis using assms by (auto simp: lock_acquired_def kok_def ret_iff Let_def)
qed

lemma resume_lock_down_kok:
  assumes "resume_lock_down l s = Some s'" "kok s" "cur_konts s = KLockDown l # ks" "cur s \<noteq> idle_thread s"
  shows "kok s'"
proof -
  obtain b r where r: "sema_down_iter l s = Some (b, r)"
    "if b then lock_acquired l (pop_kont r) = Some s' else s' = r"
    using assms(1) by (auto simp: resume_lock_down_def ret_iff split: if_splits)
  have k: "kinv s" "\<not> in_external_intr s" using assms(2) by (simp_all add: kok_def)
  note w = cur_waits_konts [OF k(1) disjI2 [OF assms(3)] assms(4)]
  show ?thesis
  proof (cases b)
    case True
    have q: "r = set_sema l ((sems s l)\<lparr>sval := sval (sems s l) - 1\<rparr>) s"
      using down_iter_true [OF _ k w, of r] r True by simp
    have "kinv (pop_kont r)"
      by (rule pop_kont_kinv [where k = "KLockDown l" and ks = ks])
        (use q kinv_sval [OF k(1)] assms in \<open>auto simp: cur_konts_def\<close>)
    then show ?thesis using r True q k lock_acquired_kok [of l "pop_kont r"] by (simp add: kok_def)
  next
    case False
    then show ?thesis using sema_down_iter_kinv [OF r(1) k w] r by (simp add: kok_def)
  qed
qed

lemma lock_acquire_steps:
  assumes "lock_acquire l s = Some s'" "kok s"
  obtains r where "compare_priority_and_update (holder (locks s l)) (eff s (cur s))
      (upd (cur s) (\<lambda>t. t\<lparr>waiting_lock := l\<rparr>) s) = Some r"
    "donated (upd (cur s) (\<lambda>t. t\<lparr>waiting_lock := l\<rparr>) s) r" "kok r" "cur r = cur s" "l \<noteq> NULL"
    "resume_lock_down l (push_kont (KLockDown l) r) = Some s'" "holder (locks s l) \<noteq> cur s"
proof -
  obtain t where t: "thr s (cur s) = Some t" "thread_current s = Some (cur s)"
    using kinv_current [of s] assms(2) unfolding kok_def by metis
  let ?q = "upd (cur s) (\<lambda>t. t\<lparr>waiting_lock := l\<rparr>) s"
  have e: "eff ?q (cur s) = eff s (cur s)" using t by (simp add: eff_def upd_def)
  obtain r where r: "compare_priority_and_update (holder (locks s l)) (eff s (cur s)) ?q = Some r"
    "resume_lock_down l (push_kont (KLockDown l) r) = Some s'" "l \<noteq> NULL" "holder (locks s l) \<noteq> cur s"
    using assms(1) t e by (auto simp: lock_acquire_def lock_held_by_current_thread_def ret_iff Let_def)
  have d: "donated ?q r" by (rule compare_priority_donated [OF r(1)])
  have "kinv ?q" by (rule kinv_upd) (use assms(2) in \<open>auto simp: kok_def\<close>)
  then have "kinv r" by (rule donated_kinv [OF d])
  then show ?thesis
    using that r d donated_fields [OF d] assms(2) by (auto simp: kok_def)
qed

lemma lock_acquire_kok:
  assumes "lock_acquire l s = Some s'" "kok s" "cur s \<noteq> idle_thread s"
  shows "kok s'"
proof -
  obtain r where r: "donated (upd (cur s) (\<lambda>t. t\<lparr>waiting_lock := l\<rparr>) s) r" "kok r" "cur r = cur s"
    "resume_lock_down l (push_kont (KLockDown l) r) = Some s'"
    using lock_acquire_steps [OF assms(1,2)] by blast
  have i: "cur r \<noteq> idle_thread r" using donated_fields [OF r(1)] assms(3) r(3) by simp
  have "kok (push_kont (KLockDown l) r)"
    using r(2) i push_kont_kinv [of r "KLockDown l"] by (simp add: kok_def)
  then show ?thesis
    using resume_lock_down_kok [OF r(4), of "cur_konts r"] r(2) i by (simp add: kok_def)
qed

lemma lock_release_kok:
  assumes "lock_release l s = Some s'" "kok s" "cur s \<noteq> idle_thread s"
  shows "kok s'"
proof -
  let ?r = "set_lock l ((locks s l)\<lparr>holder := NULL\<rparr>) s"
  have "sema_up l (push_kont (KLockUp l) ?r) = Some s'"
    using assms(1) by (auto simp: lock_release_def ret_iff)
  moreover have "kok (push_kont (KLockUp l) ?r)"
    using assms(2,3) push_kont_kinv [of ?r "KLockUp l"] by (simp add: kok_def)
  ultimately show ?thesis by (rule sema_up_kok)
qed

lemma resume_lock_up_kok:
  assumes "resume_lock_up l s = Some s'" "kok s" "cur_konts s = KLockUp l # ks" "cur s \<noteq> idle_thread s"
  shows "kok s'"
proof -
  let ?p = "pop_kont s"
  let ?x = "linked_in (locks s l)"
  let ?q = "upd ?x (\<lambda>t. t\<lparr>holding_locks_list := remove1 l (holding_locks_list t)\<rparr>) ?p"
  let ?r = "set_lock l ((locks ?q l)\<lparr>linked_in := NULL\<rparr>) ?q"
  have "kinv ?p" using pop_kont_kinv [of s "KLockUp l" ks] assms by (simp add: kok_def)
  then have "kinv ?q" by (rule kinv_upd) auto
  then have "kok ?r" using assms(2) by (simp add: kok_def)
  moreover obtain t where "calculate_priority_and_yield t ?r = Some s'"
    using assms(1) by (auto simp: resume_lock_up_def ret_iff Let_def)
  ultimately show ?thesis using calculate_kok by blast
qed

lemma lock_try_acquire_kok:
  assumes "lock_try_acquire l s = Some (b, s')" "kok s"
  shows "kok s'"
proof -
  obtain r where r: "sema_try_down l s = Some (b, r)" "s' = r \<or> (\<exists>x. s' = set_lock l x r)"
    using assms(1) by (auto simp: lock_try_acquire_def ret_iff split: if_splits)
  have "kok r" by (rule sema_try_down_kok [OF r(1) assms(2)])
  then show ?thesis using r(2) by (auto simp: kok_def)
qed

lemma lock_init_kok:
  assumes "lock_init l s = Some s'" "kok s" "waiters (sems s l) = []"
  shows "kok s'"
proof -
  let ?r = "set_lock l \<lparr>holder = NULL, linked_in = NULL\<rparr> s"
  have "sema_init l 1 ?r = Some s'" using assms(1) by (auto simp: lock_init_def ret_iff)
  then show ?thesis by (rule sema_init_kok) (use assms in \<open>simp_all add: kok_def\<close>)
qed

section \<open>Condition variables\<close>

lemma kok_conds: "kok s \<Longrightarrow> kok (s\<lparr>conds := c\<rparr>)"
  unfolding kok_def by (auto intro: kinv_other)

lemma cond_init_kok: "cond_init cv s = Some s' \<Longrightarrow> kok s \<Longrightarrow> kok s'"
  by (auto simp: cond_init_def ret_iff kok_conds)

lemma sema_init_fields:
  "sema_init a v s = Some s' \<Longrightarrow> s' = set_sema a \<lparr>sval = v, waiters = []\<rparr> s"
  by (auto simp: sema_init_def ret_iff)

lemma push_kont_kok: "kok s \<Longrightarrow> cur s \<noteq> idle_thread s \<Longrightarrow> plain k \<Longrightarrow> kok (push_kont k s)"
  by (simp add: kok_def push_kont_kinv)

lemma pop_kont_kok:
  "kok s \<Longrightarrow> cur s \<noteq> idle_thread s \<Longrightarrow> cur_konts s = k # ks \<Longrightarrow> kok (pop_kont s)"
  by (simp add: kok_def pop_kont_kinv)

lemma cond_wait_steps:
  assumes "cond_wait cv l w s = Some s'" "kok s" "cur s \<noteq> idle_thread s" "waiters (sems s w) = []"
  obtains r where "kok r" "cur r = cur s" "idle_thread r = idle_thread s" "locks r = locks s"
    "sems r = (sems s)(w := \<lparr>sval = 0, waiters = []\<rparr>)" "lock_release l r = Some s'"
proof -
  obtain r where r: "sema_init w 0 s = Some r"
    "lock_release l (push_kont (KCondDown l w) (r\<lparr>conds := (conds r)(cv := conds r cv @ [w])\<rparr>)) = Some s'"
    using assms(1) by (auto simp: cond_wait_def ret_iff Let_def)
  have "kok r" by (rule sema_init_kok [OF r(1) assms(2,4)])
  moreover have f: "r = set_sema w \<lparr>sval = 0, waiters = []\<rparr> s" by (rule sema_init_fields [OF r(1)])
  ultimately have "kok (push_kont (KCondDown l w) (r\<lparr>conds := (conds r)(cv := conds r cv @ [w])\<rparr>))"
    using push_kont_kok [OF kok_conds [of r]] assms(3) by simp
  then show ?thesis using that r(2) f by (auto simp: set_sema_def)
qed

lemma cond_wait_kok:
  assumes "cond_wait cv l w s = Some s'" "kok s" "cur s \<noteq> idle_thread s" "waiters (sems s w) = []"
  shows "kok s'"
  using cond_wait_steps [OF assms] lock_release_kok assms(3) by metis

lemma resume_cond_down_kok:
  assumes "resume_cond_down l w s = Some s'" "kok s" "cur s \<noteq> idle_thread s" "cur_konts s = KCondDown l w # ks"
  shows "kok s'"
  using sema_down_kok [of w "push_kont (KCondLock l) (pop_kont s)" s'] assms
    push_kont_kok [OF pop_kont_kok [OF assms(2,3,4)], of "KCondLock l"]
  by (simp add: resume_cond_down_def)

lemma resume_cond_lock_kok:
  assumes "resume_cond_lock l s = Some s'" "kok s" "cur s \<noteq> idle_thread s" "cur_konts s = KCondLock l # ks"
  shows "kok s'"
  using lock_acquire_kok [of l "pop_kont s" s'] assms pop_kont_kok [OF assms(2,3,4)]
  by (simp add: resume_cond_lock_def)

lemma cond_signal_kok:
  assumes "cond_signal cv l s = Some s'" "kok s"
  shows "kok s'"
  using assms sema_up_kok kok_conds [OF assms(2)]
  by (auto simp: cond_signal_def ret_iff split: if_splits)

lemma cond_broadcast_kok:
  assumes "cond_broadcast cv l s = Some s'" "kok s" "cur s \<noteq> idle_thread s"
  shows "kok s'"
  using assms cond_signal_kok [of cv l "push_kont (KCondMore cv l) s" s'] push_kont_kok [OF assms(2,3), of "KCondMore cv l"]
  by (auto simp: cond_broadcast_def ret_iff split: if_splits)

lemma resume_cond_more_kok:
  assumes "resume_cond_more cv l s = Some s'" "kok s" "cur s \<noteq> idle_thread s" "cur_konts s = KCondMore cv l # ks"
  shows "kok s'"
  using cond_broadcast_kok [of cv l "pop_kont s" s'] assms pop_kont_kok [OF assms(2,3,4)]
  by (simp add: resume_cond_more_def)

section \<open>Sleeping and the timer\<close>

lemma timer_sleep_ok:
  assumes k: "kok s" and i: "cur s \<noteq> idle_thread s" and d: "int64 (n + ticks s) = Some due"
  shows "\<exists>s'. timer_sleep n s = Some s' \<and> kok s' \<and> runs_highest s' \<and>
    cur s \<in> set (sleep_threads_list s') \<and> tgt (thr s') (cur s) = due \<and> ticks s' = ticks s \<and>
    sems s' = sems s \<and> locks s' = locks s"
proof -
  have kk: "kinv s" "\<not> in_external_intr s" using k by (simp_all add: kok_def)
  obtain t where t: "thr s (cur s) = Some t" "status t = THREAD_RUNNING" "thread_current s = Some (cur s)"
    "priority t \<le> effective_priority t"
    using kinv_current [OF kk(1)] by metis
  define t1 where "t1 = t\<lparr>target_ticks := due, konts := KSleep # konts t\<rparr>"
  define r where "r = s\<lparr>thr := (thr s)(cur s \<mapsto> t1)\<rparr>"
  define q where "q = r\<lparr>sleep_threads_list := ins_ordered (cmp_target_ticks r) (cur s) (sleep_threads_list s)\<rparr>"
  have eq: "timer_sleep n s = thread_block q"
    using t d by (simp add: timer_sleep_def timer_ticks_def thread_push_block_def push_kont_def upd_def q_def r_def t1_def)
  have "core ((thr s)(cur s \<mapsto> t1\<lparr>status := THREAD_BLOCKED\<rparr>)) (ready_list s) (idle_thread s)
      (\<lambda>a. waiters (sems s a)) (ins_ordered (cmp_target_ticks r) (cur s) (sleep_threads_list s))"
    by (rule core_block_sleep [OF kinv_core [OF kk(1)] t(1,2), where ks = "konts t"])
      (use t i in \<open>auto simp: t1_def r_def cmp_target_ticks_def\<close>)
  then have "kcore (upd (cur q) (\<lambda>t. t\<lparr>status := THREAD_BLOCKED\<rparr>) q)"
    by (simp add: kcore_def upd_def q_def r_def)
  moreover have "one_running q"
    using kk(1) t unfolding kinv_def one_running_def q_def r_def t1_def by auto
  moreover have "thr q NULL = None"
    using coreD(1) [OF kinv_core [OF kk(1)]] t by (cases "cur s = NULL") (auto simp: q_def r_def)
  moreover have "\<not> in_external_intr q" using kk(2) by (simp add: q_def r_def)
  ultimately obtain s' where s': "thread_block q = Some s'" "kinv s'" "runs_highest s'"
    and f: "sched_frame (upd (cur q) (\<lambda>t. t\<lparr>status := THREAD_BLOCKED\<rparr>) q) s'"
    using thread_block_ok by blast
  have "thr s' (cur s) = Some (t1\<lparr>status := THREAD_BLOCKED\<rparr>)"
    using f i by (auto simp: sched_frame_def upd_def q_def r_def)
  then show ?thesis
    using eq s' f kk(2) by (auto simp: sched_frame_def q_def r_def kok_def tgt_def t1_def)
qed

lemma resume_sleep_kok:
  assumes "resume_sleep s = Some s'" "kok s" "cur s \<noteq> idle_thread s" "cur_konts s = KSleep # ks"
  shows "kok s'"
  using assms pop_kont_kok [OF assms(2,3,4)] by (simp add: resume_sleep_def)

text \<open>A tick wakes the threads at the front of the list that are due.\<close>

definition due :: "kstate \<Rightarrow> addr \<Rightarrow> bool" where
  "due s x = (tgt (thr s) x \<le> ticks s)"

lemma kinv_wake_sleeper:
  assumes k: "kinv s" and x: "sleep_threads_list s = x # xs"
  shows "\<exists>t. thr s x = Some t \<and> status t = THREAD_BLOCKED \<and> thread_unblock x s =
      Some (s\<lparr>ready_list := ready_list s @ [x], thr := (thr s)(x \<mapsto> t\<lparr>status := THREAD_READY\<rparr>)\<rparr>) \<and>
    kinv (s\<lparr>ready_list := ready_list s @ [x], thr := (thr s)(x \<mapsto> t\<lparr>status := THREAD_READY\<rparr>), sleep_threads_list := xs\<rparr>)"
proof -
  note C = coreD [OF kinv_core [OF k]]
  obtain t where t: "thr s x = Some t" "status t = THREAD_BLOCKED" "sleeping t"
    using C(4) x by (auto simp: c_sleep_def)
  have x0: "x \<noteq> NULL" using C(1) t by (cases "x = NULL") auto
  have xi: "x \<noteq> idle_thread s" using idle_not_waiting [OF C(5), of t] t by auto
  have w0: "waits_on t = None" using waits_not_sleeping t(3) by (cases "waits_on t") auto
  have xw: "x \<notin> set (waiters (sems s b))" for b using C(3) t w0 by (auto simp: c_wait_def)
  have nm: "\<forall>y u. thr s y = Some u \<longrightarrow> x \<notin> set (makes (konts u))"
    using C(6) t x0 by (force simp: c_make_def is_new_def sleeping_def)
  let ?t = "t\<lparr>status := THREAD_READY\<rparr>"
  let ?s = "s\<lparr>ready_list := ready_list s @ [x], thr := (thr s)(x \<mapsto> ?t), sleep_threads_list := xs\<rparr>"
  have "core ((thr s)(x \<mapsto> ?t)) (ready_list s @ [x]) (idle_thread s) (\<lambda>b. waiters (sems s b)) xs"
    by (rule core_wake [OF kinv_core [OF k] t(1,2) xi nm])
      (use t C(7) x xw in \<open>auto simp: c_prio_def remove1_idem\<close>)
  then have "kcore ?s" by (simp add: kcore_def)
  moreover have "one_running ?s" using k t unfolding kinv_def one_running_def by auto
  moreover have "thread_unblock x s = Some (s\<lparr>ready_list := ready_list s @ [x], thr := (thr s)(x \<mapsto> ?t)\<rparr>)"
    using t x0 by (simp add: thread_unblock_def is_thread_def upd_def)
  ultimately show ?thesis using t by (simp add: kinv_def)
qed

lemma pop_unblock_ok:
  assumes "kinv s" "sleep_threads_list s = xs"
  shows "\<exists>s'. pop_unblock_loop xs s = Some s' \<and> kinv s' \<and> sleep_threads_list s' = dropWhile (due s) xs \<and>
    ready_list s' = ready_list s @ takeWhile (due s) xs \<and> cur s' = cur s \<and> idle_thread s' = idle_thread s \<and>
    in_external_intr s' = in_external_intr s \<and> yield_on_return s' = yield_on_return s \<and> ticks s' = ticks s \<and>
    locks s' = locks s \<and> sems s' = sems s \<and> tgt (thr s') = tgt (thr s) \<and>
    (\<forall>y. map_option konts (thr s' y) = map_option konts (thr s y))"
  using assms
proof (induction xs arbitrary: s)
  case Nil
  then show ?case by simp
next
  case (Cons x xs)
  obtain t where t: "thr s x = Some t" "status t = THREAD_BLOCKED"
    and u: "thread_unblock x s =
      Some (s\<lparr>ready_list := ready_list s @ [x], thr := (thr s)(x \<mapsto> t\<lparr>status := THREAD_READY\<rparr>)\<rparr>)"
    and k: "kinv (s\<lparr>ready_list := ready_list s @ [x], thr := (thr s)(x \<mapsto> t\<lparr>status := THREAD_READY\<rparr>), sleep_threads_list := xs\<rparr>)"
    using kinv_wake_sleeper [OF Cons.prems] by blast
  show ?case
  proof (cases "due s x")
    case False
    then have "\<not> target_ticks t \<le> ticks s" using t by (simp add: due_def tgt_def)
    then show ?thesis using False Cons.prems t by (simp add: timer_ticks_def)
  next
    case True
    then have d: "target_ticks t \<le> ticks s" using t by (simp add: due_def tgt_def)
    define r where "r = s\<lparr>ready_list := ready_list s @ [x], thr := (thr s)(x \<mapsto> t\<lparr>status := THREAD_READY\<rparr>), sleep_threads_list := xs\<rparr>"
    have tg: "tgt (thr r) = tgt (thr s)" using t by (intro ext) (simp add: tgt_def r_def)
    have "due r = due s" by (intro ext) (simp add: due_def tg, simp add: r_def)
    moreover have "pop_unblock_loop (x # xs) s = pop_unblock_loop xs r"
      using t d u Cons.prems by (simp add: timer_ticks_def r_def)
    moreover have rf: "sleep_threads_list r = xs" "ready_list r = ready_list s @ [x]" "cur r = cur s"
      "idle_thread r = idle_thread s" "in_external_intr r = in_external_intr s" "yield_on_return r = yield_on_return s"
      "ticks r = ticks s" "locks r = locks s" "sems r = sems s"
      by (simp_all add: r_def)
    moreover have "map_option konts (thr r y) = map_option konts (thr s y)" for y using t by (simp add: r_def)
    moreover note Cons.IH [OF k [folded r_def] rf(1)]
    ultimately show ?thesis using True tg by simp
  qed
qed

text \<open>The interrupt of the timer.\<close>

definition timer_table :: intr_table where
  "timer_table = (\<lambda>_. None)(0x20 := Some timer_interrupt)"

lemma dropWhile_sorted:
  assumes "sorted_wrt (\<lambda>x y. (f x :: int) \<le> f y) xs" "x \<in> set (dropWhile (\<lambda>y. f y \<le> c) xs)"
  shows "f x > c"
  using assms by (induction xs) (auto split: if_splits)

lemma thread_tick_ok:
  assumes "thread_current s = Some c" "in_external_intr s"
  shows "\<exists>r. thread_tick s = Some r \<and> thr r = thr s \<and> ready_list r = ready_list s \<and>
    idle_thread r = idle_thread s \<and> cur r = cur s \<and> sems r = sems s \<and> locks r = locks s \<and>
    sleep_threads_list r = sleep_threads_list s \<and> in_external_intr r \<and> ticks r = ticks s \<and>
    conds r = conds s"
  using assms
  by (cases "c = idle_thread s"; cases "user_proc s c"; cases "Suc (thread_ticks s) \<ge> TIME_SLICE")
    (simp_all add: thread_tick_def intr_yield_on_return_def Let_def)

lemma timer_interrupt_ok:
  assumes k: "kinv s" and e: "in_external_intr s"
  shows "\<exists>s'. timer_interrupt s = Some s' \<and> kinv s' \<and> in_external_intr s' \<and> ticks s' = ticks s + 1 \<and>
    cur s' = cur s \<and> idle_thread s' = idle_thread s \<and> locks s' = locks s \<and> sems s' = sems s \<and>
    (\<exists>n. sleep_threads_list s = n @ sleep_threads_list s' \<and> ready_list s' = ready_list s @ n) \<and>
    (\<forall>y. map_option konts (thr s' y) = map_option konts (thr s y)) \<and> tgt (thr s') = tgt (thr s) \<and>
    (\<forall>x\<in>set (sleep_threads_list s'). tgt (thr s') x > ticks s')"
proof -
  have cu: "thread_current s = Some (cur s)" using kinv_current [OF k] by metis
  have "thread_current (s\<lparr>ticks := ticks s + 1\<rparr>) = Some (cur s)"
    using cu by (simp add: thread_current_def is_thread_def)
  from thread_tick_ok [OF this] obtain r where r: "thread_tick (s\<lparr>ticks := ticks s + 1\<rparr>) = Some r"
    "thr r = thr s" "ready_list r = ready_list s" "idle_thread r = idle_thread s" "cur r = cur s" "sems r = sems s"
    "locks r = locks s" "sleep_threads_list r = sleep_threads_list s" "in_external_intr r" "ticks r = ticks s + 1"
    using e by auto
  have "kinv r" by (rule kinv_other [OF k]) (use r in simp_all)
  from pop_unblock_ok [OF this refl] obtain s' where s': "thread_pop_unblock r = Some s'" "kinv s'"
    "sleep_threads_list s' = dropWhile (due r) (sleep_threads_list r)"
    "ready_list s' = ready_list r @ takeWhile (due r) (sleep_threads_list r)" "cur s' = cur r"
    "idle_thread s' = idle_thread r" "in_external_intr s' = in_external_intr r" "ticks s' = ticks r"
    "locks s' = locks r" "sems s' = sems r" "tgt (thr s') = tgt (thr r)"
    "\<And>y. map_option konts (thr s' y) = map_option konts (thr r y)"
    by (auto simp: thread_pop_unblock_def)
  have srt: "sorted_wrt (\<lambda>x y. tgt (thr r) x \<le> tgt (thr r) y) (sleep_threads_list r)"
    using coreD(4) [OF kinv_core [OF \<open>kinv r\<close>]] by (simp add: c_sleep_def)
  have "tgt (thr s') x > ticks s'" if "x \<in> set (sleep_threads_list s')" for x
    using dropWhile_sorted [OF srt, of x "ticks r"] that s' by (simp add: due_def [abs_def])
  moreover have "timer_interrupt s = Some s'" using r s' by (simp add: timer_interrupt_def)
  moreover have "sleep_threads_list s = takeWhile (due r) (sleep_threads_list s) @ sleep_threads_list s'"
    using s' r by simp
  ultimately show ?thesis using r s' by (intro exI [of _ s']) auto
qed

definition runnable :: "kstate \<Rightarrow> addr \<Rightarrow> bool" where
  "runnable s x = (\<exists>t. thr s x = Some t \<and> (status t = THREAD_READY \<or> status t = THREAD_RUNNING))"

lemma ready_runnable:
  assumes "kinv s" "x \<in> set (ready_list s)"
  shows "runnable s x"
  using coreD(2) [OF kinv_core [OF assms(1)]] assms(2) by (auto simp: c_ready_def runnable_def)

text \<open>A woken sleeper stays runnable when the interrupt switches threads.\<close>

lemma woken_stays_runnable:
  assumes k: "kinv s'" and f: "sched_frame s s'" and x: "thr s x = Some t" "status t \<noteq> THREAD_DYING" "sleeping t"
    and n: "x \<notin> set (sleep_threads_list s')"
  shows "runnable s' x"
proof -
  obtain t' where t': "thr s' x = Some t'" "status t' \<noteq> THREAD_DYING" "konts t' = konts t"
    using f x unfolding sched_frame_def by blast
  then have "sleeping t'" using x(3) waits_on_cong [OF t'(3)] by simp
  then have "status t' \<noteq> THREAD_BLOCKED"
    using coreD(4) [OF kinv_core [OF k]] n t'(1) by (auto simp: c_sleep_def)
  then show ?thesis using t' unfolding runnable_def by (cases "status t'") auto
qed

lemma timer_intr_ok:
  assumes "kok s"
  shows "\<exists>s'. intr_handler timer_table 0x20 s = Some s' \<and> kok s' \<and> ticks s' = ticks s + 1 \<and>
    idle_thread s' = idle_thread s \<and> locks s' = locks s \<and> sems s' = sems s \<and>
    (cur s' = cur s \<or> runs_highest s') \<and>
    (\<forall>x\<in>set (sleep_threads_list s). tgt (thr s) x \<le> ticks s + 1 \<longrightarrow> runnable s' x) \<and>
    (\<forall>x\<in>set (sleep_threads_list s'). tgt (thr s') x > ticks s')"
proof -
  let ?q = "s\<lparr>in_external_intr := True, yield_on_return := False\<rparr>"
  have k: "kinv ?q" by (rule kinv_other [of s]) (use assms in \<open>simp_all add: kok_def\<close>)
  from timer_interrupt_ok [OF k] obtain r n where r: "timer_interrupt ?q = Some r" "kinv r" "in_external_intr r"
    "ticks r = ticks s + 1" "cur r = cur s" "idle_thread r = idle_thread s" "locks r = locks s" "sems r = sems s"
    and n: "sleep_threads_list s = n @ sleep_threads_list r" "ready_list r = ready_list s @ n"
    and ko: "\<And>y. map_option konts (thr r y) = map_option konts (thr s y)" and tg: "tgt (thr r) = tgt (thr s)"
    and late: "\<And>x. x \<in> set (sleep_threads_list r) \<Longrightarrow> tgt (thr r) x > ticks r"
    by auto
  let ?p = "r\<lparr>in_external_intr := False\<rparr>"
  have kp: "kinv ?p" by (rule kinv_other [OF r(2)]) simp_all
  have eq: "intr_handler timer_table 0x20 s = (if yield_on_return r then thread_yield ?p else Some ?p)"
    using assms r(1,3) by (simp add: intr_handler_def timer_table_def kok_def)
  have due: "x \<in> set (ready_list r) \<and> (\<exists>t. thr r x = Some t \<and> status t = THREAD_READY \<and> sleeping t) \<and>
      x \<notin> set (sleep_threads_list r)"
    if x: "x \<in> set (sleep_threads_list s)" "tgt (thr s) x \<le> ticks s + 1" for x
  proof -
    have nx: "x \<notin> set (sleep_threads_list r)" using late [of x] x(2) tg r(4) by auto
    then have rx: "x \<in> set (ready_list r)" using x(1) n by auto
    obtain u where u: "thr s x = Some u" "sleeping u"
      using coreD(4) [OF kinv_core] assms x(1) by (auto simp: kok_def c_sleep_def)
    obtain t where t: "thr r x = Some t" "status t = THREAD_READY"
      using coreD(2) [OF kinv_core [OF r(2)]] rx by (auto simp: c_ready_def)
    then have "konts t = konts u" using ko [of x] u by simp
    then show ?thesis using nx rx t u waits_on_cong [of t u] by auto
  qed
  show ?thesis
  proof (cases "yield_on_return r")
    case False
    have "runnable ?p x" if "x \<in> set (sleep_threads_list s)" "tgt (thr s) x \<le> ticks s + 1" for x
      using due [OF that] by (auto simp: runnable_def)
    then show ?thesis using False eq r kp late by (auto simp: kok_def)
  next
    case True
    obtain s' where s': "thread_yield ?p = Some s'" "kinv s'" "sched_frame ?p s'" "runs_highest s'"
      using thread_yield_ok [OF kp] by auto
    have sl: "sleep_threads_list s' = sleep_threads_list r" using s'(3) by (simp add: sched_frame_def)
    have "tgt (thr s') x > ticks s'" if x: "x \<in> set (sleep_threads_list s')" for x
    proof -
      obtain t where t: "thr r x = Some t" "status t = THREAD_BLOCKED" "sleeping t"
        using coreD(4) [OF kinv_core [OF r(2)]] x sl by (auto simp: c_sleep_def)
      then have "x \<noteq> idle_thread r" using idle_not_waiting [OF coreD(5) [OF kinv_core [OF r(2)]]] by auto
      then have "thr s' x = Some t" using t s'(3) by (simp add: sched_frame_def)
      then show ?thesis using late [of x] x sl t s'(3) by (simp add: tgt_def sched_frame_def)
    qed
    moreover have "runnable s' x" if x: "x \<in> set (sleep_threads_list s)" "tgt (thr s) x \<le> ticks s + 1" for x
    proof -
      obtain t where "thr r x = Some t" "status t = THREAD_READY" "sleeping t" using due [OF x] by blast
      then show ?thesis using woken_stays_runnable [OF s'(2,3), of x t] due [OF x] sl by simp
    qed
    ultimately show ?thesis using True eq s' r by (auto simp: kok_def sched_frame_def)
  qed
qed

section \<open>Creation and exit\<close>

lemma init_thread_kok:
  assumes "init_thread x nm pri s = Some s'" "kok s" "thr s x = None"
  shows "kok s' \<and> is_new (thr s') x \<and> cur s' = cur s \<and> idle_thread s' = idle_thread s \<and>
    sems s' = sems s \<and> locks s' = locks s \<and>
    (\<forall>y u. thr s' y = Some u \<longrightarrow> x \<notin> set (makes (konts u)))"
proof -
  define t where "t = blank_thread\<lparr>status := THREAD_BLOCKED, tname := take 15 nm, stack_p := x + 4096,
               priority := pri, effective_priority := pri\<rparr>"
  have s': "s' = s\<lparr>thr := (thr s)(x \<mapsto> t), all_list := all_list s @ [x]\<rparr>" "x \<noteq> NULL"
    using assms(1) by (auto simp: init_thread_def t_def ret_iff Let_def)
  have t: "status t = THREAD_BLOCKED" "konts t = []" "priority t \<le> effective_priority t"
    by (simp_all add: t_def blank_thread_def)
  have k: "kinv s" using assms(2) by (simp add: kok_def)
  have "core ((thr s)(x \<mapsto> t)) (ready_list s) (idle_thread s) (\<lambda>a. waiters (sems s a)) (sleep_threads_list s)"
    by (rule core_new [OF kinv_core [OF k] assms(3) s'(2) t])
  moreover have "one_running s'"
    using k t assms(3) unfolding kinv_def one_running_def s'(1) by auto
  ultimately have "kok s'" using assms(2) s' by (simp add: kok_def kinv_def kcore_def)
  moreover have "x \<notin> set (makes (konts u))" if "thr s y = Some u" for y u
    using that coreD(6) [OF kinv_core [OF k]] assms(3) s'(2) by (force simp: c_make_def is_new_def)
  ultimately show ?thesis using s' t by (auto simp: is_new_def)
qed

lemma thread_create_steps:
  assumes "thread_create x nm pri NULL s = Some s'" "kok s" "cur s \<noteq> idle_thread s" "thr s x = None"
  obtains "s' = upd (cur s) (\<lambda>t. t\<lparr>retval := TID_ERROR\<rparr>) s"
  | r where "kok r" "cur r = cur s" "idle_thread r = idle_thread s" "locks r = locks s" "sems r = sems s"
      "lock_acquire tid_lock r = Some s'"
proof (cases "x = NULL")
  case True
  then show ?thesis using that(1) assms by (simp add: thread_create_def)
next
  case False
  then obtain r where r: "init_thread x nm pri s = Some r" "lock_acquire tid_lock (push_kont (KTid x NULL) r) = Some s'"
    using assms(1) by (auto simp: thread_create_def ret_iff)
  note i = init_thread_kok [OF r(1) assms(2,4)]
  have "kinv (push_kont (KTid x NULL) r)"
    by (rule push_make [where x = x]) (use i assms(3) in \<open>auto simp: kok_def makes1_def\<close>)
  then have "kok (push_kont (KTid x NULL) r)" using i by (simp add: kok_def)
  then show ?thesis using that(2) r(2) i by simp
qed

lemma thread_create_kok:
  assumes "thread_create x nm pri NULL s = Some s'" "kok s" "cur s \<noteq> idle_thread s" "thr s x = None"
  shows "kok s'"
  using assms
proof (cases rule: thread_create_steps)
  case 1
  have "kinv (upd (cur s) (\<lambda>t. t\<lparr>retval := TID_ERROR\<rparr>) s)"
    by (rule kinv_upd) (use assms(2) in \<open>auto simp: kok_def\<close>)
  then show ?thesis using 1 assms(2) by (simp add: kok_def)
next
  case (2 r)
  then show ?thesis using lock_acquire_kok assms(3) by simp
qed

lemma allocate_tid_steps:
  assumes "allocate_tid x aux s = Some s'" "kok s" "cur s \<noteq> idle_thread s" "cur_konts s = KTid x aux # ks"
  obtains r where "kok r" "cur r = cur s" "idle_thread r = idle_thread s" "locks r = locks s" "sems r = sems s"
    "lock_release tid_lock r = Some s'"
proof -
  have k: "kinv s" using assms(2) by (simp add: kok_def)
  have "aux = NULL"
    using pop_make(4) [OF k assms(3,4), of NULL] coreD(1) [OF kinv_core [OF k]]
    by (cases "aux = NULL") (auto simp: makes1_def is_new_def)
  note m = pop_make [OF k assms(3,4), of x]
  let ?r = "(pop_kont s)\<lparr>next_tid := next_tid s + 1\<rparr>"
  have "kinv ?r" by (rule kinv_other [OF pop_kont_kinv [OF k assms(3,4)]]) simp_all
  then have "kinv (push_kont (KCreate x aux (next_tid s)) ?r)"
    by (rule push_make [where x = x]) (use m assms \<open>aux = NULL\<close> in \<open>auto simp: makes1_def\<close>)
  moreover have "lock_release tid_lock (push_kont (KCreate x aux (next_tid s)) ?r) = Some s'"
    using assms(1) by (simp add: allocate_tid_def pop_kont_def)
  ultimately show ?thesis
    using that [of "push_kont (KCreate x aux (next_tid s)) ?r"] assms(2) by (simp add: kok_def)
qed

lemma allocate_tid_kok:
  assumes "allocate_tid x aux s = Some s'" "kok s" "cur s \<noteq> idle_thread s" "cur_konts s = KTid x aux # ks"
  shows "kok s'"
  using allocate_tid_steps [OF assms] lock_release_kok assms(3) by metis

definition no_waiter :: "addr \<Rightarrow> kstate \<Rightarrow> bool" where
  "no_waiter x s = (waiters (sems s (exited x)) = [] \<and> waiters (sems s (can_free x)) = [] \<and>
     waiters (sems s (load_done x)) = [])"

lemma create_setup_effect:
  assumes c: "create_setup x NULL i s = Some r" and t: "thr s x = Some t" "thr s (cur s) = Some p" "x \<noteq> cur s"
  shows "\<exists>t'. thr r x = Some t' \<and> status t' = status t \<and> konts t' = [KNew] \<and>
      priority t' = priority t \<and> effective_priority t' = effective_priority t \<and>
      thr r (cur s) = Some (p\<lparr>children_list := children_list p @ [x]\<rparr>) \<and>
      (\<forall>y. y \<noteq> x \<longrightarrow> y \<noteq> cur s \<longrightarrow> thr r y = thr s y) \<and>
      sems r = (sems s)(exited x := \<lparr>sval = 0, waiters = []\<rparr>, can_free x := \<lparr>sval = 0, waiters = []\<rparr>,
        load_done x := \<lparr>sval = 0, waiters = []\<rparr>) \<and>
      ready_list r = ready_list s \<and> idle_thread r = idle_thread s \<and> cur r = cur s \<and> locks r = locks s \<and>
      sleep_threads_list r = sleep_threads_list s \<and> in_external_intr r = in_external_intr s"
proof -
  have "status p = THREAD_RUNNING" "cur s \<noteq> NULL"
    using c t by (auto simp: create_setup_def alloc_frame_def thread_current_def is_thread_def upd_def Let_def ret_iff)
  then show ?thesis
    using c t by (auto simp: create_setup_def alloc_frame_def thread_current_def is_thread_def upd_def Let_def
        sema_init_def set_sema_def ret_iff start_konts_def fun_upd_twist)
qed

lemma resume_create_ok:
  assumes "resume_create x aux i s = Some s'" "kok s" "cur s \<noteq> idle_thread s" "cur_konts s = KCreate x aux i # ks"
    "no_waiter x s"
  shows "kok s' \<and> (cur s' = cur s \<or> runs_highest s') \<and> locks s' = locks s \<and>
    (\<forall>a. a \<notin> {exited x, can_free x, load_done x} \<longrightarrow> sems s' a = sems s a)"
proof -
  have k: "kinv s" using assms(2) by (simp add: kok_def)
  have aux: "aux = NULL"
    using pop_make(4) [OF k assms(3,4), of NULL] coreD(1) [OF kinv_core [OF k]]
    by (cases "aux = NULL") (auto simp: makes1_def is_new_def)
  note m = pop_make [OF k assms(3,4), of x]
  define q where "q = pop_kont s"
  have kq: "kinv q" unfolding q_def by (rule pop_kont_kinv [OF k assms(3,4)])
  obtain p where p: "thr q (cur q) = Some p" "status p = THREAD_RUNNING" "priority p \<le> effective_priority p"
    using kinv_current [OF kq] by metis
  obtain t where t: "thr q x = Some t" "status t = THREAD_BLOCKED" "konts t = []" "x \<noteq> cur q"
      "\<And>y u. thr q y = Some u \<Longrightarrow> x \<notin> set (makes (konts u))"
    using m by (auto simp: makes1_def is_new_def q_def)
  obtain r where r: "create_setup x NULL i q = Some r" using assms(1) aux by (auto simp: resume_create_def q_def ret_iff)
  obtain t' where e: "thr r x = Some t'" "status t' = status t" "konts t' = [KNew]"
      "priority t' = priority t" "effective_priority t' = effective_priority t"
      "thr r (cur q) = Some (p\<lparr>children_list := children_list p @ [x]\<rparr>)"
      "\<And>y. y \<noteq> x \<Longrightarrow> y \<noteq> cur q \<Longrightarrow> thr r y = thr q y"
      "sems r = (sems q)(exited x := \<lparr>sval = 0, waiters = []\<rparr>, can_free x := \<lparr>sval = 0, waiters = []\<rparr>,
        load_done x := \<lparr>sval = 0, waiters = []\<rparr>)"
      "ready_list r = ready_list q" "idle_thread r = idle_thread q" "cur r = cur q" "locks r = locks q"
      "sleep_threads_list r = sleep_threads_list q" "in_external_intr r = in_external_intr q"
    using create_setup_effect [OF r t(1) p(1) t(4)] by blast
  define th where "th = (thr q)(cur q \<mapsto> p\<lparr>children_list := children_list p @ [x]\<rparr>)"
  have th: "(thr r)(x \<mapsto> u) = th(x \<mapsto> u)" for u
    using e by (intro ext) (auto simp: th_def)
  have w: "(\<lambda>a. waiters (sems r a)) = (\<lambda>a. waiters (sems q a))"
    using assms(5) by (intro ext) (auto simp: e no_waiter_def q_def)
  have "core th (ready_list q) (idle_thread q) (\<lambda>a. waiters (sems q a)) (sleep_threads_list q)"
    unfolding th_def by (rule core_upd [OF kinv_core [OF kq] p(1)]) (use p in auto)
  moreover have "th x = Some t" using t by (simp add: th_def)
  moreover have "x \<noteq> idle_thread q"
    using idle_not_waiting [OF coreD(5) [OF kinv_core [OF kq]]] t by auto
  moreover have "\<forall>y u. th y = Some u \<longrightarrow> x \<notin> set (makes (konts u))"
    using t(5) p by (auto simp: th_def split: if_splits)
  moreover have "remove1 x (waiters (sems q b)) = waiters (sems q b)" for b
    using coreD(3) [OF kinv_core [OF kq]] t by (intro remove1_idem) (auto simp: c_wait_def)
  moreover have "remove1 x (sleep_threads_list q) = sleep_threads_list q"
    using coreD(4) [OF kinv_core [OF kq]] t by (intro remove1_idem) (auto simp: c_sleep_def)
  moreover have "priority t \<le> effective_priority t"
    using coreD(7) [OF kinv_core [OF kq]] t by (auto simp: c_prio_def)
  ultimately have "core (th(x \<mapsto> t'\<lparr>status := THREAD_READY\<rparr>)) (ready_list q @ [x]) (idle_thread q)
      (\<lambda>a. waiters (sems q a)) (sleep_threads_list q)"
    by (intro core_wake [where t = t]) (use t e in \<open>auto simp: plain_def [symmetric]\<close>)
  then have co: "core ((thr r)(x \<mapsto> t'\<lparr>status := THREAD_READY\<rparr>)) (ready_list r @ [x]) (idle_thread r)
      (\<lambda>a. waiters (sems r a)) (sleep_threads_list r)"
    unfolding th w e(9,10,13) .
  define v where "v = r\<lparr>ready_list := ready_list r @ [x], thr := (thr r)(x \<mapsto> t'\<lparr>status := THREAD_READY\<rparr>)\<rparr>"
  have "one_running v"
  proof -
    have "thr v (cur v) = Some (p\<lparr>children_list := children_list p @ [x]\<rparr>)"
      using e t(4) by (simp add: v_def)
    moreover have "status u \<noteq> THREAD_RUNNING" if "thr v y = Some u" "y \<noteq> cur v" for y u
      using that e kq p unfolding v_def kinv_def one_running_def by (cases "y = x") auto
    ultimately show ?thesis using p unfolding one_running_def by auto
  qed
  then have "kinv v" using co by (simp add: kinv_def kcore_def v_def)
  then have "kinv (upd (cur v) (\<lambda>p. p\<lparr>retval := i\<rparr>) v)" by (rule kinv_upd) auto
  moreover have "thread_yield_if_necessery (upd (cur v) (\<lambda>p. p\<lparr>retval := i\<rparr>) v) = Some s'"
    using assms(1) r e by (auto simp: resume_create_def aux q_def [symmetric] v_def thread_unblock_def upd_Some ret_iff)
  ultimately show ?thesis
    using yield_if_ok [of "upd (cur v) (\<lambda>p. p\<lparr>retval := i\<rparr>) v"] assms(2) e
    by (auto simp: kok_def sched_frame_def v_def q_def)
qed

lemma kernel_thread_kok:
  assumes "kernel_thread s = Some s'" "kok s" "cur s \<noteq> idle_thread s" "cur_konts s = KNew # ks"
  shows "kok s'"
  using assms pop_kont_kok [OF assms(2,3,4)] by (simp add: kernel_thread_def)

lemma idle_loop_ok:
  assumes k: "kok s" and i: "cur s = idle_thread s"
  shows "\<exists>s'. idle_loop s = Some s' \<and> kok s' \<and> runs_highest s' \<and> sched_frame s s'"
proof -
  have kk: "kinv s" "\<not> in_external_intr s" using k by (simp_all add: kok_def)
  obtain t where t: "thr s (cur s) = Some t" "status t = THREAD_RUNNING" "priority t \<le> effective_priority t"
    using kinv_current [OF kk(1)] by metis
  have "core ((thr s)(cur s \<mapsto> t\<lparr>status := THREAD_BLOCKED\<rparr>)) (ready_list s) (idle_thread s)
      (\<lambda>a. waiters (sems s a)) (sleep_threads_list s)"
    using core_idle_off [OF kinv_core [OF kk(1)], of t "t\<lparr>status := THREAD_BLOCKED\<rparr>"] t i by simp
  then have "kcore (upd (cur s) (\<lambda>t. t\<lparr>status := THREAD_BLOCKED\<rparr>) s)"
    using t by (simp add: kcore_def upd_def)
  then show ?thesis
    using thread_block_ok [of s] kk coreD(1) [OF kinv_core [OF kk(1)]]
    by (auto simp: idle_loop_def kinv_def kok_def sched_frame_def)
qed

lemma kinv_user_proc: "kinv s \<Longrightarrow> kinv (s\<lparr>user_proc := u\<rparr>)"
  by (erule kinv_other) simp_all

lemma thread_exit_kok:
  assumes "thread_exit s = Some s'" "kok s" "cur s \<noteq> idle_thread s"
  shows "kok s'"
  using assms sema_up_kok push_kont_kok [OF assms(2,3), of "KExitKids NULL"]
  by (auto simp: thread_exit_def ret_iff)

lemma prepare_exit_kok: "prepare_thread_for_exit v s = Some s' \<Longrightarrow> kok s \<Longrightarrow> kok s'"
  by (auto simp: prepare_thread_for_exit_def ret_iff kok_def intro!: kinv_upd)

lemma exit_kids_kok:
  assumes "exit_kids e s = Some s'" "kok s" "cur s \<noteq> idle_thread s" "cur_konts s = KExitKids e # ks"
  shows "kok s'"
proof -
  have p: "kok (pop_kont s)" by (rule pop_kont_kok [OF assms(2,3,4)])
  obtain x where "(x \<noteq> NULL \<and> sema_up (can_free x) (push_kont (KExitKids x) (pop_kont s)) = Some s') \<or>
      process_exit (push_kont KExitWait (pop_kont s)) = Some s'"
    using assms(1) by (auto simp: exit_kids_def ret_iff Let_def split: if_splits)
  moreover have "kok (push_kont (KExitKids x) (pop_kont s))" "kok (push_kont KExitWait (pop_kont s))"
    using push_kont_kok [OF p] assms(3) by simp_all
  moreover have "kok (q\<lparr>user_proc := u\<rparr>)" if "kok q" for q u
    using that kinv_user_proc [of q u] by (simp add: kok_def)
  ultimately show ?thesis
    using sema_up_kok by (auto simp: process_exit_def ret_iff Let_def)
qed

lemma exit_wait_kok:
  assumes "exit_wait s = Some s'" "kok s" "cur s \<noteq> idle_thread s" "cur_konts s = KExitWait # ks"
  shows "kok s'"
  using sema_down_kok push_kont_kok [OF pop_kont_kok [OF assms(2,3,4)], of KExitTail] assms
  by (auto simp: exit_wait_def)

lemma exit_tail_ok:
  assumes e: "exit_tail s = Some s'" and k: "kok s" and i: "cur s \<noteq> idle_thread s" and ks: "cur_konts s = KExitTail # ks"
  shows "kok s' \<and> runs_highest s' \<and> locks s' = locks s \<and> sems s' = sems s \<and> idle_thread s' = idle_thread s"
proof -
  define q where "q = (pop_kont s)\<lparr>all_list := remove1 (cur s) (all_list s)\<rparr>"
  have "kinv (pop_kont s)" using pop_kont_kok [OF k i ks] by (simp add: kok_def)
  then have kq: "kinv q" unfolding q_def by (rule kinv_other) simp_all
  obtain t where t: "thr q (cur q) = Some t" using kinv_current [OF kq] by metis
  define r where "r = upd (child_of t) (\<lambda>p. p\<lparr>children_list := remove1 (cur s) (children_list p)\<rparr>) q"
  have kr: "kinv r" unfolding r_def by (rule kinv_upd [OF kq]) auto
  obtain u where u: "thr r (cur r) = Some u" "status u = THREAD_RUNNING" "priority u \<le> effective_priority u"
    using kinv_current [OF kr] by metis
  let ?v = "r\<lparr>thr := (thr r)(cur r \<mapsto> u\<lparr>status := THREAD_DYING\<rparr>)\<rparr>"
  have cr: "cur r = cur s" "idle_thread r = idle_thread s" "in_external_intr r = in_external_intr s"
      "locks r = locks s" "sems r = sems s" by (simp_all add: r_def q_def)
  have "thr (pop_kont s) (cur s) = Some t" using t by (simp add: q_def)
  then have "schedule (upd (cur s) (\<lambda>t. t\<lparr>status := THREAD_DYING\<rparr>) r) = Some s'"
    using e by (auto simp: exit_tail_def ret_iff Let_def thread_current_def r_def q_def pop_kont_def upd_def)
  then have sc: "schedule ?v = Some s'" using u cr by (simp add: upd_Some)
  have "core ((thr r)(cur r \<mapsto> u\<lparr>status := THREAD_DYING\<rparr>)) (ready_list r) (idle_thread r)
      (\<lambda>a. waiters (sems r a)) (sleep_threads_list r)"
    by (rule core_die [OF kinv_core [OF kr] u(1,2)]) (use u i cr in auto)
  then have "kcore ?v" by (simp add: kcore_def)
  moreover have "status w \<noteq> THREAD_RUNNING" if "thr ?v y = Some w" for y w
    using that kinv_running [OF kr, of y w] by (cases "y = cur r") auto
  ultimately show ?thesis
    using schedule_ok [of ?v "u\<lparr>status := THREAD_DYING\<rparr>"] sc cr k by (auto simp: kok_def sched_frame_def)
qed

end
