(* ===== verification/Kernel_Steps.thy ===== *)
theory Kernel_Steps
  imports Kernel_Ops
begin

text \<open>
  The kernel as a transition system. A step is a call of a kernel function by the running thread,
  the next piece of a call it is in the middle of, or the interrupt of the timer at a point where
  interrupts are on. Threads other than the running one do nothing, so the sequences of steps are
  the interleavings of the threads.

  \<open>L\<close> is the set of the addresses that hold locks. The conditions on a call say that the objects
  are used as what they are: a semaphore operation is not applied to the semaphore inside a
  lock, and an object is not initialised while threads wait in it.
\<close>

section \<open>Calls\<close>

datatype kcall =
    CSemaInit addr nat
  | CSemaDown addr
  | CSemaTryDown addr
  | CSemaUp addr
  | CLockInit addr
  | CLockAcquire addr
  | CLockTryAcquire addr
  | CLockRelease addr
  | CCondInit addr
  | CCondWait addr addr addr
  | CCondSignal addr addr
  | CCondBroadcast addr addr
  | CCreate addr "byte list" int
  | CSetPriority int
  | CYield
  | CSleep int
  | CExit int

definition give_bool :: "(bool \<times> kstate) option \<Rightarrow> kstate option" where
  "give_bool r = do {
     (b, s) \<leftarrow> r;
     Some (upd (cur s) (\<lambda>t. t\<lparr>retval := (if b then 1 else 0)\<rparr>) s) }"

fun kcall_run :: "kcall \<Rightarrow> kstate \<Rightarrow> kstate option" where
  "kcall_run (CSemaInit a v) s = sema_init a v s"
| "kcall_run (CSemaDown a) s = sema_down a s"
| "kcall_run (CSemaTryDown a) s = give_bool (sema_try_down a s)"
| "kcall_run (CSemaUp a) s = sema_up a s"
| "kcall_run (CLockInit l) s = lock_init l s"
| "kcall_run (CLockAcquire l) s = lock_acquire l s"
| "kcall_run (CLockTryAcquire l) s = give_bool (lock_try_acquire l s)"
| "kcall_run (CLockRelease l) s = lock_release l s"
| "kcall_run (CCondInit cv) s = cond_init cv s"
| "kcall_run (CCondWait cv l w) s = cond_wait cv l w s"
| "kcall_run (CCondSignal cv l) s = cond_signal cv l s"
| "kcall_run (CCondBroadcast cv l) s = cond_broadcast cv l s"
| "kcall_run (CCreate x nm pri) s = thread_create x nm pri NULL s"
| "kcall_run (CSetPriority p) s = thread_set_priority p s"
| "kcall_run CYield s = thread_yield s"
| "kcall_run (CSleep n) s = timer_sleep n s"
| "kcall_run (CExit v) s = prepare_thread_for_exit v s \<bind> thread_exit"

fun call_ok :: "addr set \<Rightarrow> kcall \<Rightarrow> kstate \<Rightarrow> bool" where
  "call_ok L (CSemaInit a v) s = (a \<notin> L \<and> waiters (sems s a) = [])"
| "call_ok L (CSemaDown a) s = (a \<notin> L)"
| "call_ok L (CSemaTryDown a) s = (a \<notin> L)"
| "call_ok L (CSemaUp a) s = (a \<notin> L)"
| "call_ok L (CLockInit l) s = (l \<in> L \<and> waiters (sems s l) = [] \<and> holder (locks s l) = NULL)"
| "call_ok L (CLockAcquire l) s = (l \<in> L)"
| "call_ok L (CLockTryAcquire l) s = (l \<in> L)"
| "call_ok L (CLockRelease l) s = (l \<in> L)"
| "call_ok L (CCondWait cv l w) s = (l \<in> L \<and> w \<notin> L \<and> waiters (sems s w) = [])"
| "call_ok L (CCondSignal cv l) s = (set (conds s cv) \<inter> L = {})"
| "call_ok L (CCondBroadcast cv l) s = (set (conds s cv) \<inter> L = {})"
| "call_ok L (CCreate x nm pri) s = (thr s x = None)"
| "call_ok L (CExit v) s = (exited (cur s) \<notin> L)"
| "call_ok L _ s = True"

text \<open>
  The same conditions for the calls inside other calls: the semaphores inside a \<open>struct thread\<close>
  are not locks, and nothing waits in the page of a thread that is being set up.
\<close>

definition kids :: "kstate \<Rightarrow> addr set" where
  "kids s = (case thr s (cur s) of Some t \<Rightarrow> set (children_list t) | None \<Rightarrow> {})"

fun resume_ok :: "addr set \<Rightarrow> kont \<Rightarrow> kstate \<Rightarrow> bool" where
  "resume_ok L (KCreate x aux i) s = (no_waiter x s \<and> exited x \<notin> L \<and> can_free x \<notin> L \<and> load_done x \<notin> L)"
| "resume_ok L (KCondMore cv l) s = (set (conds s cv) \<inter> L = {})"
| "resume_ok L (KExitKids e) s = (exited (cur s) \<notin> L \<and> (\<forall>x\<in>kids s. can_free x \<notin> L))"
| "resume_ok L KExitWait s = (can_free (cur s) \<notin> L)"
| "resume_ok L (KSemaDown a) s = (a \<notin> L)"
| "resume_ok L (KCondDown l w) s = (w \<notin> L)"
| "resume_ok L _ s = True"

text \<open>Whether interrupts are on when a thread continues.\<close>

fun preemptible :: "kont list \<Rightarrow> bool" where
  "preemptible [] = True"
| "preemptible (k # _) = (case k of
     KNew \<Rightarrow> False | KSemaDown _ \<Rightarrow> False | KLockDown _ \<Rightarrow> False | KLockUp _ \<Rightarrow> False | KSleep \<Rightarrow> False
   | KStart _ \<Rightarrow> False | _ \<Rightarrow> True)"

section \<open>Steps and reachable states\<close>

inductive kstep :: "addr set \<Rightarrow> kstate \<Rightarrow> kstate \<Rightarrow> bool" for L where
  call: "cur_konts s = [] \<Longrightarrow> call_ok L c s \<Longrightarrow> kcall_run c s = Some s' \<Longrightarrow> kstep L s s'"
| resume: "cur_konts s = k # ks \<Longrightarrow> resume_ok L k s \<Longrightarrow> resume k s = Some s' \<Longrightarrow> kstep L s s'"
| tick: "preemptible (cur_konts s) \<Longrightarrow> intr_handler timer_table 0x20 s = Some s' \<Longrightarrow> kstep L s s'"

inductive_cases kstepE: "kstep L s s'"

text \<open>
  Before the thread system is started there are no threads, nobody waits, and the locks are free.
  \<open>m\<close> is the page of the running thread, \<open>i\<close> the page of the idle thread, \<open>a\<close> the semaphore the
  start waits for.
\<close>

definition before_start :: "addr set \<Rightarrow> kstate \<Rightarrow> bool" where
  "before_start L s = (thr s = (\<lambda>_. None) \<and> (\<forall>a. waiters (sems s a) = []) \<and> sleep_threads_list s = [] \<and>
     \<not> in_external_intr s \<and> (\<forall>l\<in>L. sval (sems s l) = 1 \<and> holder (locks s l) = NULL))"

definition places_ok :: "addr set \<Rightarrow> addr \<Rightarrow> addr \<Rightarrow> addr \<Rightarrow> bool" where
  "places_ok L m i a = (m \<noteq> NULL \<and> i \<noteq> NULL \<and> a \<noteq> NULL \<and> m \<noteq> i \<and> a \<notin> L \<and> tid_lock \<in> L \<and>
     exited i \<notin> L \<and> can_free i \<notin> L \<and> load_done i \<notin> L \<and> a \<notin> {exited i, can_free i, load_done i})"

definition boot :: "addr \<Rightarrow> addr \<Rightarrow> addr \<Rightarrow> kstate \<Rightarrow> kstate option" where
  "boot m i a s = do {
     s \<leftarrow> thread_init m s;
     s \<leftarrow> thread_start a i s;
     run 7 s }"

inductive reach :: "addr set \<Rightarrow> kstate \<Rightarrow> bool" for L where
  start: "before_start L s0 \<Longrightarrow> places_ok L m i a \<Longrightarrow> boot m i a s0 = Some s \<Longrightarrow> reach L s"
| step: "reach L s \<Longrightarrow> kstep L s s' \<Longrightarrow> reach L s'"

section \<open>The invariant is kept\<close>

lemma give_bool_kok: "give_bool r = Some s' \<Longrightarrow> (\<And>b s. r = Some (b, s) \<Longrightarrow> kok s) \<Longrightarrow> kok s'"
  by (auto simp: give_bool_def kok_def ret_iff intro!: kinv_upd)

lemma cur_not_idle:
  assumes "kok s" "cur_konts s \<noteq> [KIdleLoop]"
  shows "cur s \<noteq> idle_thread s"
proof
  assume "cur s = idle_thread s"
  moreover have "c_idle (thr s) (idle_thread s)"
    using coreD(5) [OF kinv_core] assms(1) by (simp add: kok_def)
  ultimately show False using assms(2) by (auto simp: c_idle_def cur_konts_def)
qed

lemma boot_konts_idle:
  assumes "kok s" "cur_konts s = k # ks" "NULL \<in> set (makes1 k)"
  shows "cur s = idle_thread s \<and> k = KIdleLoop"
proof (cases "cur s = idle_thread s")
  case True
  then show ?thesis using cur_not_idle [OF assms(1)] assms(2) by auto
next
  case False
  have k: "kinv s" using assms(1) by (simp add: kok_def)
  show ?thesis
    using pop_make(4) [OF k False assms(2,3)] coreD(1) [OF kinv_core [OF k]] by (simp add: is_new_def)
qed

lemma call_kok:
  assumes k: "kok s" and c: "cur_konts s = []" "call_ok L c s" "kcall_run c s = Some s'"
  shows "kok s'"
proof -
  have i: "cur s \<noteq> idle_thread s" using cur_not_idle [OF k] c(1) by simp
  show ?thesis
  proof (cases c)
    case (CSemaTryDown a)
    then show ?thesis using c k by (auto elim!: give_bool_kok intro: sema_try_down_kok)
  next
    case (CLockTryAcquire l)
    then show ?thesis using c k by (auto elim!: give_bool_kok intro: lock_try_acquire_kok)
  next
    case CYield
    then show ?thesis using c k thread_yield_ok [of s] by (auto simp: kok_def sched_frame_def)
  next
    case (CSleep n)
    then have "int64 (n + ticks s) \<noteq> None"
      using c by (auto simp: timer_sleep_def timer_ticks_def ret_iff)
    then show ?thesis using timer_sleep_ok [OF k i, of n] CSleep c by auto
  next
    case (CExit v)
    then obtain r where r: "prepare_thread_for_exit v s = Some r" "thread_exit r = Some s'"
      using c by (auto simp: ret_iff)
    have "cur r \<noteq> idle_thread r" using r(1) i by (auto simp: prepare_thread_for_exit_def ret_iff)
    then show ?thesis using thread_exit_kok [OF r(2)] prepare_exit_kok [OF r(1) k] by simp
  qed (use c k i in \<open>auto intro: sema_init_kok sema_down_kok sema_up_kok lock_init_kok lock_acquire_kok lock_release_kok
      cond_init_kok cond_wait_kok cond_signal_kok cond_broadcast_kok thread_create_kok thread_set_priority_ok [THEN conjunct1]\<close>)
qed

lemma resume_kok:
  assumes k: "kok s" and c: "cur_konts s = k # ks" "resume_ok L k s" "resume k s = Some s'"
  shows "kok s'"
proof (cases "NULL \<in> set (makes1 k)")
  case True
  then show ?thesis
    using boot_konts_idle [OF k c(1)] c(3) idle_loop_ok [OF k] by auto
next
  case False
  then have "k \<noteq> KIdleLoop" by (auto simp: makes1_def)
  then have i: "cur s \<noteq> idle_thread s" using cur_not_idle [OF k] c(1) by auto
  show ?thesis
    by (cases k) (use c k i False in \<open>auto simp: makes1_def intro: kernel_thread_kok resume_sema_down_kok
      resume_lock_down_kok resume_lock_up_kok resume_cond_down_kok resume_cond_lock_kok resume_cond_more_kok
      allocate_tid_kok resume_create_ok [THEN conjunct1] resume_sleep_kok exit_kids_kok exit_wait_kok exit_tail_ok [THEN conjunct1]\<close>)
qed

lemma tick_kok: "intr_handler timer_table 0x20 s = Some s' \<Longrightarrow> kok s \<Longrightarrow> kok s'"
  using timer_intr_ok [of s] by auto

lemma kstep_kok:
  assumes "kstep L s s'" "kok s"
  shows "kok s'"
  using assms(1)
proof (cases rule: kstep.cases)
  case (call c)
  then show ?thesis by (rule call_kok [OF assms(2)])
next
  case (resume k ks)
  then show ?thesis by (rule resume_kok [OF assms(2)])
next
  case tick
  then show ?thesis using tick_kok assms(2) by blast
qed

section \<open>Locks\<close>

text \<open>
  What a step may do to a lock: nothing, give it up when the running thread holds it, or give it to
  the running thread when it is free.
\<close>

definition lview :: "kstate \<Rightarrow> addr \<Rightarrow> nat \<times> addr" where
  "lview s l = (sval (sems s l), holder (locks s l))"

definition lock_inv :: "addr set \<Rightarrow> kstate \<Rightarrow> bool" where
  "lock_inv L s = (\<forall>l\<in>L. lview s l = (1, NULL) \<or> (\<exists>x. x \<noteq> NULL \<and> lview s l = (0, x)))"

definition lmove :: "addr set \<Rightarrow> kstate \<Rightarrow> kstate \<Rightarrow> bool" where
  "lmove L s s' = (\<forall>l\<in>L. lview s' l = lview s l \<or>
     lview s l = (0, cur s) \<and> lview s' l = (1, NULL) \<or> lview s l = (1, NULL) \<and> lview s' l = (0, cur s))"

lemma lmove_inv: "lmove L s s' \<Longrightarrow> lock_inv L s \<Longrightarrow> cur s \<noteq> NULL \<Longrightarrow> lock_inv L s'"
  unfolding lmove_def lock_inv_def by metis

lemma lview_fields [simp]:
  "lview (push_kont k s) = lview s" "lview (pop_kont s) = lview s" "lview (upd x f s) = lview s"
  "lview (with_eff p s) = lview s" "lview (woken a x s) = lview s"
  "lview (set_sema a z s) l = (if l = a then (sval z, holder (locks s l)) else lview s l)"
  "lview (set_lock m y s) l = (if l = m then (sval (sems s l), holder y) else lview s l)"
  by (auto simp: lview_def fun_eq_iff set_sema_def set_lock_def)

lemma lview_frame: "sched_frame s s' \<Longrightarrow> lview s' = lview s"
  by (auto simp: sched_frame_def lview_def fun_eq_iff)

lemma lview_donated: "donated s s' \<Longrightarrow> lview s' = lview s"
  by (auto simp: donated_def)

text \<open>With it: a step that changes the running thread takes a ready one of highest priority.\<close>

definition kmove :: "addr set \<Rightarrow> kstate \<Rightarrow> kstate \<Rightarrow> bool" where
  "kmove L s s' = (lmove L s s' \<and> (cur s' = cur s \<or> runs_highest s'))"

lemma kmove_same_on:
  "(\<And>l. l \<in> L \<Longrightarrow> lview s' l = lview s l) \<Longrightarrow> cur s' = cur s \<or> runs_highest s' \<Longrightarrow> kmove L s s'"
  by (simp add: kmove_def lmove_def)

lemma kmove_same: "lview s' = lview s \<Longrightarrow> cur s' = cur s \<or> runs_highest s' \<Longrightarrow> kmove L s s'"
  by (simp add: kmove_def lmove_def)

lemma kmove_from: "kmove L r s' \<Longrightarrow> lview r = lview s \<Longrightarrow> cur r = cur s \<Longrightarrow> kmove L s s'"
  by (simp add: kmove_def lmove_def)

lemma kmove_from_on:
  "kmove L r s' \<Longrightarrow> (\<And>l. l \<in> L \<Longrightarrow> lview r l = lview s l) \<Longrightarrow> cur r = cur s \<Longrightarrow> kmove L s s'"
  by (simp add: kmove_def lmove_def)

lemma lview_waiters [simp]: "lview (set_sema a ((sems s a)\<lparr>waiters := w\<rparr>) s) = lview s"
  by (auto simp: fun_eq_iff lview_def set_sema_def)

lemma lock_inv_cong: "lview s' = lview s \<Longrightarrow> lock_inv L s' = lock_inv L s"
  by (simp add: lock_inv_def)

lemma sema_up_effect:
  assumes "sema_up a s = Some s'" "kok s"
  shows "lview s' l = (if l = a then ((sval (sems s a) + 1) mod 4294967296, holder (locks s a)) else lview s l)"
    "cur s' = cur s \<or> runs_highest s'"
proof -
  have "a \<noteq> NULL" using assms(1) by (auto simp: sema_up_def ret_iff)
  then obtain r where r: "if waiters (sems s a) = [] then r = s else \<exists>x. best_waiter a x s \<and> r = woken a x s"
      "sched_frame (set_sema a ((sems r a)\<lparr>sval := (sval (sems s a) + 1) mod 4294967296\<rparr>) r) s'"
      "cur s' = cur s \<or> runs_highest s'"
    using sema_up_ok [of s a] assms by (auto simp: kok_def)
  have "lview r = lview s" "locks r = locks s" using r(1) by (auto split: if_splits)
  then show "lview s' l = (if l = a then ((sval (sems s a) + 1) mod 4294967296, holder (locks s a)) else lview s l)"
    using lview_frame [OF r(2)] by auto
  show "cur s' = cur s \<or> runs_highest s'" by (rule r(3))
qed

lemma sema_up_move: "sema_up a s = Some s' \<Longrightarrow> kok s \<Longrightarrow> a \<notin> L \<Longrightarrow> kmove L s s'"
  by (rule kmove_same_on) (auto simp: sema_up_effect)

lemma down_iter_effect:
  assumes "sema_down_iter a s = Some (b, s')" "kok s" "cur_waits s a"
  shows "if b then lview s a = (sval (sems s' a) + 1, holder (locks s a)) \<and>
      s' = set_sema a ((sems s a)\<lparr>sval := sval (sems s a) - 1\<rparr>) s
    else lview s' = lview s \<and> runs_highest s'"
proof (cases b)
  case True
  then show ?thesis
    using down_iter_true [of a s s'] assms by (auto simp: kok_def lview_def set_sema_def)
next
  case False
  then have "sval (sems s a) = 0" using assms(1) by (auto simp: sema_down_iter_def split: if_splits)
  from sema_down_iter_wait [OF _ _ assms(3) this] show ?thesis
    using assms False by (auto simp: kok_def dest!: lview_frame)
qed

lemma resume_sema_down_move:
  assumes "resume_sema_down a s = Some s'" "kok s" "cur_konts s = KSemaDown a # ks" "cur s \<noteq> idle_thread s" "a \<notin> L"
  shows "kmove L s s'"
proof -
  obtain b r where r: "sema_down_iter a s = Some (b, r)" "s' = (if b then pop_kont r else r)"
    using assms(1) by (auto simp: resume_sema_down_def ret_iff)
  have "cur_waits s a" using cur_waits_konts [of s a ks] assms by (simp add: kok_def)
  note d = down_iter_effect [OF r(1) assms(2) this]
  show ?thesis by (rule kmove_same_on) (use d r assms(5) in \<open>auto split: if_splits\<close>)
qed

lemma sema_down_move:
  assumes "sema_down a s = Some s'" "kok s" "cur s \<noteq> idle_thread s" "a \<notin> L"
  shows "kmove L s s'"
proof -
  let ?q = "push_kont (KSemaDown a) s"
  have "resume_sema_down a ?q = Some s'" using assms(1) by (auto simp: sema_down_def ret_iff)
  moreover have "kok ?q" by (rule push_kont_kok) (use assms in simp_all)
  ultimately have "kmove L ?q s'"
    using resume_sema_down_move [of a ?q s' "cur_konts s" L] assms by (simp add: kok_def)
  then show ?thesis by (rule kmove_from) simp_all
qed

lemma lock_acquired_effect:
  assumes "lock_acquired l s = Some s'"
  shows "lview s' m = (if m = l then (sval (sems s l), cur s) else lview s m)" "cur s' = cur s"
  using assms by (auto simp: lock_acquired_def ret_iff Let_def thread_current_def lview_def set_lock_def)

lemma resume_lock_down_move:
  assumes "resume_lock_down l s = Some s'" "kok s" "cur_konts s = KLockDown l # ks" "cur s \<noteq> idle_thread s"
    "lock_inv L s"
  shows "kmove L s s'"
proof -
  obtain b r where r: "sema_down_iter l s = Some (b, r)"
    "if b then lock_acquired l (pop_kont r) = Some s' else s' = r"
    using assms(1) by (auto simp: resume_lock_down_def ret_iff split: if_splits)
  have "cur_waits s l" using cur_waits_konts [of s l ks] assms by (simp add: kok_def)
  note d = down_iter_effect [OF r(1) assms(2) this]
  show ?thesis
  proof (cases b)
    case True
    have v: "lview s' m = (if m = l then (sval (sems r l), cur s) else lview s m)" "cur s' = cur s" for m
      using lock_acquired_effect [of l "pop_kont r" s'] r d True by auto
    have "lview s l = (sval (sems r l) + 1, holder (locks s l))" using d True by simp
    then have "l \<in> L \<Longrightarrow> lview s l = (1, NULL) \<and> lview s' l = (0, cur s)"
      using assms(5) v(1) [of l] unfolding lock_inv_def by fastforce
    then show ?thesis unfolding kmove_def lmove_def using v by auto
  next
    case False
    then show ?thesis using d r by (simp add: kmove_same)
  qed
qed

lemma lock_acquire_move:
  assumes "lock_acquire l s = Some s'" "kok s" "cur s \<noteq> idle_thread s" "lock_inv L s"
  shows "kmove L s s'"
proof -
  obtain r where r: "donated (upd (cur s) (\<lambda>t. t\<lparr>waiting_lock := l\<rparr>) s) r" "kok r" "cur r = cur s"
    "resume_lock_down l (push_kont (KLockDown l) r) = Some s'"
    using lock_acquire_steps [OF assms(1,2)] by blast
  have v: "lview r = lview s" using lview_donated [OF r(1)] by simp
  have i: "cur r \<noteq> idle_thread r" using donated_fields [OF r(1)] assms(3) r(3) by simp
  have "kmove L (push_kont (KLockDown l) r) s'"
    by (rule resume_lock_down_move [OF r(4), where ks = "cur_konts r"])
      (use r i v assms(4) push_kont_kok [OF r(2) i] lock_inv_cong [OF v] lock_inv_cong [of "push_kont (KLockDown l) r" r]
        in \<open>auto simp: kok_def\<close>)
  then show ?thesis by (rule kmove_from) (use v r(3) in simp_all)
qed

lemma lock_release_move:
  assumes "lock_release l s = Some s'" "kok s" "cur s \<noteq> idle_thread s" "lock_inv L s"
  shows "kmove L s s'"
proof -
  let ?r = "push_kont (KLockUp l) (set_lock l ((locks s l)\<lparr>holder := NULL\<rparr>) s)"
  have u: "sema_up l ?r = Some s'" "holder (locks s l) = cur s" "cur s \<noteq> NULL"
    using assms(1) by (auto simp: lock_release_def lock_held_by_current_thread_def thread_current_def is_thread_def ret_iff)
  have "kok (set_lock l ((locks s l)\<lparr>holder := NULL\<rparr>) s)" using assms(2) by (simp add: kok_def)
  then have "kok ?r" by (rule push_kont_kok) (use assms(3) in simp_all)
  note e = sema_up_effect [OF u(1) this]
  have v: "lview s' m = (if m = l then ((sval (sems s l) + 1) mod 4294967296, NULL) else lview s m)" for m
    using e(1) [of m] by (cases "m = l") (simp_all, simp_all add: set_lock_def)
  have "l \<in> L \<Longrightarrow> lview s l = (0, cur s)"
    using assms(4) u(2,3) unfolding lock_inv_def lview_def by fastforce
  then show ?thesis unfolding kmove_def lmove_def using v e(2) by (auto simp: lview_def)
qed

lemma calculate_effect:
  assumes "calculate_priority_and_yield x s = Some s'" "kok s"
  shows "lview s' = lview s \<and> (cur s' = cur s \<or> runs_highest s')"
proof -
  obtain t where "thr s x = Some t" using assms(1) by (auto simp: calculate_priority_and_yield_def ret_iff)
  then show ?thesis using calculate_ok [of s x t] assms by (auto simp: kok_def dest!: lview_frame)
qed

lemma resume_lock_up_move:
  assumes "resume_lock_up l s = Some s'" "kok s" "cur_konts s = KLockUp l # ks" "cur s \<noteq> idle_thread s"
  shows "kmove L s s'"
proof -
  let ?q = "upd (linked_in (locks s l)) (\<lambda>t. t\<lparr>holding_locks_list := remove1 l (holding_locks_list t)\<rparr>) (pop_kont s)"
  let ?r = "set_lock l ((locks ?q l)\<lparr>linked_in := NULL\<rparr>) ?q"
  have "kinv ?q" by (rule kinv_upd) (use pop_kont_kok [OF assms(2,4,3)] in \<open>auto simp: kok_def\<close>)
  then have "kok ?r" using assms(2) by (simp add: kok_def)
  moreover obtain t where "calculate_priority_and_yield t ?r = Some s'"
    using assms(1) by (auto simp: resume_lock_up_def ret_iff Let_def)
  ultimately have "lview s' = lview ?r \<and> (cur s' = cur ?r \<or> runs_highest s')" using calculate_effect by blast
  moreover have "lview ?r = lview s" by (auto simp: fun_eq_iff lview_def set_lock_def)
  ultimately show ?thesis by (intro kmove_same) auto
qed

lemma lock_try_acquire_move:
  assumes "lock_try_acquire l s = Some (b, s')" "lock_inv L s"
  shows "kmove L s s'"
proof (cases "sval (sems s l) > 0")
  case True
  then have s': "s' = set_lock l ((locks s l)\<lparr>holder := cur s\<rparr>) (set_sema l ((sems s l)\<lparr>sval := sval (sems s l) - 1\<rparr>) s)"
    using assms(1) by (auto simp: lock_try_acquire_def sema_try_down_def thread_current_def ret_iff)
  have "l \<in> L \<Longrightarrow> lview s l = (1, NULL)" using assms(2) True by (auto simp: lock_inv_def lview_def)
  then show ?thesis by (auto simp: s' kmove_def lmove_def) (auto simp: lview_def set_sema_def)
next
  case False
  then have "s' = s" using assms(1) by (auto simp: lock_try_acquire_def sema_try_down_def ret_iff)
  then show ?thesis by (simp add: kmove_same)
qed

lemma give_bool_move:
  assumes "give_bool r = Some s'" "\<And>b q. r = Some (b, q) \<Longrightarrow> kmove L s q \<and> cur q = cur s"
  shows "kmove L s s'"
proof -
  obtain b q where q: "r = Some (b, q)" "s' = upd (cur q) (\<lambda>t. t\<lparr>retval := (if b then 1 else 0)\<rparr>) q"
    using assms(1) by (auto simp: give_bool_def ret_iff)
  then show ?thesis using assms(2) [OF q(1)] by (auto simp: kmove_def lmove_def)
qed

lemma sema_try_down_move:
  assumes "sema_try_down a s = Some (b, q)" "a \<notin> L"
  shows "kmove L s q \<and> cur q = cur s"
  using assms by (auto simp: sema_try_down_def ret_iff split: if_splits intro!: kmove_same_on)

lemma sema_init_move:
  assumes "sema_init a v s = Some s'" "a \<notin> L"
  shows "kmove L s s'"
  using sema_init_fields [OF assms(1)] assms(2) by (intro kmove_same_on) auto

lemma lock_init_move:
  assumes "lock_init l s = Some s'" "holder (locks s l) = NULL" "lock_inv L s"
  shows "kmove L s s'"
proof (rule kmove_same_on)
  have s': "s' = set_sema l \<lparr>sval = 1, waiters = []\<rparr> (set_lock l \<lparr>holder = NULL, linked_in = NULL\<rparr> s)"
    using assms(1) by (auto simp: lock_init_def ret_iff dest!: sema_init_fields)
  show "cur s' = cur s \<or> runs_highest s'" by (simp add: s')
  show "lview s' m = lview s m" if "m \<in> L" for m
    using that assms(2,3) by (auto simp: s' lock_inv_def lview_def set_lock_def set_sema_def)
qed

lemma cond_signal_move:
  assumes "cond_signal cv l s = Some s'" "kok s" "set (conds s cv) \<inter> L = {}"
  shows "kmove L s s'"
proof (cases "conds s cv = []")
  case True
  then show ?thesis using assms(1) by (auto simp: cond_signal_def ret_iff kmove_same)
next
  case False
  then obtain e ws where e: "get_and_remove_next_sema_for_cond (conds s cv) s = Some (e, ws)"
    "sema_up e (s\<lparr>conds := (conds s)(cv := ws)\<rparr>) = Some s'"
    using assms(1) by (auto simp: cond_signal_def ret_iff)
  have mx: "cond_max s ys x = Some y \<Longrightarrow> y = x \<or> y \<in> set ys" for ys x y
    by (induction ys arbitrary: x) (auto simp: ret_iff split: if_splits)
  have "e \<in> set (conds s cv)"
    using e(1) mx by (auto simp: get_and_remove_next_sema_for_cond_def ret_iff split: list.splits)
  then have "kmove L (s\<lparr>conds := (conds s)(cv := ws)\<rparr>) s'"
    using sema_up_move [OF e(2) kok_conds [OF assms(2)]] assms(3) by auto
  then show ?thesis by (rule kmove_from) (simp_all add: lview_def fun_eq_iff)
qed

lemma cond_broadcast_move:
  assumes "cond_broadcast cv l s = Some s'" "kok s" "cur s \<noteq> idle_thread s" "set (conds s cv) \<inter> L = {}"
  shows "kmove L s s'"
proof (cases "conds s cv = []")
  case True
  then show ?thesis using assms(1) by (auto simp: cond_broadcast_def ret_iff kmove_same)
next
  case False
  then have "cond_signal cv l (push_kont (KCondMore cv l) s) = Some s'"
    using assms(1) by (auto simp: cond_broadcast_def ret_iff)
  then have "kmove L (push_kont (KCondMore cv l) s) s'"
    by (rule cond_signal_move) (use assms push_kont_kok [OF assms(2,3), of "KCondMore cv l"] in simp_all)
  then show ?thesis by (rule kmove_from) simp_all
qed

lemma call_move:
  assumes k: "kok s" and c: "cur_konts s = []" "call_ok L c s" "kcall_run c s = Some s'" and l: "lock_inv L s"
  shows "kmove L s s'"
proof -
  have i: "cur s \<noteq> idle_thread s" using cur_not_idle [OF k] c(1) by simp
  show ?thesis
  proof (cases c)
    case (CSemaTryDown a)
    then show ?thesis using c sema_try_down_move [of a s _ _ L] by (auto elim!: give_bool_move)
  next
    case (CLockTryAcquire m)
    have "cur q = cur s" if "lock_try_acquire m s = Some (b, q)" for b q
      using that by (auto simp: lock_try_acquire_def sema_try_down_def ret_iff split: if_splits)
    then show ?thesis using c CLockTryAcquire lock_try_acquire_move [OF _ l] by (auto elim!: give_bool_move)
  next
    case (CLockInit m)
    then show ?thesis using c lock_init_move [OF _ _ l] by auto
  next
    case (CCondInit cv)
    then show ?thesis using c by (auto simp: cond_init_def ret_iff kmove_def lmove_def lview_def)
  next
    case (CCondWait cv m w)
    then obtain r where r: "kok r" "cur r = cur s" "idle_thread r = idle_thread s" "locks r = locks s"
      "sems r = (sems s)(w := \<lparr>sval = 0, waiters = []\<rparr>)" "lock_release m r = Some s'"
      using cond_wait_steps [of cv m w s s'] c k i by auto
    have v: "lview r n = lview s n" if "n \<in> L" for n using that r(4,5) CCondWait c(2) by (auto simp: lview_def)
    then have "lock_inv L r" using l by (simp add: lock_inv_def)
    then have "kmove L r s'" using lock_release_move [OF r(6,1)] r(2,3) i by simp
    then show ?thesis by (rule kmove_from_on) (use v r in simp_all)
  next
    case (CCreate x nm pri)
    then have "thread_create x nm pri NULL s = Some s'" "thr s x = None" using c by simp_all
    from this(1) k i this(2) show ?thesis
    proof (cases rule: thread_create_steps)
      case 1
      then show ?thesis by (simp add: kmove_same)
    next
      case (2 r)
      have v: "lview r = lview s" using 2 by (auto simp: fun_eq_iff lview_def)
      have "kmove L r s'" by (rule lock_acquire_move) (use 2 i l lock_inv_cong [OF v] in auto)
      then show ?thesis by (rule kmove_from) (use v 2 in auto)
    qed
  next
    case (CSetPriority p)
    then show ?thesis using c thread_set_priority_ok [of p s s'] k by (auto simp: kmove_def lmove_def lview_def)
  next
    case CYield
    then show ?thesis
      using c k thread_yield_ok [of s] by (auto simp: kok_def intro!: kmove_same dest: lview_frame)
  next
    case (CSleep n)
    then obtain d where "int64 (n + ticks s) = Some d"
      using c by (auto simp: timer_sleep_def timer_ticks_def ret_iff)
    from timer_sleep_ok [OF k i this] show ?thesis
      using CSleep c by (auto simp: kmove_def lmove_def lview_def)
  next
    case (CExit v)
    then obtain r where r: "prepare_thread_for_exit v s = Some r" "thread_exit r = Some s'"
      using c by (auto simp: ret_iff)
    have rr: "cur r = cur s" "idle_thread r = idle_thread s" "lview r = lview s"
      using r(1) by (auto simp: prepare_thread_for_exit_def ret_iff)
    have u: "sema_up (exited (cur s)) (push_kont (KExitKids NULL) r) = Some s'"
      using r(2) rr by (auto simp: thread_exit_def thread_current_def ret_iff)
    have "kmove L (push_kont (KExitKids NULL) r) s'"
      by (rule sema_up_move [OF u]) (use push_kont_kok [OF prepare_exit_kok [OF r(1) k]] rr i CExit c in auto)
    then show ?thesis by (rule kmove_from) (use rr in simp_all)
  qed (use c k i l in \<open>auto intro: sema_init_move sema_down_move sema_up_move lock_acquire_move lock_release_move
      cond_signal_move cond_broadcast_move\<close>)
qed

lemma process_exit_move:
  assumes "process_exit s = Some s'" "kok s" "exited (cur s) \<notin> L"
  shows "kmove L s s'"
proof -
  let ?r = "s\<lparr>user_proc := (user_proc s)(cur s := False)\<rparr>"
  have "sema_up (exited (cur s)) ?r = Some s'"
    using assms(1) by (auto simp: process_exit_def thread_current_def ret_iff Let_def)
  moreover have "kok ?r" using assms(2) kinv_user_proc by (simp add: kok_def)
  ultimately have "kmove L ?r s'" using assms(3) by (rule sema_up_move)
  then show ?thesis by (rule kmove_from) (simp_all add: lview_def fun_eq_iff)
qed

lemma elem_after_in: "elem_after e xs \<noteq> NULL \<Longrightarrow> elem_after e xs \<in> set xs"
proof (induction xs)
  case (Cons x xs)
  then show ?case by (cases xs) (simp_all split: if_splits)
qed simp

lemma exit_kids_move:
  assumes "exit_kids e s = Some s'" "kok s" "cur s \<noteq> idle_thread s" "cur_konts s = KExitKids e # ks"
    "resume_ok L (KExitKids e) s"
  shows "kmove L s s'"
proof -
  have p: "kok (pop_kont s)" by (rule pop_kont_kok [OF assms(2,3,4)])
  obtain t where t: "thr (pop_kont s) (cur s) = Some t"
    "if elem_after e (children_list t) \<noteq> NULL
     then sema_up (can_free (elem_after e (children_list t))) (push_kont (KExitKids (elem_after e (children_list t))) (pop_kont s)) = Some s'
     else process_exit (push_kont KExitWait (pop_kont s)) = Some s'"
    using assms(1) by (auto simp: exit_kids_def ret_iff Let_def split: if_splits)
  have k: "elem_after e (children_list t) \<in> kids s" if "elem_after e (children_list t) \<noteq> NULL"
    using elem_after_in [OF that] t(1) by (auto simp: kids_def pop_kont_def upd_def)
  have kp: "kok (push_kont (KExitKids x) (pop_kont s))" "kok (push_kont KExitWait (pop_kont s))" for x
    using push_kont_kok [OF p] assms(3) by simp_all
  show ?thesis
  proof (cases "elem_after e (children_list t) = NULL")
    case True
    then have "kmove L (push_kont KExitWait (pop_kont s)) s'"
      using process_exit_move [OF _ kp(2), of s' L] t(2) assms(5) by simp
    then show ?thesis by (rule kmove_from) simp_all
  next
    case False
    then have "sema_up (can_free (elem_after e (children_list t))) (push_kont (KExitKids (elem_after e (children_list t))) (pop_kont s)) = Some s'"
      using t(2) by simp
    then have "kmove L (push_kont (KExitKids (elem_after e (children_list t))) (pop_kont s)) s'"
      by (rule sema_up_move [OF _ kp(1)]) (use k [OF False] assms(5) in auto)
    then show ?thesis by (rule kmove_from) simp_all
  qed
qed

lemma resume_move:
  assumes k: "kok s" and c: "cur_konts s = k # ks" "resume_ok L k s" "resume k s = Some s'" and l: "lock_inv L s"
  shows "kmove L s s'"
proof (cases "NULL \<in> set (makes1 k)")
  case True
  then have "idle_loop s = Some s'" "cur s = idle_thread s"
    using boot_konts_idle [OF k c(1)] c(3) by auto
  then show ?thesis
    using idle_loop_ok [OF k] by (auto intro!: kmove_same dest: lview_frame)
next
  case False
  then have "k \<noteq> KIdleLoop" by (auto simp: makes1_def)
  then have i: "cur s \<noteq> idle_thread s" using cur_not_idle [OF k] c(1) by auto
  have p: "kok (pop_kont s)" by (rule pop_kont_kok [OF k i c(1)])
  have pl: "lock_inv L (pop_kont s)" using l lock_inv_cong [of "pop_kont s" s] by simp
  have pp: "cur (pop_kont s) \<noteq> idle_thread (pop_kont s)" using i by simp
  have from_pop: "kmove L s s'" if "kmove L (push_kont j (pop_kont s)) s' \<or> kmove L (pop_kont s) s'" for j
    using that by (auto elim!: kmove_from)
  have kp: "kok (push_kont j (pop_kont s))" if "plain j" for j by (rule push_kont_kok [OF p pp that])
  show ?thesis
  proof (cases k)
    case (KCondDown m w)
    then show ?thesis
      using c kp [of "KCondLock m"] sema_down_move [of w "push_kont (KCondLock m) (pop_kont s)" s' L] i
      by (intro from_pop [of "KCondLock m"]) (auto simp: resume_cond_down_def)
  next
    case (KCondLock m)
    then show ?thesis
      using c lock_acquire_move [OF _ p pp pl, of m] by (intro from_pop) (auto simp: resume_cond_lock_def)
  next
    case (KCondMore cv m)
    then show ?thesis
      using c cond_broadcast_move [OF _ p pp, of cv m s' L] by (intro from_pop) (auto simp: resume_cond_more_def)
  next
    case (KTid x aux)
    then obtain r where r: "kok r" "cur r = cur s" "idle_thread r = idle_thread s" "locks r = locks s" "sems r = sems s"
      "lock_release tid_lock r = Some s'"
      using allocate_tid_steps [of x aux s s' ks] c k i by auto
    have v: "lview r = lview s" using r by (auto simp: fun_eq_iff lview_def)
    have "kmove L r s'" by (rule lock_release_move) (use r i l lock_inv_cong [OF v] in auto)
    then show ?thesis by (rule kmove_from) (use v r in auto)
  next
    case (KCreate x aux j)
    then show ?thesis
    proof (intro kmove_same_on)
      have e: "(cur s' = cur s \<or> runs_highest s') \<and> locks s' = locks s \<and>
          (\<forall>a. a \<notin> {exited x, can_free x, load_done x} \<longrightarrow> sems s' a = sems s a)"
        using resume_create_ok [of x aux j s s' ks] KCreate c k i by auto
      then show "cur s' = cur s \<or> runs_highest s'" by simp
      show "lview s' m = lview s m" if "m \<in> L" for m
      proof -
        have "m \<notin> {exited x, can_free x, load_done x}" using that KCreate c(2) by auto
        then show ?thesis using e by (simp add: lview_def)
      qed
    qed
  next
    case KExitWait
    then show ?thesis
      using c kp [of KExitTail] sema_down_move [of "can_free (cur s)" "push_kont KExitTail (pop_kont s)" s' L] i
      by (intro from_pop [of KExitTail]) (auto simp: exit_wait_def)
  next
    case KExitTail
    then show ?thesis
      using exit_tail_ok [of s s' ks] c k i by (intro kmove_same_on) (auto simp: lview_def)
  qed (use c k i l False in \<open>auto simp: makes1_def kernel_thread_def resume_sleep_def intro: resume_sema_down_move
      resume_lock_down_move resume_lock_up_move exit_kids_move kmove_same\<close>)
qed

lemma kstep_move:
  assumes "kstep L s s'" "kok s" "lock_inv L s"
  shows "kmove L s s'"
  using assms(1)
proof (cases rule: kstep.cases)
  case (call c)
  then show ?thesis by (rule call_move [OF assms(2) _ _ _ assms(3)])
next
  case (resume k ks)
  then show ?thesis by (rule resume_move [OF assms(2) _ _ _ assms(3)])
next
  case tick
  then show ?thesis
    using timer_intr_ok [OF assms(2)] by (intro kmove_same) (auto simp: lview_def fun_eq_iff)
qed

end
