(* ===== verification/Boot.thy ===== *)
theory Boot
  imports Kernel_Steps
begin

text \<open>
  The start of the thread system, \<open>thread_init\<close> and \<open>thread_start\<close>, runs to its end and leaves a
  state that satisfies the invariant. With the lemmas of \<open>Kernel_Steps\<close> the invariant holds in
  every state the kernel reaches, which is what the properties of the scheduler, the locks and
  the timer rest on.
\<close>

section \<open>Running the start\<close>

lemma cpu_NULL [simp]: "compare_priority_and_update NULL p s = Some s"
  by (simp add: compare_priority_and_update.simps)

lemmas op_defs = thread_current_def is_thread_def upd_def eff_def Let_def
  sema_init_def set_sema_def lock_init_def set_lock_def init_thread_def blank_thread_def lock_acquire_def lock_held_by_current_thread_def
  push_kont_def pop_kont_def resume_lock_down_def sema_down_iter_def lock_acquired_def lock_release_def sema_up_def
  sema_wake_def thread_yield_if_necessery_def get_highest_priority_def resume_lock_up_def calculate_priority_and_yield_def
  PRI_DEFAULT_def PRI_MIN_def PRI_MAX_def thread_create_def resume_create_def create_setup_def
  alloc_frame_def start_konts_def thread_unblock_def sema_down_def resume_sema_down_def thread_block_def schedule_def
  thread_schedule_tail_def next_thread_to_run_def get_and_remove_next_thread_def pick_max_def thread_yield_def
  INITIAL_FD_COUNT_def

definition fresh_thread :: "addr \<Rightarrow> byte list \<Rightarrow> int \<Rightarrow> thread" where
  "fresh_thread x nm pri = blank_thread\<lparr>status := THREAD_BLOCKED, tname := take 15 nm, stack_p := x + 4096,
     priority := pri, effective_priority := pri\<rparr>"

definition booted0 :: "addr \<Rightarrow> kstate \<Rightarrow> kstate" where
  "booted0 m s = s\<lparr>ready_list := [], cur := m, initial_thread := m, all_list := [m], next_tid := next_tid s + 1,
     sems := (sems s)(tid_lock := \<lparr>sval = 1, waiters = []\<rparr>),
     locks := (locks s)(tid_lock := \<lparr>holder = NULL, linked_in = NULL\<rparr>),
     thr := [m \<mapsto> (fresh_thread m name_main PRI_DEFAULT)\<lparr>tid := next_tid s, status := THREAD_RUNNING\<rparr>]\<rparr>"

lemma thread_init_result:
  assumes "m \<noteq> NULL" "thr s = (\<lambda>_. None)" "\<not> in_external_intr s" "tid_lock \<noteq> NULL"
  shows "thread_init m s = Some (booted0 m s)"
  using assms unfolding thread_init_def
  by (simp add: op_defs booted0_def fresh_thread_def)

definition two :: "kstate \<Rightarrow> addr \<Rightarrow> addr \<Rightarrow> thread \<Rightarrow> thread \<Rightarrow> (addr \<Rightarrow> semaphore) \<Rightarrow> (addr \<Rightarrow> lock) \<Rightarrow> addr \<Rightarrow> addr \<Rightarrow> int \<Rightarrow> nat \<Rightarrow> kstate" where
  "two s m i M I sm lk c idl nt tt = s\<lparr>thr := [m \<mapsto> M, i \<mapsto> I], ready_list := [], all_list := [m, i], cur := c,
     idle_thread := idl, initial_thread := m, next_tid := nt, sems := sm, locks := lk, thread_ticks := tt\<rparr>"

definition main_t :: "addr \<Rightarrow> int \<Rightarrow> thread" where
  "main_t m nt = (fresh_thread m name_main PRI_DEFAULT)\<lparr>tid := nt, status := THREAD_RUNNING\<rparr>"

definition idle_t :: "addr \<Rightarrow> addr \<Rightarrow> int \<Rightarrow> thread" where
  "idle_t m i nt = (fresh_thread i name_idle PRI_MIN)\<lparr>tid := nt + 1, stack_p := i + 4096 - 12 - 4 - 28, parent_tid := nt,
     child_of := m, exit_value := -1, fd_counter := 2\<rparr>"

definition boot_places :: "addr \<Rightarrow> addr \<Rightarrow> addr \<Rightarrow> bool" where
  "boot_places m i a = (m \<noteq> NULL \<and> i \<noteq> NULL \<and> a \<noteq> NULL \<and> m \<noteq> i \<and> i \<noteq> m \<and> a \<noteq> tid_lock \<and> tid_lock \<noteq> a \<and> tid_lock \<noteq> NULL)"

lemma thread_start_result:
  assumes "boot_places m i a" "\<not> in_external_intr s"
  shows "thread_start a i (booted0 m s) = Some (two s m i
    ((main_t m (next_tid s))\<lparr>holding_locks_list := [tid_lock], konts := [KTid i a, KStart a]\<rparr>)
    (fresh_thread i name_idle PRI_MIN)
    ((sems s)(a := \<lparr>sval = 0, waiters = []\<rparr>, tid_lock := \<lparr>sval = 0, waiters = []\<rparr>))
    ((locks s)(tid_lock := \<lparr>holder = m, linked_in = m\<rparr>)) m (idle_thread s) (next_tid s + 1) (thread_ticks s))"
  using assms unfolding thread_start_def booted0_def boot_places_def
  by (simp add: op_defs fresh_thread_def two_def main_t_def fun_upd_twist)

lemma boot_alloc:
  assumes "boot_places m i a" "\<not> in_external_intr s"
  shows "allocate_tid i a (two s m i
    ((main_t m n)\<lparr>holding_locks_list := [tid_lock], konts := [KTid i a, KStart a]\<rparr>) I
    (sm(tid_lock := \<lparr>sval = 0, waiters = []\<rparr>)) (lk(tid_lock := \<lparr>holder = m, linked_in = m\<rparr>)) m idl nt tt) =
   Some (two s m i
    ((main_t m n)\<lparr>holding_locks_list := [tid_lock], konts := [KLockUp tid_lock, KCreate i a nt, KStart a]\<rparr>) I
    (sm(tid_lock := \<lparr>sval = 1, waiters = []\<rparr>)) (lk(tid_lock := \<lparr>holder = NULL, linked_in = m\<rparr>)) m idl (nt + 1) tt)"
  using assms unfolding allocate_tid_def boot_places_def
  by (simp add: op_defs fresh_thread_def two_def main_t_def fun_upd_twist)

lemma boot_lock_up:
  assumes "boot_places m i a" "\<not> in_external_intr s"
  shows "resume_lock_up tid_lock (two s m i
    ((main_t m n)\<lparr>holding_locks_list := [tid_lock], konts := [KLockUp tid_lock, KCreate i a nt, KStart a]\<rparr>) I
    sm (lk(tid_lock := \<lparr>holder = NULL, linked_in = m\<rparr>)) m idl nx tt) =
   Some (two s m i ((main_t m n)\<lparr>konts := [KCreate i a nt, KStart a]\<rparr>) I
    sm (lk(tid_lock := \<lparr>holder = NULL, linked_in = NULL\<rparr>)) m idl nx tt)"
  using assms unfolding boot_places_def
  by (simp add: op_defs fresh_thread_def two_def main_t_def fun_upd_twist)

lemma boot_create:
  assumes "boot_places m i a" "\<not> in_external_intr s"
  shows "resume_create i a (n + 1) (two s m i ((main_t m n)\<lparr>konts := [KCreate i a nt, KStart a]\<rparr>)
    (fresh_thread i name_idle PRI_MIN) sm lk m idl nx tt) =
   Some ((two s m i ((main_t m n)\<lparr>children_list := [i], retval := n + 1, konts := [KStart a]\<rparr>)
    ((idle_t m i n)\<lparr>status := THREAD_READY, konts := [KNew, KIdle a]\<rparr>)
    (sm(exited i := \<lparr>sval = 0, waiters = []\<rparr>, can_free i := \<lparr>sval = 0, waiters = []\<rparr>, load_done i := \<lparr>sval = 0, waiters = []\<rparr>))
    lk m idl nx tt)\<lparr>ready_list := [i]\<rparr>)"
  using assms unfolding boot_places_def
  by (simp add: op_defs fresh_thread_def two_def main_t_def idle_t_def fun_upd_twist exited_def can_free_def load_done_def)

lemma boot_wait:
  assumes "boot_places m i a" "\<not> in_external_intr s" "sm a = \<lparr>sval = 0, waiters = []\<rparr>"
  shows "resume_start a ((two s m i ((main_t m n)\<lparr>children_list := [i], retval := n + 1, konts := [KStart a]\<rparr>)
    ((idle_t m i n)\<lparr>status := THREAD_READY, konts := [KNew, KIdle a]\<rparr>) sm lk m idl nx tt)\<lparr>ready_list := [i]\<rparr>) =
   Some (two s m i ((main_t m n)\<lparr>status := THREAD_BLOCKED, children_list := [i], retval := n + 1, konts := [KSemaDown a]\<rparr>)
    ((idle_t m i n)\<lparr>status := THREAD_RUNNING, konts := [KNew, KIdle a]\<rparr>) (sm(a := \<lparr>sval = 0, waiters = [m]\<rparr>)) lk i idl nx 0)"
  using assms unfolding boot_places_def resume_start_def
  by (simp add: op_defs fresh_thread_def two_def main_t_def idle_t_def fun_upd_twist)

lemma boot_idle:
  assumes "boot_places m i a" "\<not> in_external_intr s"
  shows "idle a (two s m i ((main_t m n)\<lparr>status := THREAD_BLOCKED, children_list := [i], retval := n + 1, konts := [KSemaDown a]\<rparr>)
    ((idle_t m i n)\<lparr>status := THREAD_RUNNING, konts := [KIdle a]\<rparr>) (sm(a := \<lparr>sval = 0, waiters = [m]\<rparr>)) lk i idl nx 0) =
   Some (two s m i ((main_t m n)\<lparr>children_list := [i], retval := n + 1, konts := [KSemaDown a]\<rparr>)
    ((idle_t m i n)\<lparr>status := THREAD_READY, konts := [KIdleLoop]\<rparr>) (sm(a := \<lparr>sval = 1, waiters = []\<rparr>)) lk m i nx 0)"
  using assms unfolding boot_places_def idle_def
  by (simp add: op_defs fresh_thread_def two_def main_t_def idle_t_def fun_upd_twist)

lemma boot_done:
  assumes "boot_places m i a" "\<not> in_external_intr s"
  shows "resume_sema_down a (two s m i ((main_t m n)\<lparr>children_list := [i], retval := n + 1, konts := [KSemaDown a]\<rparr>)
    I (sm(a := \<lparr>sval = 1, waiters = []\<rparr>)) lk m idl nx tt) =
   Some (two s m i ((main_t m n)\<lparr>children_list := [i], retval := n + 1\<rparr>)
    I (sm(a := \<lparr>sval = 0, waiters = []\<rparr>)) lk m idl nx tt)"
  using assms unfolding boot_places_def
  by (simp add: op_defs fresh_thread_def two_def main_t_def fun_upd_twist)

definition booted :: "addr \<Rightarrow> addr \<Rightarrow> addr \<Rightarrow> kstate \<Rightarrow> kstate" where
  "booted m i a s = two s m i ((main_t m (next_tid s))\<lparr>children_list := [i], retval := next_tid s + 1\<rparr>)
    ((idle_t m i (next_tid s))\<lparr>status := THREAD_READY, konts := [KIdleLoop]\<rparr>)
    ((sems s)(tid_lock := \<lparr>sval = 1, waiters = []\<rparr>,
      exited i := \<lparr>sval = 0, waiters = []\<rparr>, can_free i := \<lparr>sval = 0, waiters = []\<rparr>, load_done i := \<lparr>sval = 0, waiters = []\<rparr>,
      a := \<lparr>sval = 0, waiters = []\<rparr>))
    ((locks s)(tid_lock := \<lparr>holder = NULL, linked_in = NULL\<rparr>)) m i (next_tid s + 2) 0"

lemma run_7:
  assumes "resume k1 s1 = Some s2" "resume k2 s2 = Some s3" "resume k3 s3 = Some s4" "resume k4 s4 = Some s5"
      "resume k5 s5 = Some s6" "resume k6 s6 = Some s7" "resume k7 s7 = Some s8"
    and "cur_konts s1 = k1 # l1" "cur_konts s2 = k2 # l2" "cur_konts s3 = k3 # l3" "cur_konts s4 = k4 # l4"
      "cur_konts s5 = k5 # l5" "cur_konts s6 = k6 # l6" "cur_konts s7 = k7 # l7"
  shows "run 7 s1 = Some s8"
  using assms by (simp add: numeral_eq_Suc)

lemma cur_konts_two [simp]:
  "m \<noteq> i \<Longrightarrow> cur_konts (two s m i M I sm lk m idl nt tt) = konts M"
  "cur_konts (two s m i M I sm lk i idl nt tt) = konts I"
  "m \<noteq> i \<Longrightarrow> cur_konts ((two s m i M I sm lk m idl nt tt)\<lparr>ready_list := rl\<rparr>) = konts M"
  by (simp_all add: cur_konts_def two_def)

lemma kernel_thread_two:
  "m \<noteq> i \<Longrightarrow> kernel_thread (two s m i M I sm lk i idl nt tt) = Some (two s m i M (I\<lparr>konts := tl (konts I)\<rparr>) sm lk i idl nt tt)"
  by (simp add: kernel_thread_def pop_kont_def upd_def two_def)

lemma boot_result:
  assumes p: "boot_places m i a" and x: "\<not> in_external_intr s" "thr s = (\<lambda>_. None)"
      and a: "a \<noteq> exited i" "a \<noteq> can_free i" "a \<noteq> load_done i"
  shows "boot m i a s = Some (booted m i a s)"
proof -
  note P = p [unfolded boot_places_def]
  let ?n = "next_tid s"
  let ?z = "\<lparr>sval = 0, waiters = []\<rparr>"
  define sm where "sm = (sems s)(a := ?z, tid_lock := \<lparr>sval = 1, waiters = []\<rparr>)"
  define lk where "lk = (locks s)(tid_lock := \<lparr>holder = NULL, linked_in = NULL\<rparr>)"
  define sn where "sn = sm(exited i := ?z, can_free i := ?z, load_done i := ?z)"
  have sa: "sn a = ?z" using a P by (simp add: sn_def sm_def)
  note alloc = boot_alloc [OF p x(1), of ?n "fresh_thread i name_idle PRI_MIN" "(sems s)(a := ?z)" "locks s" "idle_thread s" "?n + 1" "thread_ticks s", folded sm_def resume.simps]
  note up = boot_lock_up [OF p x(1), of "?n + 1" ?n "fresh_thread i name_idle PRI_MIN" sm "locks s" "idle_thread s" "?n + 1 + 1" "thread_ticks s", folded lk_def resume.simps]
  note crt = boot_create [OF p x(1), of ?n "?n + 1" sm lk "idle_thread s" "?n + 1 + 1" "thread_ticks s", folded sn_def resume.simps]
  note wt = boot_wait [where sm = sn, OF p x(1) sa, of ?n lk "idle_thread s" "?n + 1 + 1" "thread_ticks s", folded resume.simps]
  note idl = boot_idle [OF p x(1), of ?n sn lk "idle_thread s" "?n + 1 + 1", folded resume.simps]
  note dn = boot_done [OF p x(1), of ?n "(idle_t m i ?n)\<lparr>status := THREAD_READY, konts := [KIdleLoop]\<rparr>" sn lk i "?n + 1 + 1" 0, folded resume.simps]
  have "boot m i a s = run 7 (two s m i
    ((main_t m ?n)\<lparr>holding_locks_list := [tid_lock], konts := [KTid i a, KStart a]\<rparr>) (fresh_thread i name_idle PRI_MIN)
    ((sems s)(a := ?z, tid_lock := \<lparr>sval = 0, waiters = []\<rparr>))
    ((locks s)(tid_lock := \<lparr>holder = m, linked_in = m\<rparr>)) m (idle_thread s) (?n + 1) (thread_ticks s))"
    using thread_init_result [of m s] thread_start_result [OF p x(1)] P x by (simp add: boot_def)
  also have "\<dots> = Some (two s m i ((main_t m ?n)\<lparr>children_list := [i], retval := ?n + 1\<rparr>) ((idle_t m i ?n)\<lparr>status := THREAD_READY, konts := [KIdleLoop]\<rparr>)
      (sn(a := ?z)) lk m i (?n + 1 + 1) 0)"
    by (rule run_7 [OF alloc up crt wt _ idl dn]) (use P in \<open>simp_all add: kernel_thread_two\<close>)
  also have "\<dots> = Some (booted m i a s)"
  proof -
    have "sn(a := ?z) = (sems s)(tid_lock := \<lparr>sval = 1, waiters = []\<rparr>, exited i := ?z, can_free i := ?z,
        load_done i := ?z, a := ?z)"
      by (rule ext) (simp add: sn_def sm_def)
    then show ?thesis by (simp add: booted_def lk_def add.commute)
  qed
  finally show ?thesis .
qed

section \<open>The invariant of the reachable states\<close>

lemma kok_booted:
  assumes p: "boot_places m i a" and b: "before_start L s"
  shows "kok (booted m i a s)"
proof -
  note P = p [unfolded boot_places_def]
  define th where "th = thr (booted m i a s)"
  have th: "th x = (if x = i then Some ((idle_t m i (next_tid s))\<lparr>status := THREAD_READY, konts := [KIdleLoop]\<rparr>)
      else if x = m then Some ((main_t m (next_tid s))\<lparr>children_list := [i], retval := next_tid s + 1\<rparr>) else None)" for x
    by (simp add: th_def booted_def two_def)
  have w: "waiters (sems (booted m i a s) x) = []" for x
    using b by (simp add: booted_def two_def before_start_def)
  have k: "konts (main_t m n) = []" "status (main_t m n) = THREAD_RUNNING" "priority (main_t m n) = effective_priority (main_t m n)"
    "priority (idle_t m i n) = effective_priority (idle_t m i n)" for n
    by (simp_all add: main_t_def idle_t_def fresh_thread_def blank_thread_def)
  have sl: "sleep_threads_list (booted m i a s) = []" "ready_list (booted m i a s) = []" "idle_thread (booted m i a s) = i"
    "cur (booted m i a s) = m" "\<not> in_external_intr (booted m i a s)"
    using b by (simp_all add: booted_def two_def before_start_def)
  have m: "makes [KIdleLoop] = [NULL]" by (simp add: makes.simps(2) makes1_def)
  have "core th [] i (\<lambda>_. []) []"
  proof (rule coreI)
    show "th NULL = None" using P by (simp add: th)
    show "c_ready th [] i" using P k by (auto simp: c_ready_def th split: if_splits)
    show "c_wait th (\<lambda>_. [])" using k by (auto simp: c_wait_def th split: if_splits)
    show "c_sleep th []" using k by (auto simp: c_sleep_def th split: if_splits)
    show "c_idle th i" by (simp add: c_idle_def th)
    show "c_make th i" using k by (auto simp: c_make_def th m split: if_splits)
    show "c_prio th" using k by (auto simp: c_prio_def th split: if_splits)
    show "c_rest th i" using k by (auto simp: c_rest_def th split: if_splits)
  qed
  then have "kcore (booted m i a s)" by (simp add: kcore_def w sl th_def)
  moreover have "one_running (booted m i a s)"
    using P k by (auto simp: one_running_def sl th_def [symmetric] th split: if_splits)
  ultimately show ?thesis by (simp add: kok_def kinv_def sl)
qed

lemma places_okD:
  assumes "places_ok L m i a"
  shows "boot_places m i a" "a \<noteq> exited i" "a \<noteq> can_free i" "a \<noteq> load_done i"
  using assms by (auto simp: places_ok_def boot_places_def tid_lock_def)

lemma lock_inv_booted:
  assumes "places_ok L m i a" "before_start L s"
  shows "lock_inv L (booted m i a s)"
  unfolding lock_inv_def
proof
  fix l assume l: "l \<in> L"
  then have n: "l \<noteq> a" "l \<noteq> exited i" "l \<noteq> can_free i" "l \<noteq> load_done i" using assms(1) by (auto simp: places_ok_def)
  show "lview (booted m i a s) l = (1, NULL) \<or> (\<exists>x. x \<noteq> NULL \<and> lview (booted m i a s) l = (0, x))"
    using assms(2) l n by (simp add: lview_def booted_def two_def before_start_def)
qed

lemma reach_inv:
  assumes "reach L s"
  shows "kok s \<and> lock_inv L s"
  using assms
proof induction
  case (start s0 m i a s)
  have "s = booted m i a s0"
    using boot_result [of m i a s0] places_okD [OF start(2)] start by (simp add: before_start_def)
  then show ?case
    using kok_booted [OF places_okD(1) [OF start(2)] start(1)] lock_inv_booted [OF start(2,1)] by simp
next
  case (step s s')
  then have "kmove L s s'" using kstep_move by blast
  moreover have "cur s \<noteq> NULL" using kinv_current [of s] step.IH by (auto simp: kok_def)
  ultimately show ?case using kstep_kok [OF step.hyps(2)] step.IH lmove_inv by (auto simp: kmove_def)
qed

text \<open>A concrete start: the kernel's memory is zero, and three locks have been initialised.\<close>

definition zero_state :: kstate where
  "zero_state = \<lparr>thr = (\<lambda>_. None), ready_list = [], all_list = [], cur = 0, idle_thread = 0, initial_thread = 0,
     next_tid = 1, sems = (\<lambda>a. \<lparr>sval = (if a \<in> {8, 24, 32} then 1 else 0), waiters = []\<rparr>),
     locks = (\<lambda>_. \<lparr>holder = NULL, linked_in = NULL\<rparr>), conds = (\<lambda>_. []),
     sleep_threads_list = [], ticks = 0, idle_ticks = 0, kernel_ticks = 0, user_ticks = 0, thread_ticks = 0,
     in_external_intr = False, yield_on_return = False, user_proc = (\<lambda>_. False)\<rparr>"

abbreviation demo_locks :: "addr set" where "demo_locks \<equiv> {8, 24, 32}"

lemma demo_start: "before_start demo_locks zero_state" "places_ok demo_locks 4096 8192 16"
  by (auto simp: before_start_def zero_state_def places_ok_def tid_lock_def exited_def can_free_def load_done_def)

definition demo_state :: kstate where "demo_state = booted 4096 8192 16 zero_state"

lemma demo_reach: "reach demo_locks demo_state"
  unfolding demo_state_def
  by (rule reach.start [OF demo_start], rule boot_result)
    (use places_okD [OF demo_start(2)] in \<open>auto simp: zero_state_def\<close>)

section \<open>Properties of every execution\<close>

text \<open>
  C1: No thread is ever lost. In every reachable state each live thread is exactly where its status
  says: the running thread is \<open>cur\<close>, the ready threads other than the idle thread are in the run
  queue once, a blocked thread is in the queue of the one semaphore it waits for, in the list of
  sleepers, or is the idle thread or a thread still being created; and no thread is in a queue
  otherwise.
\<close>

theorem no_thread_lost:
  assumes "reach L s" "thr s x = Some t"
  shows "(status t = THREAD_RUNNING \<longleftrightarrow> x = cur s) \<and>
    (x \<in> set (ready_list s) \<longleftrightarrow> status t = THREAD_READY \<and> x \<noteq> idle_thread s) \<and>
    (\<forall>a. x \<in> set (waiters (sems s a)) \<longleftrightarrow> status t = THREAD_BLOCKED \<and> waits_on t = Some a) \<and>
    (x \<in> set (sleep_threads_list s) \<longleftrightarrow> status t = THREAD_BLOCKED \<and> sleeping t) \<and>
    (status t = THREAD_BLOCKED \<longrightarrow> x = idle_thread s \<or> (\<exists>a. x \<in> set (waiters (sems s a))) \<or>
       x \<in> set (sleep_threads_list s) \<or> konts t = []) \<and>
    distinct (ready_list s) \<and> distinct (sleep_threads_list s) \<and> (\<forall>a. distinct (waiters (sems s a)))"
proof -
  have k: "kinv s" using reach_inv [OF assms(1)] by (simp add: kok_def)
  note C = coreD [OF kinv_core [OF k]]
  have "status t = THREAD_RUNNING \<longleftrightarrow> x = cur s"
    using kinv_running [OF k assms(2)] kinv_cur_status [OF k] assms(2) by auto
  moreover have "x \<in> set (ready_list s) \<longleftrightarrow> status t = THREAD_READY \<and> x \<noteq> idle_thread s" "distinct (ready_list s)"
    using C(2) assms(2) by (auto simp: c_ready_def)
  moreover have w: "x \<in> set (waiters (sems s a)) \<longleftrightarrow> status t = THREAD_BLOCKED \<and> waits_on t = Some a"
    "distinct (waiters (sems s a))" for a
    using C(3) assms(2) by (auto simp: c_wait_def)
  moreover have sl: "x \<in> set (sleep_threads_list s) \<longleftrightarrow> status t = THREAD_BLOCKED \<and> sleeping t"
    "distinct (sleep_threads_list s)"
    using C(4) assms(2) by (auto simp: c_sleep_def)
  moreover have "x = idle_thread s \<or> (\<exists>a. x \<in> set (waiters (sems s a))) \<or> x \<in> set (sleep_threads_list s) \<or> konts t = []"
    if "status t = THREAD_BLOCKED"
    using C(8) assms(2) that w(1) sl(1) unfolding c_rest_def by blast
  ultimately show ?thesis by blast
qed

lemma demo_thr:
  "thr demo_state 4096 = Some ((main_t 4096 1)\<lparr>children_list := [8192], retval := 2\<rparr>)"
  "thr demo_state 8192 = Some ((idle_t 4096 8192 1)\<lparr>status := THREAD_READY, konts := [KIdleLoop]\<rparr>)"
  "cur demo_state = 4096" "idle_thread demo_state = 8192" "ready_list demo_state = []" "ticks demo_state = 0"
  "sleep_threads_list demo_state = []" "cur_konts demo_state = []" "\<not> in_external_intr demo_state"
  "locks demo_state = (\<lambda>_. \<lparr>holder = NULL, linked_in = NULL\<rparr>)"
  by (simp_all add: demo_state_def booted_def two_def zero_state_def cur_konts_def main_t_def fresh_thread_def
      blank_thread_def fun_eq_iff)

theorem no_thread_lost_witness:
  "reach demo_locks demo_state \<and> (\<exists>t. thr demo_state 4096 = Some t \<and> status t = THREAD_RUNNING \<and>
     4096 \<notin> set (ready_list demo_state))"
  using demo_reach no_thread_lost [OF demo_reach demo_thr(1)] by (simp add: demo_thr)


lemma demo_acquire:
  "\<exists>s'. kstep demo_locks demo_state s' \<and> holder (locks s' 24) = 4096"
proof -
  have t: "status (main_t 4096 1) = THREAD_RUNNING" by (simp add: main_t_def)
  have "\<exists>s'. kcall_run (CLockAcquire 24) demo_state = Some s' \<and> holder (locks s' 24) = 4096"
    using demo_thr
    by (simp add: op_defs demo_state_def booted_def two_def zero_state_def main_t_def fresh_thread_def tid_lock_def
      exited_def can_free_def load_done_def)
  then obtain s' where s': "kcall_run (CLockAcquire 24) demo_state = Some s'" "holder (locks s' 24) = 4096" by blast
  have "kstep demo_locks demo_state s'"
    by (rule kstep.call [OF demo_thr(8) _ s'(1)]) simp
  then show ?thesis using s'(2) by blast
qed


text \<open>
  C3: Priority scheduling. Whenever a step of an execution changes the running thread, the new one has
  the highest effective priority among the threads that are ready.
\<close>

theorem scheduler_runs_highest:
  assumes "reach L s" "kstep L s s'" "cur s' \<noteq> cur s" "x \<in> set (ready_list s')"
  shows "eff s' x \<le> eff s' (cur s')"
  using kstep_move [OF assms(2)] reach_inv [OF assms(1)] assms(3,4) by (auto simp: kmove_def runs_highest_def)

text \<open>
  C4: The timer never fails and nobody oversleeps. In every reachable state in which interrupts are on,
  the interrupt of the timer is handled without a failed assertion, and after it every thread whose
  time has come is ready or running; those still asleep are not due.
\<close>

theorem timer_wakes_sleepers:
  assumes "reach L s" "preemptible (cur_konts s)"
  shows "\<exists>s'. kstep L s s' \<and> intr_handler timer_table 0x20 s = Some s' \<and> ticks s' = ticks s + 1 \<and>
    (\<forall>x\<in>set (sleep_threads_list s). tgt (thr s) x \<le> ticks s' \<longrightarrow> runnable s' x) \<and>
    (\<forall>x\<in>set (sleep_threads_list s'). tgt (thr s') x > ticks s')"
proof -
  have "kok s" using reach_inv [OF assms(1)] by simp
  then obtain s' where s': "intr_handler timer_table 0x20 s = Some s'" "ticks s' = ticks s + 1"
    "\<forall>x\<in>set (sleep_threads_list s). tgt (thr s) x \<le> ticks s + 1 \<longrightarrow> runnable s' x"
    "\<forall>x\<in>set (sleep_threads_list s'). tgt (thr s') x > ticks s'"
    using timer_intr_ok by blast
  have "kstep L s s'" by (rule kstep.tick [OF assms(2) s'(1)])
  then show ?thesis using s' by auto
qed

end
