(* ===== verification/Races.thy ===== *)
theory Races
  imports Boot
begin

text \<open>
  Concrete executions of the kernel, as witnesses and as examples of what goes wrong, and the
  properties of wake-ups and of priority donation.
\<close>

section \<open>Executing a list of steps\<close>

datatype kmove_kind = MCall kcall | MResume | MTick

fun kmove_run :: "kmove_kind \<Rightarrow> kstate \<Rightarrow> kstate option" where
  "kmove_run (MCall c) s = kcall_run c s"
| "kmove_run MResume s = (case cur_konts s of [] \<Rightarrow> None | k # _ \<Rightarrow> resume k s)"
| "kmove_run MTick s = intr_handler timer_table 0x20 s"

fun kmove_ok :: "addr set \<Rightarrow> kmove_kind \<Rightarrow> kstate \<Rightarrow> bool" where
  "kmove_ok L (MCall c) s = (cur_konts s = [] \<and> call_ok L c s)"
| "kmove_ok L MResume s = (case cur_konts s of [] \<Rightarrow> False | k # _ \<Rightarrow> resume_ok L k s)"
| "kmove_ok L MTick s = preemptible (cur_konts s)"

fun drive :: "addr set \<Rightarrow> kmove_kind list \<Rightarrow> kstate \<Rightarrow> kstate option" where
  "drive L [] s = Some s"
| "drive L (m # ms) s = (if kmove_ok L m s then kmove_run m s \<bind> drive L ms else None)"

lemmas run_defs = kernel_thread_def resume_create_def create_setup_def allocate_tid_def timer_sleep_def resume_sleep_def
  thread_push_block_def cmp_target_ticks_def int64_def timer_ticks_def cur_konts_def kids_def no_waiter_def
  intr_handler_def timer_table_def timer_interrupt_def thread_tick_def thread_pop_unblock_def TIME_SLICE_def
  exited_def can_free_def load_done_def tid_lock_def intr_yield_on_return_def thread_priority_less_function_def

lemma drive_reach: "drive L ms s = Some s' \<Longrightarrow> reach L s \<Longrightarrow> reach L s'"
proof (induction ms arbitrary: s)
  case (Cons m ms)
  then obtain r where r: "kmove_ok L m s" "kmove_run m s = Some r" "drive L ms r = Some s'"
    by (auto simp: ret_iff split: if_splits)
  have "kstep L s r"
  proof (cases m)
    case (MCall c)
    then show ?thesis using r by (auto intro: kstep.call)
  next
    case MResume
    then show ?thesis using r by (auto intro: kstep.resume split: list.splits)
  next
    case MTick
    then show ?thesis using r by (auto intro: kstep.tick)
  qed
  then show ?case using Cons.IH [OF r(3)] Cons.prems(2) reach.step by blast
qed simp

text \<open>
  The main thread creates a thread of higher priority, which goes to sleep for one tick; the main
  thread takes a lock, the timer wakes the sleeper, the main thread releases the lock.
\<close>

definition race_moves :: "kmove_kind list" where
  "race_moves = [MCall (CCreate 12288 [] 40), MResume, MResume, MResume, MResume, MCall (CSleep 1),
     MCall (CLockAcquire 24), MTick, MCall (CLockRelease 24), MResume]"

lemmas demo_defs = op_defs run_defs demo_state_def booted_def two_def zero_state_def main_t_def idle_t_def fresh_thread_def

lemma race_state:
  "\<exists>s. drive demo_locks race_moves demo_state = Some s \<and> cur s = 12288 \<and> cur_konts s = [] \<and>
     locks s 24 = \<lparr>holder = NULL, linked_in = 4096\<rparr> \<and> sval (sems s 24) = 1 \<and> waiters (sems s 24) = [] \<and>
     kcall_run (CLockAcquire 24) s = None"
  by (simp add: race_moves_def demo_defs)


text \<open>The state after the tick: a thread of higher priority is ready and the other one runs on.\<close>

lemma tick_state:
  "\<exists>s. drive demo_locks (take 7 race_moves) demo_state = Some s \<and> cur s = 4096 \<and> cur_konts s = [] \<and>
     sleep_threads_list s = [12288] \<and> tgt (thr s) 12288 = 1 \<and> ticks s = 0"
  by (simp add: race_moves_def demo_defs tgt_def)

theorem timer_wakes_sleepers_witness:
  "\<exists>s s'. reach demo_locks s \<and> preemptible (cur_konts s) \<and> kstep demo_locks s s' \<and>
     12288 \<in> set (sleep_threads_list s) \<and> runnable s' 12288"
proof -
  obtain s where s: "drive demo_locks (take 7 race_moves) demo_state = Some s" "cur_konts s = []"
      "sleep_threads_list s = [12288]" "tgt (thr s) 12288 = 1" "ticks s = 0"
    using tick_state by blast
  have r: "reach demo_locks s" by (rule drive_reach [OF s(1) demo_reach])
  then show ?thesis using timer_wakes_sleepers [OF r] s by fastforce
qed

text \<open>
  C9: A woken sleeper of higher priority waits for the end of the time slice: there is a reachable state in
  which the running thread can go on although a ready thread has a higher effective priority.
\<close>

theorem timer_no_preemption:
  "\<exists>s s' x. reach demo_locks s \<and> intr_handler timer_table 0x20 s = Some s' \<and> reach demo_locks s' \<and> cur s' = cur s \<and>
     x \<in> set (ready_list s') \<and> eff s' (cur s') < eff s' x"
proof -
  have "\<exists>s s'. drive demo_locks (take 7 race_moves) demo_state = Some s \<and> intr_handler timer_table 0x20 s = Some s' \<and>
      drive demo_locks (take 8 race_moves) demo_state = Some s' \<and> cur s = 4096 \<and> cur s' = 4096 \<and>
      ready_list s' = [12288] \<and> eff s' 4096 = 31 \<and> eff s' 12288 = 40"
    by (simp add: race_moves_def demo_defs)
  then show ?thesis using drive_reach [OF _ demo_reach] by fastforce
qed

lemma switch_state:
  "\<exists>s s'. drive demo_locks (take 3 race_moves) demo_state = Some s \<and> drive demo_locks (take 4 race_moves) demo_state = Some s' \<and>
     cur_konts s = [KCreate 12288 NULL 3] \<and> kmove_ok demo_locks MResume s \<and> kmove_run MResume s = Some s' \<and>
     cur s = 4096 \<and> cur s' = 12288 \<and> ready_list s' = [4096]"
  by (simp add: race_moves_def demo_defs)

theorem scheduler_runs_highest_witness:
  "\<exists>s s'. reach demo_locks s \<and> kstep demo_locks s s' \<and> cur s' \<noteq> cur s \<and> 4096 \<in> set (ready_list s') \<and>
     eff s' 4096 \<le> eff s' (cur s')"
proof -
  obtain s s' where s: "drive demo_locks (take 3 race_moves) demo_state = Some s" "cur_konts s = [KCreate 12288 NULL 3]"
      "kmove_ok demo_locks MResume s" "kmove_run MResume s = Some s'" "cur s = 4096" "cur s' = 12288" "ready_list s' = [4096]"
    using switch_state by blast
  have r: "reach demo_locks s" by (rule drive_reach [OF s(1) demo_reach])
  have "kstep demo_locks s s'"
    by (rule kstep.resume [OF s(2)]) (use s(2-4) in simp_all)
  moreover from this have "eff s' 4096 \<le> eff s' (cur s')"
    by (rule scheduler_runs_highest [OF r]) (use s in simp_all)
  ultimately show ?thesis using r s by (intro exI [of _ s] exI [of _ s']) simp
qed

section \<open>Wake-ups\<close>

lemma highest_priority_loop_ge:
  "h \<le> highest_priority_loop s xs h \<and> (\<forall>x\<in>set xs. eff s x \<le> highest_priority_loop s xs h)"
proof (induction s xs h rule: highest_priority_loop.induct)
  case (2 s x xs h)
  then show ?case by (auto split: if_splits)
qed simp

lemma yield_if_runs_highest:
  assumes "thread_yield_if_necessery s = Some s'" "kok s"
  shows "runs_highest s'"
proof (cases "get_highest_priority s > eff s (cur s)")
  case True
  have "thread_current s = Some (cur s)" using kinv_current [of s] assms(2) unfolding kok_def by metis
  then have "thread_yield s = Some s'"
    using assms True by (simp add: thread_yield_if_necessery_def kok_def)
  then show ?thesis using thread_yield_ok [of s] assms(2) by (auto simp: kok_def)
next
  case False
  have "thread_current s = Some (cur s)" using kinv_current [of s] assms(2) unfolding kok_def by metis
  then have "s' = s" using assms False by (simp add: thread_yield_if_necessery_def)
  moreover have "eff s x \<le> eff s (cur s)" if "x \<in> set (ready_list s)" for x
    using False highest_priority_loop_ge [of PRI_MIN s "ready_list s"] that
    by (fastforce simp: get_highest_priority_def)
  ultimately show ?thesis by (simp add: runs_highest_def)
qed

lemma waiter_stays_runnable:
  assumes k: "kinv s'" and f: "sched_frame s s'" and x: "thr s x = Some t" "status t \<noteq> THREAD_DYING" "waits_on t = Some a"
    and n: "x \<notin> set (waiters (sems s' a))"
  shows "runnable s' x"
proof -
  obtain t' where t': "thr s' x = Some t'" "status t' \<noteq> THREAD_DYING" "konts t' = konts t"
    using f x unfolding sched_frame_def by blast
  then have "waits_on t' = Some a" using x(3) waits_on_cong [OF t'(3)] by simp
  then have "status t' \<noteq> THREAD_BLOCKED"
    using coreD(3) [OF kinv_core [OF k]] n t'(1) by (auto simp: c_wait_def)
  then show ?thesis using t' unfolding runnable_def by (cases "status t'") auto
qed

lemma sema_up_runs_highest:
  assumes "sema_up a s = Some s'" "kok s"
  shows "runs_highest s'"
proof -
  obtain r where r: "sema_wake a s = Some r" "kinv r" "in_external_intr r = in_external_intr s"
    using sema_wake_ok [of s a] assms(2) by (auto simp: kok_def split: if_splits)
  let ?q = "set_sema a ((sems r a)\<lparr>sval := (sval (sems r a) + 1) mod 4294967296\<rparr>) r"
  have "thread_yield_if_necessery ?q = Some s'" using assms(1) r(1) by (auto simp: sema_up_def ret_iff)
  moreover have "kok ?q" using kinv_sval [OF r(2)] r(3) assms(2) by (simp add: kok_def)
  ultimately show ?thesis by (rule yield_if_runs_highest)
qed

text \<open>
  C5: No wake-up is lost. In every reachable state \<open>sema_up\<close> on a semaphore with waiters succeeds, takes
  a waiter of highest effective priority out of the queue and makes it runnable, and afterwards
  the processor runs a thread that no ready thread exceeds in effective priority.
\<close>

theorem sema_up_wakes_highest:
  assumes "reach L s" "a \<noteq> NULL" "waiters (sems s a) \<noteq> []"
  shows "\<exists>s' x. sema_up a s = Some s' \<and> x \<in> set (waiters (sems s a)) \<and>
    (\<forall>y\<in>set (waiters (sems s a)). eff s y \<le> eff s x) \<and>
    waiters (sems s' a) = remove1 x (waiters (sems s a)) \<and> runnable s' x \<and>
    (\<forall>y\<in>set (ready_list s'). eff s' y \<le> eff s' (cur s'))"
proof -
  have k: "kok s" using reach_inv [OF assms(1)] by simp
  then have ki: "kinv s" by (simp add: kok_def)
  obtain x s' where x: "best_waiter a x s" "kinv (woken a x s)" "sema_up a s = Some s'" "kinv s'"
    and f: "sched_frame (set_sema a ((sems (woken a x s) a)\<lparr>sval := (sval (sems s a) + 1) mod 4294967296\<rparr>) (woken a x s)) s'"
    using sema_up_ok [OF ki assms(2)] assms(3) by auto
  have xw: "x \<in> set (waiters (sems s a))" using x(1) by (simp add: best_waiter_def)
  have w': "waiters (sems s' a) = remove1 x (waiters (sems s a))"
    using f by (simp add: sched_frame_def set_sema_def woken_def)
  obtain t where t: "thr s x = Some t" "waits_on t = Some a"
    using coreD(3) [OF kinv_core [OF ki]] xw by (auto simp: c_wait_def)
  have "distinct (waiters (sems s a))" using coreD(3) [OF kinv_core [OF ki]] by (simp add: c_wait_def)
  then have nx: "x \<notin> set (waiters (sems s' a))" by (simp add: w')
  have "thr (set_sema a z (woken a x s)) x = Some (t\<lparr>status := THREAD_READY\<rparr>)" for z using t by (simp add: woken_def)
  moreover have "waits_on (t\<lparr>status := THREAD_READY\<rparr>) = Some a" using t(2) by (simp add: waits_on_def)
  ultimately have "runnable s' x" using waiter_stays_runnable [OF x(4) f _ _ _ nx] by simp
  moreover have "runs_highest s'" by (rule sema_up_runs_highest [OF x(3) k])
  ultimately show ?thesis using x(1,3) w' by (auto simp: best_waiter_def runs_highest_def)
qed

lemma wait_state:
  "\<exists>s. drive demo_locks (take 5 race_moves @ [MCall (CSemaDown 40)]) demo_state = Some s \<and> cur s = 4096 \<and>
     waiters (sems s 40) = [12288]"
  by (simp add: race_moves_def demo_defs)

theorem sema_up_wakes_highest_witness:
  "\<exists>s s'. reach demo_locks s \<and> waiters (sems s 40) = [12288] \<and> sema_up 40 s = Some s' \<and> runnable s' 12288"
proof -
  obtain s where s: "drive demo_locks (take 5 race_moves @ [MCall (CSemaDown 40)]) demo_state = Some s"
      "waiters (sems s 40) = [12288]"
    using wait_state by blast
  have r: "reach demo_locks s" by (rule drive_reach [OF s(1) demo_reach])
  then show ?thesis using sema_up_wakes_highest [OF r, of 40] s(2) by auto
qed

section \<open>Priority donation\<close>

text \<open>The holders that donation from \<open>x\<close> passes through.\<close>

definition next_holder :: "kstate \<Rightarrow> thread \<Rightarrow> addr" where
  "next_holder s t = (if waiting_lock t = NULL then NULL else holder (locks s (waiting_lock t)))"

fun holder_path :: "kstate \<Rightarrow> addr \<Rightarrow> addr list \<Rightarrow> bool" where
  "holder_path s x [] = (x = NULL)"
| "holder_path s x (y # ys) = (x = y \<and> y \<noteq> NULL \<and> (\<exists>t. thr s y = Some t \<and> holder_path s (next_holder s t) ys))"

lemma cpu_step:
  assumes "x \<noteq> NULL" "thr s x = Some t"
  shows "compare_priority_and_update x p s = (if effective_priority t > p then Some s
    else compare_priority_and_update (next_holder s t) p (upd x (\<lambda>t. t\<lparr>effective_priority := p\<rparr>) s))"
  using assms by (subst compare_priority_and_update.simps) (simp add: next_holder_def)

lemma holder_path_cong:
  assumes w: "\<And>y. map_option waiting_lock (thr r y) = map_option waiting_lock (thr s y)" and l: "locks r = locks s"
  shows "holder_path r x ys = holder_path s x ys"
proof (induction ys arbitrary: x)
  case (Cons y ys)
  have "(\<exists>t. thr r y = Some t \<and> holder_path r (next_holder r t) ys) =
      (\<exists>t. thr s y = Some t \<and> holder_path s (next_holder s t) ys)"
  proof (cases "thr r y")
    case None
    then show ?thesis using w [of y] by simp
  next
    case (Some t)
    then obtain u where u: "thr s y = Some u" "waiting_lock t = waiting_lock u" using w [of y] by (cases "thr s y") auto
    then have "next_holder r t = next_holder s u" by (simp add: next_holder_def l)
    then show ?thesis using Some u(1) Cons.IH by simp
  qed
  then show ?case by simp
qed simp

lemma holder_path_upd:
  "holder_path (upd z (\<lambda>t. t\<lparr>effective_priority := p\<rparr>) s) x ys = holder_path s x ys"
  by (rule holder_path_cong) (simp_all add: upd_def option.map_comp comp_def)

text \<open>
  C6: Priority donation along a chain of lock holders that ends returns, gives the donated priority to
  every thread of the chain up to the first of higher priority, and changes no other priority.
\<close>

theorem donation_follows_chain:
  assumes "holder_path s x ys"
  shows "\<exists>s'. compare_priority_and_update x p s = Some s' \<and>
    (\<forall>y. eff s' y = (if y \<in> set (takeWhile (\<lambda>y. eff s y \<le> p) ys) then p else eff s y)) \<and>
    locks s' = locks s \<and> sems s' = sems s \<and> ready_list s' = ready_list s"
  using assms
proof (induction ys arbitrary: x s)
  case Nil
  then show ?case by simp
next
  case (Cons y ys)
  then obtain t where t: "x = y" "y \<noteq> NULL" "thr s y = Some t" "holder_path s (next_holder s t) ys" by auto
  have e: "eff s y = effective_priority t" using t by (simp add: eff_def)
  show ?case
  proof (cases "effective_priority t > p")
    case True
    then show ?thesis using cpu_step [OF t(2,3)] t(1) e by simp
  next
    case False
    let ?r = "upd y (\<lambda>t. t\<lparr>effective_priority := p\<rparr>) s"
    have er: "eff ?r z = (if z = y then p else eff s z)" for z using t(3) by (simp add: eff_def upd_def)
    have "holder_path ?r (next_holder s t) ys" using t(4) by (simp add: holder_path_upd)
    from Cons.IH [OF this] obtain s' where s': "compare_priority_and_update (next_holder s t) p ?r = Some s'"
      "\<And>z. eff s' z = (if z \<in> set (takeWhile (\<lambda>y. eff ?r y \<le> p) ys) then p else eff ?r z)"
      "locks s' = locks s" "sems s' = sems s" "ready_list s' = ready_list s"
      by auto
    have "takeWhile (\<lambda>z. eff ?r z \<le> p) ys = takeWhile (\<lambda>z. eff s z \<le> p) ys"
      by (rule takeWhile_cong) (use False e in \<open>auto simp: er\<close>)
    then show ?thesis using s' cpu_step [OF t(2,3), of p] False e t(1) by (auto simp: er)
  qed
qed

definition chain_state :: kstate where
  "chain_state = zero_state\<lparr>
     thr := [4096 \<mapsto> (main_t 4096 1)\<lparr>waiting_lock := 24\<rparr>, 12288 \<mapsto> (main_t 12288 2)\<lparr>effective_priority := 10\<rparr>],
     locks := (\<lambda>l. if l = 24 then \<lparr>holder = 12288, linked_in = 12288\<rparr> else \<lparr>holder = NULL, linked_in = NULL\<rparr>)\<rparr>"

theorem donation_follows_chain_witness:
  "holder_path chain_state 4096 [4096, 12288] \<and>
   (\<exists>s'. compare_priority_and_update 4096 50 chain_state = Some s' \<and> eff s' 12288 = 50 \<and> eff s' 4096 = 50)"
proof -
  have h: "holder_path chain_state 4096 [4096, 12288]"
    by (simp add: chain_state_def next_holder_def main_t_def fresh_thread_def blank_thread_def)
  have "eff chain_state 4096 = 31" "eff chain_state 12288 = 10"
    by (simp_all add: chain_state_def eff_def main_t_def fresh_thread_def PRI_DEFAULT_def)
  then show ?thesis using donation_follows_chain [OF h, of 50] h by auto
qed

definition holder_cycle :: "addr set \<Rightarrow> int \<Rightarrow> kstate \<Rightarrow> bool" where
  "holder_cycle S p s = (\<forall>x\<in>S. x \<noteq> NULL \<and> (\<exists>t. thr s x = Some t \<and> effective_priority t \<le> p \<and> next_holder s t \<in> S))"

lemma holder_cycle_upd:
  assumes "holder_cycle S p s"
  shows "holder_cycle S p (upd x (\<lambda>t. t\<lparr>effective_priority := p\<rparr>) s)"
  unfolding holder_cycle_def
proof
  fix y assume y: "y \<in> S"
  then obtain t where t: "y \<noteq> NULL" "thr s y = Some t" "effective_priority t \<le> p" "next_holder s t \<in> S"
    using assms by (auto simp: holder_cycle_def)
  let ?r = "upd x (\<lambda>t. t\<lparr>effective_priority := p\<rparr>) s"
  have "thr ?r y = Some (if y = x then t\<lparr>effective_priority := p\<rparr> else t)" using t(2) by (auto simp: upd_def)
  then show "y \<noteq> NULL \<and> (\<exists>t. thr ?r y = Some t \<and> effective_priority t \<le> p \<and> next_holder ?r t \<in> S)"
    using t by (auto simp: next_holder_def)
qed

lemma cpu_cycle:
  assumes "compare_priority_and_update x p s = Some s'"
  shows "\<not> (x \<in> S \<and> holder_cycle S p s)"
proof (rule compare_priority_and_update.raw_induct
    [where P = "\<lambda>x p s s'. \<not> (x \<in> S \<and> holder_cycle S p s)" and xa = "((x, p), s)", unfolded prod.case, OF _ assms])
  fix cpu x p s s'
  assume ih: "\<And>x p s s'. cpu x p s = Some s' \<Longrightarrow> \<not> (x \<in> S \<and> holder_cycle S p s)"
    and st: "(if x = NULL then Some s else do {
        t \<leftarrow> thr s x;
        if effective_priority t > p then Some s
        else do {
          let s = upd x (\<lambda>t. t\<lparr>effective_priority := p\<rparr>) s;
          if waiting_lock t \<noteq> NULL then cpu (holder (locks s (waiting_lock t))) p s else Some s } }) = Some s'"
  show "\<not> (x \<in> S \<and> holder_cycle S p s)"
  proof
    assume c: "x \<in> S \<and> holder_cycle S p s"
    then obtain t where t: "x \<noteq> NULL" "thr s x = Some t" "effective_priority t \<le> p" "next_holder s t \<in> S"
      by (auto simp: holder_cycle_def)
    have "next_holder s t \<noteq> NULL" using t(4) c by (auto simp: holder_cycle_def)
    then have "cpu (next_holder s t) p (upd x (\<lambda>t. t\<lparr>effective_priority := p\<rparr>) s) = Some s'"
      using st t by (auto simp: next_holder_def Let_def split: if_splits)
    then show False using ih t(4) holder_cycle_upd c by blast
  qed
qed

text \<open>
  C8: Donation hangs on a deadlock: when the chain of holders runs into a cycle of threads none of which
  has a higher effective priority, \<open>compare_priority_and_update\<close> does not return.
\<close>

theorem donation_hangs_on_cycle:
  assumes "holder_cycle S p s" "x \<in> S"
  shows "compare_priority_and_update x p s = None"
  using cpu_cycle [of x p s _ S] assms by (cases "compare_priority_and_update x p s") auto

text \<open>Two threads of equal priority that each wait for the lock of the other.\<close>

definition cycle_moves :: "kmove_kind list" where
  "cycle_moves = [MCall (CCreate 12288 [] 31), MResume, MResume, MResume, MCall (CLockAcquire 24), MCall CYield,
     MResume, MCall (CLockAcquire 32), MCall (CLockAcquire 24)]"

lemma cycle_state:
  "\<exists>s. drive demo_locks cycle_moves demo_state = Some s \<and> thread_current s = Some 4096 \<and> cur_konts s = [] \<and>
     \<not> in_external_intr s \<and> holder (locks s 32) = 12288 \<and> eff (upd 4096 (\<lambda>t. t\<lparr>waiting_lock := 32\<rparr>) s) 4096 = 31 \<and>
     holder_cycle {4096, 12288} 31 (upd 4096 (\<lambda>t. t\<lparr>waiting_lock := 32\<rparr>) s)"
  by (simp add: cycle_moves_def demo_defs compare_priority_and_update.simps holder_cycle_def next_holder_def)

theorem donation_hangs_on_cycle_witness:
  "\<exists>s. reach demo_locks s \<and> cur_konts s = [] \<and> holder_cycle {4096, 12288} 31 (upd 4096 (\<lambda>t. t\<lparr>waiting_lock := 32\<rparr>) s) \<and>
     kcall_run (CLockAcquire 32) s = None"
proof -
  obtain s where s: "drive demo_locks cycle_moves demo_state = Some s" "thread_current s = Some 4096" "cur_konts s = []"
     "\<not> in_external_intr s" "holder (locks s 32) = 12288" "eff (upd 4096 (\<lambda>t. t\<lparr>waiting_lock := 32\<rparr>) s) 4096 = 31"
     "holder_cycle {4096, 12288} 31 (upd 4096 (\<lambda>t. t\<lparr>waiting_lock := 32\<rparr>) s)"
    using cycle_state by blast
  have "reach demo_locks s" by (rule drive_reach [OF s(1) demo_reach])
  moreover have "kcall_run (CLockAcquire 32) s = None"
    using s(2,4-6) donation_hangs_on_cycle [OF s(7), of 12288]
    by (simp add: lock_acquire_def lock_held_by_current_thread_def)
  ultimately show ?thesis using s(3,7) by blast
qed

end
