(* ===== verification/Fs_State.thy ===== *)
theory Fs_State
  imports Cache Bitmap Stdlib
begin

text \<open>
  The state of the file system above the buffer cache: the structures of \<open>filesys/inode.h\<close>,
  \<open>filesys/file.h\<close> and \<open>filesys/directory.h\<close>, and how inodes and pointer blocks are stored in a
  sector. An object allocated with \<open>malloc\<close> is an entry of the heap of its type at its address;
  \<open>free\<close> removes the entry, so that a later access is \<open>None\<close>.

  The model runs one file system operation after the other, as one thread does. A lock of an inode
  is held or not: acquiring one that is held is the failed assertion
  \<open>!lock_held_by_current_thread\<close> of \<open>lock_acquire\<close>, releasing one that is not held that of
  \<open>lock_release\<close>. Sector numbers are natural numbers below \<open>2 ^ 32\<close> in the structures and 32-bit
  words in a pointer block; \<open>off_t\<close> is an \<open>int\<close>, and a sum of two offsets that is not a 32-bit
  value is \<open>None\<close>.
\<close>

section \<open>Structures\<close>

definition INODE_MAGIC :: u32 where
  "INODE_MAGIC = 0x494e4f44"

definition POINTER_BLOCK_POINTERS_COUNT :: int where
  "POINTER_BLOCK_POINTERS_COUNT = 128"

definition MAX_FILE_SIZE :: int where
  "MAX_FILE_SIZE = POINTER_BLOCK_POINTERS_COUNT * POINTER_BLOCK_POINTERS_COUNT * int BLOCK_SECTOR_SIZE"

definition READ_AHEAD_SIZE :: nat where
  "READ_AHEAD_SIZE = 3"

definition FREE_MAP_SECTOR :: nat where
  "FREE_MAP_SECTOR = 0"

definition ROOT_DIR_SECTOR :: nat where
  "ROOT_DIR_SECTOR = 1"

record inode_disk =
  dk_start :: nat
  dk_length :: int
  dk_magic :: u32
  dk_isDir :: u32
  double_indirect_block :: nat
  dk_unused :: "u32 list"

record inode =
  i_sector :: nat
  open_cnt :: int
  removed :: bool
  deny_write_cnt :: int
  access_lock :: bool
  i_data :: inode_disk

record open_file =
  f_inode :: addr
  f_pos :: int
  f_deny_write :: bool

record open_dir =
  d_inode :: addr
  d_pos :: int

record file_descriptor =
  fd_file :: addr
  fd_dir :: addr
  fd_file_name :: "byte list"
  fd_num :: int

text \<open>
  \<open>uninit\<close> is what a local \<open>struct dir_entry\<close> holds before it is first written;
  \<open>working_directory\<close>, \<open>fd_list\<close> and \<open>thread_fd_counter\<close> are fields of the running thread.
\<close>

record fss = cfs +
  open_inodes :: "addr list"
  inodes :: "addr \<Rightarrow> inode option"
  files :: "addr \<Rightarrow> open_file option"
  dirs :: "addr \<Rightarrow> open_dir option"
  free_map :: bitmap
  free_map_file :: addr
  working_directory :: addr
  fd_list :: "file_descriptor list"
  thread_fd_counter :: int
  uninit :: "byte list"

definition set_inode :: "addr \<Rightarrow> inode option \<Rightarrow> 'z fss_scheme \<Rightarrow> 'z fss_scheme" where
  "set_inode p v s = s\<lparr>inodes := (inodes s)(p := v)\<rparr>"

definition set_file :: "addr \<Rightarrow> open_file option \<Rightarrow> 'z fss_scheme \<Rightarrow> 'z fss_scheme" where
  "set_file p v s = s\<lparr>files := (files s)(p := v)\<rparr>"

definition set_dir :: "addr \<Rightarrow> open_dir option \<Rightarrow> 'z fss_scheme \<Rightarrow> 'z fss_scheme" where
  "set_dir p v s = s\<lparr>dirs := (dirs s)(p := v)\<rparr>"

text \<open>The lock of an inode, as one thread uses it.\<close>

definition inode_lock :: "addr \<Rightarrow> 'z fss_scheme \<Rightarrow> 'z fss_scheme option" where
  "inode_lock p s = do {
     i \<leftarrow> inodes s p;
     assert_c (\<not> access_lock i);
     Some (set_inode p (Some (i\<lparr>access_lock := True\<rparr>)) s) }"

definition inode_unlock :: "addr \<Rightarrow> 'z fss_scheme \<Rightarrow> 'z fss_scheme option" where
  "inode_unlock p s = do {
     i \<leftarrow> inodes s p;
     assert_c (access_lock i);
     Some (set_inode p (Some (i\<lparr>access_lock := False\<rparr>)) s) }"

section \<open>Signed division\<close>

text \<open>\<open>/\<close> and \<open>%\<close> of C, with a positive divisor: towards zero.\<close>

definition off_div :: "int \<Rightarrow> int \<Rightarrow> int" where
  "off_div a b = (if 0 \<le> a then a div b else - ((- a) div b))"

definition off_mod :: "int \<Rightarrow> int \<Rightarrow> int" where
  "off_mod a b = a - b * off_div a b"

lemma off_div_nonneg [simp]: "0 \<le> a \<Longrightarrow> off_div a b = a div b"
  by (simp add: off_div_def)

lemma off_mod_nonneg [simp]: "0 \<le> a \<Longrightarrow> off_mod a b = a mod b"
  by (simp add: off_mod_def minus_mult_div_eq_mod)

lemma off_mod_less: "0 < b \<Longrightarrow> off_mod a b < b"
proof (cases "0 \<le> a")
  case False
  assume "0 < b"
  moreover have "off_mod a b = - ((- a) mod b)"
    using False minus_mult_div_eq_mod [of "- a" b] by (simp add: off_mod_def off_div_def)
  ultimately show ?thesis using pos_mod_sign [of b "- a"] by linarith
qed simp

section \<open>Sectors\<close>

definition encode_inode :: "inode_disk \<Rightarrow> byte list" where
  "encode_inode d = words_bytes
     ([word_of_nat (dk_start d), word_of_int (dk_length d), dk_magic d, dk_isDir d,
       word_of_nat (double_indirect_block d)] @ dk_unused d)"

definition decode_inode :: "byte list \<Rightarrow> inode_disk" where
  "decode_inode bs = (let ws = bytes_words bs in
     \<lparr> dk_start = unat (ws ! 0), dk_length = sint (ws ! 1), dk_magic = ws ! 2, dk_isDir = ws ! 3,
       double_indirect_block = unat (ws ! 4), dk_unused = drop 5 ws \<rparr>)"

definition disk_inode_ok :: "inode_disk \<Rightarrow> bool" where
  "disk_inode_ok d \<longleftrightarrow> dk_start d \<le> SIZE_MAX \<and> INT_MIN \<le> dk_length d \<and> dk_length d \<le> INT_MAX
     \<and> double_indirect_block d \<le> SIZE_MAX \<and> length (dk_unused d) = 123"

lemma length_encode_inode [simp]: "length (encode_inode d) = 20 + 4 * length (dk_unused d)"
  by (simp add: encode_inode_def)

lemma unat_word_of_nat32: "n \<le> SIZE_MAX \<Longrightarrow> unat (word_of_nat n :: u32) = n"
  by (simp add: unsigned_of_nat take_bit_nat_eq_self SIZE_MAX_def)

lemma sint_word_of_int32: "INT_MIN \<le> x \<Longrightarrow> x \<le> INT_MAX \<Longrightarrow> sint (word_of_int x :: u32) = x"
  by (simp add: signed_of_int signed_take_bit_int_eq_self INT_MIN_def INT_MAX_def)

lemma decode_encode_inode: "disk_inode_ok d \<Longrightarrow> decode_inode (encode_inode d) = d"
  by (cases d) (simp add: disk_inode_ok_def decode_inode_def encode_inode_def Let_def
      unat_word_of_nat32 sint_word_of_int32 del: words_bytes_simps)

lemma disk_inode_ok_decode: "length bs = BLOCK_SECTOR_SIZE \<Longrightarrow> disk_inode_ok (decode_inode bs)"
  using sint_greater_eq [of "bytes_words bs ! 1"] sint_less [of "bytes_words bs ! 1"]
  by (simp add: disk_inode_ok_def decode_inode_def Let_def length_bytes_words BLOCK_SECTOR_SIZE_def
      INT_MIN_def INT_MAX_def SIZE_MAX_def less_Suc_eq_le [symmetric])

text \<open>One entry of a pointer block; a part of a buffer.\<close>

definition block_ptr :: "u32 list \<Rightarrow> int \<Rightarrow> nat option" where
  "block_ptr bs i = (if 0 \<le> i \<and> nat i < length bs then Some (unat (bs ! nat i)) else None)"

definition mem_slice :: "byte list \<Rightarrow> int \<Rightarrow> int \<Rightarrow> byte list option" where
  "mem_slice bs ofs n =
     (if 0 \<le> ofs \<and> 0 \<le> n \<and> ofs + n \<le> int (length bs) then Some (take (nat n) (drop (nat ofs) bs)) else None)"

end
