(* ===== verification/Inode.thy ===== *)
theory Inode
  imports Fs_State
begin

text \<open>
  Sector allocation (\<open>filesys/free-map.c\<close>) and inodes (\<open>filesys/inode.c\<close>).

  Allocating a sector rewrites the free map's own file, through \<open>bitmap_write\<close>, \<open>file_write_at\<close> and
  \<open>inode_write_at\<close>, which can itself allocate sectors. The operations here take the write of the
  free map's file as the argument \<open>fw\<close>; the theory \<open>File\<close> ties the knot.
\<close>

section \<open>The free map (free-map.c)\<close>

text \<open>The sector allocated, or \<open>None\<close> for \<open>false\<close>.\<close>

definition free_map_allocate ::
  "(byte list \<Rightarrow> nat \<Rightarrow> fss \<Rightarrow> (nat \<times> fss) option) \<Rightarrow> nat \<Rightarrow> fss \<Rightarrow> (nat option \<times> fss) option" where
  "free_map_allocate fw cnt s = do {
     (sector, b) \<leftarrow> bitmap_scan_and_flip (free_map s) 0 cnt False;
     let s = s\<lparr>free_map := b\<rparr>;
     (sector, s) \<leftarrow>
       (if sector \<noteq> BITMAP_ERROR \<and> free_map_file s \<noteq> NULL
        then do {
          (ok, s) \<leftarrow> bitmap_write fw (free_map s) s;
          if ok then Some (sector, s)
          else do {
            b \<leftarrow> bitmap_set_multiple (free_map s) sector cnt False;
            Some (BITMAP_ERROR, s\<lparr>free_map := b\<rparr>) } }
        else Some (sector, s));
     Some (if sector \<noteq> BITMAP_ERROR then Some sector else None, s) }"

definition free_map_release ::
  "(byte list \<Rightarrow> nat \<Rightarrow> fss \<Rightarrow> (nat \<times> fss) option) \<Rightarrow> nat \<Rightarrow> nat \<Rightarrow> fss \<Rightarrow> fss option" where
  "free_map_release fw sector cnt s = do {
     all1 \<leftarrow> bitmap_all (free_map s) sector cnt;
     assert_c all1;
     b \<leftarrow> bitmap_set_multiple (free_map s) sector cnt False;
     let s = s\<lparr>free_map := b\<rparr>;
     (ok, s) \<leftarrow> bitmap_write fw (free_map s) s;
     Some s }"

section \<open>Opening and closing (inode.c)\<close>

definition bytes_to_sectors :: "int \<Rightarrow> int" where
  "bytes_to_sectors sz = off_div (sz + int BLOCK_SECTOR_SIZE - 1) (int BLOCK_SECTOR_SIZE)"

definition sectors_to_indirect_blocks :: "int \<Rightarrow> int" where
  "sectors_to_indirect_blocks sectors = off_div (sectors + POINTER_BLOCK_POINTERS_COUNT - 1) POINTER_BLOCK_POINTERS_COUNT"

text \<open>A \<open>block_sector_t\<close>, so that the returned -1 is the largest one.\<close>

definition byte_to_sector :: "addr \<Rightarrow> int \<Rightarrow> fss \<Rightarrow> nat option" where
  "byte_to_sector p pos s = do {
     assert_c (p \<noteq> NULL);
     i \<leftarrow> inodes s p;
     Some (if pos < dk_length (i_data i)
           then nat ((int (dk_start (i_data i)) + off_div pos (int BLOCK_SECTOR_SIZE)) mod 4294967296)
           else SIZE_MAX) }"

definition inode_init :: "fss \<Rightarrow> fss" where
  "inode_init s = init_cache (s\<lparr>open_inodes := []\<rparr>)"

definition inode_reopen :: "addr \<Rightarrow> fss \<Rightarrow> (addr \<times> fss) option" where
  "inode_reopen p s =
     (if p \<noteq> NULL
      then do { i \<leftarrow> inodes s p; Some (p, set_inode p (Some (i\<lparr>open_cnt := open_cnt i + 1\<rparr>)) s) }
      else Some (p, s))"

text \<open>The search of the open inodes: the address found, or \<open>NULL\<close> at the end of the list.\<close>

fun find_open :: "nat \<Rightarrow> addr list \<Rightarrow> fss \<Rightarrow> addr option" where
  "find_open sector [] s = Some NULL"
| "find_open sector (p # ps) s = do {
     i \<leftarrow> inodes s p;
     if i_sector i = sector then Some p else find_open sector ps s }"

definition inode_open :: "nat \<Rightarrow> fss \<Rightarrow> (addr \<times> fss) option" where
  "inode_open sector s = do {
     p \<leftarrow> find_open sector (open_inodes s) s;
     if p \<noteq> NULL
     then do { (q, s) \<leftarrow> inode_reopen p s; Some (p, s) }
     else let (p, s) = malloc s in
       if p = NULL then Some (NULL, s)
       else do {
         let s = s\<lparr>open_inodes := p # open_inodes s\<rparr>;
         (bs, s) \<leftarrow> dev_read sector False s;
         Some (p, set_inode p (Some \<lparr> i_sector = sector, open_cnt = 1, removed = False, deny_write_cnt = 0,
                                      access_lock = False, i_data = decode_inode bs \<rparr>) s) } }"

definition inode_get_inumber :: "addr \<Rightarrow> fss \<Rightarrow> nat option" where
  "inode_get_inumber p s = map_option i_sector (inodes s p)"

definition inode_remove :: "addr \<Rightarrow> fss \<Rightarrow> fss option" where
  "inode_remove p s = do {
     assert_c (p \<noteq> NULL);
     i \<leftarrow> inodes s p;
     Some (set_inode p (Some (i\<lparr>removed := True\<rparr>)) s) }"

definition inode_deny_write :: "addr \<Rightarrow> fss \<Rightarrow> fss option" where
  "inode_deny_write p s = do {
     i \<leftarrow> inodes s p;
     let i = i\<lparr>deny_write_cnt := deny_write_cnt i + 1\<rparr>;
     assert_c (deny_write_cnt i \<le> open_cnt i);
     Some (set_inode p (Some i) s) }"

definition inode_allow_write :: "addr \<Rightarrow> fss \<Rightarrow> fss option" where
  "inode_allow_write p s = do {
     i \<leftarrow> inodes s p;
     assert_c (deny_write_cnt i > 0);
     assert_c (deny_write_cnt i \<le> open_cnt i);
     Some (set_inode p (Some (i\<lparr>deny_write_cnt := deny_write_cnt i - 1\<rparr>)) s) }"

definition inode_length :: "addr \<Rightarrow> fss \<Rightarrow> int option" where
  "inode_length p s = map_option (\<lambda>i. dk_length (i_data i)) (inodes s p)"

section \<open>Growing a file\<close>

fun free_block_sector_array ::
  "(byte list \<Rightarrow> nat \<Rightarrow> fss \<Rightarrow> (nat \<times> fss) option) \<Rightarrow> nat list \<Rightarrow> fss \<Rightarrow> fss option" where
  "free_block_sector_array fw [] s = Some s"
| "free_block_sector_array fw (k # ks) s = do {
     s \<leftarrow> free_map_release fw k 1 s;
     free_block_sector_array fw ks s }"

text \<open>The loop of \<open>allocate_k_sectors\<close>, with \<open>n\<close> sectors to go: those allocated before the first failure.\<close>

fun allocate_loop ::
  "(byte list \<Rightarrow> nat \<Rightarrow> fss \<Rightarrow> (nat \<times> fss) option) \<Rightarrow> nat \<Rightarrow> nat list \<Rightarrow> fss \<Rightarrow> (nat list \<times> fss) option" where
  "allocate_loop fw 0 acc s = Some (acc, s)"
| "allocate_loop fw (Suc n) acc s = do {
     (r, s) \<leftarrow> free_map_allocate fw 1 s;
     (case r of None \<Rightarrow> Some (acc, s) | Some k \<Rightarrow> allocate_loop fw n (acc @ [k]) s) }"

definition allocate_k_sectors ::
  "(byte list \<Rightarrow> nat \<Rightarrow> fss \<Rightarrow> (nat \<times> fss) option) \<Rightarrow> nat \<Rightarrow> fss \<Rightarrow> (nat list option \<times> fss) option" where
  "allocate_k_sectors fw k s =
     (let (p, s) = malloc s in
      if p \<noteq> NULL
      then do {
        (sectors, s) \<leftarrow> allocate_loop fw k [] s;
        if length sectors < k
        then do { s \<leftarrow> free_block_sector_array fw sectors s; Some (None, s) }
        else Some (Some sectors, s) }
      else Some (None, s))"

text \<open>Storing sector numbers into a pointer block from position \<open>i\<close> on.\<close>

fun set_blocks :: "u32 list \<Rightarrow> int \<Rightarrow> nat list \<Rightarrow> u32 list option" where
  "set_blocks bs i [] = Some bs"
| "set_blocks bs i (k # ks) =
     (if 0 \<le> i \<and> nat i < length bs then set_blocks (bs[nat i := word_of_nat k]) (i + 1) ks else None)"

text \<open>
  The loop that enters the new data sectors into the indirect blocks: \<open>last1\<close> is
  \<open>last_indirect_block_ind\<close>, \<open>ib\<close> the indirect block in memory, \<open>k\<close> the number of the sector in the file.
\<close>

fun link_loop :: "u32 list \<Rightarrow> int \<Rightarrow> u32 list \<Rightarrow> int \<Rightarrow> nat list \<Rightarrow> fss \<Rightarrow> (int \<times> u32 list \<times> fss) option" where
  "link_loop dib last1 ib k [] s = Some (last1, ib, s)"
| "link_loop dib last1 ib k (x # xs) s = do {
     let ibi = off_div k POINTER_BLOCK_POINTERS_COUNT;
     (last1, ib, s) \<leftarrow>
       (if last1 \<noteq> ibi
        then do {
          s \<leftarrow> (if last1 \<noteq> - 1
                then do { p \<leftarrow> block_ptr dib last1; dev_write p (words_bytes ib) False s }
                else Some s);
          p \<leftarrow> block_ptr dib ibi;
          (bs, s) \<leftarrow> dev_read p False s;
          Some (ibi, bytes_words bs, s) }
        else Some (last1, ib, s));
     ib \<leftarrow> set_blocks ib (off_mod k POINTER_BLOCK_POINTERS_COUNT) [x];
     link_loop dib last1 ib (k + 1) xs s }"

definition link_blocks :: "inode_disk \<Rightarrow> int \<Rightarrow> nat list \<Rightarrow> int \<Rightarrow> nat list \<Rightarrow> fss \<Rightarrow> fss option" where
  "link_blocks di cur_ib ibs cur sectors s = do {
     (bs, s) \<leftarrow> dev_read (double_indirect_block di) False s;
     dib \<leftarrow> set_blocks (bytes_words bs) cur_ib ibs;
     s \<leftarrow> dev_write (double_indirect_block di) (words_bytes dib) False s;
     (last1, ib, s) \<leftarrow> link_loop dib (- 1) [] cur sectors s;
     if last1 \<noteq> - 1
     then do { p \<leftarrow> block_ptr dib last1; dev_write p (words_bytes ib) False s }
     else Some s }"

text \<open>
  The part of \<open>extend_inode_disk_to_size\<close> that allocates and links the new blocks, with its
  clean-up; the flag is \<open>success\<close>.
\<close>

definition extend_blocks ::
  "(byte list \<Rightarrow> nat \<Rightarrow> fss \<Rightarrow> (nat \<times> fss) option) \<Rightarrow> inode_disk \<Rightarrow> int \<Rightarrow> int \<Rightarrow> int \<Rightarrow> int \<Rightarrow> fss \<Rightarrow> (bool \<times> fss) option" where
  "extend_blocks fw di cur new_sectors cur_ib new_ib s = do {
     (indirect_blocks, s) \<leftarrow> (if new_ib > 0 then allocate_k_sectors fw (nat new_ib) s else Some (Some [], s));
     (case indirect_blocks of
        None \<Rightarrow> Some (False, s)
      | Some ibs \<Rightarrow>
          let (ibuf, s) = malloc s in
          if ibuf = NULL
          then do { s \<leftarrow> free_block_sector_array fw ibs s; Some (False, s) }
          else do {
            (sectors, s) \<leftarrow> allocate_k_sectors fw (nat new_sectors) s;
            (case sectors of
               None \<Rightarrow> do { s \<leftarrow> free_block_sector_array fw ibs s; Some (False, s) }
             | Some ks \<Rightarrow>
                 let (dbuf, s) = malloc s in
                 if dbuf = NULL
                 then do {
                   s \<leftarrow> free_block_sector_array fw ks s;
                   s \<leftarrow> free_block_sector_array fw ibs s;
                   Some (False, s) }
                 else do { s \<leftarrow> link_blocks di cur_ib ibs cur ks s; Some (True, s) }) }) }"

definition extend_inode_disk_to_size ::
  "(byte list \<Rightarrow> nat \<Rightarrow> fss \<Rightarrow> (nat \<times> fss) option) \<Rightarrow> nat \<Rightarrow> inode_disk \<Rightarrow> int \<Rightarrow> fss \<Rightarrow> (bool \<times> inode_disk \<times> fss) option" where
  "extend_inode_disk_to_size fw sector di sz s = do {
     assert_c (sz < MAX_FILE_SIZE);
     assert_c (sz \<ge> 0);
     if sz < dk_length di then Some (True, di, s)
     else do {
       let cur = bytes_to_sectors (dk_length di);
       let needed = bytes_to_sectors sz;
       let cur_ib = sectors_to_indirect_blocks cur;
       let needed_ib = sectors_to_indirect_blocks needed;
       let new_sectors = needed - cur;
       let new_ib = needed_ib - cur_ib;
       assert_c (new_sectors \<ge> 0);
       assert_c (new_ib \<ge> 0);
       (success, s) \<leftarrow> (if new_sectors = 0 then Some (True, s) else extend_blocks fw di cur new_sectors cur_ib new_ib s);
       if success
       then do {
         let di = di\<lparr>dk_length := sz\<rparr>;
         s \<leftarrow> dev_write sector (encode_inode di) False s;
         Some (True, di, s) }
       else Some (False, di, s) } }"

definition inode_create ::
  "(byte list \<Rightarrow> nat \<Rightarrow> fss \<Rightarrow> (nat \<times> fss) option) \<Rightarrow> nat \<Rightarrow> int \<Rightarrow> u32 \<Rightarrow> fss \<Rightarrow> (bool \<times> fss) option" where
  "inode_create fw sector len isDir s = do {
     assert_c (len \<ge> 0);
     let (p, s) = malloc s;
     if p = NULL then Some (False, s)
     else do {
       let di = \<lparr> dk_start = 0, dk_length = 0, dk_magic = INODE_MAGIC, dk_isDir = isDir,
                  double_indirect_block = 0, dk_unused = replicate 123 0 \<rparr>;
       (r, s) \<leftarrow> free_map_allocate fw 1 s;
       (case r of
          None \<Rightarrow> Some (False, s)
        | Some k \<Rightarrow> do {
            (ok, di, s) \<leftarrow> extend_inode_disk_to_size fw sector (di\<lparr>double_indirect_block := k\<rparr>) len s;
            if ok then Some (True, s)
            else do { s \<leftarrow> free_map_release fw (double_indirect_block di) 1 s; Some (False, s) } }) } }"

section \<open>Closing\<close>

text \<open>The loop over the data sectors of a removed file, \<open>n\<close> to go from number \<open>i\<close> on.\<close>

fun release_loop ::
  "(byte list \<Rightarrow> nat \<Rightarrow> fss \<Rightarrow> (nat \<times> fss) option) \<Rightarrow> u32 list \<Rightarrow> int \<Rightarrow> u32 list \<Rightarrow> int \<Rightarrow> nat \<Rightarrow> fss \<Rightarrow> fss option" where
  "release_loop fw dib last1 ib i 0 s = Some s"
| "release_loop fw dib last1 ib i (Suc n) s = do {
     let ibi = off_div i POINTER_BLOCK_POINTERS_COUNT;
     (last1, ib, s) \<leftarrow>
       (if last1 \<noteq> ibi
        then do { p \<leftarrow> block_ptr dib ibi; (bs, s) \<leftarrow> dev_read p False s; Some (ibi, bytes_words bs, s) }
        else Some (last1, ib, s));
     k \<leftarrow> block_ptr ib (off_mod i POINTER_BLOCK_POINTERS_COUNT);
     s \<leftarrow> free_map_release fw k 1 s;
     release_loop fw dib last1 ib (i + 1) n s }"

fun release_indirect ::
  "(byte list \<Rightarrow> nat \<Rightarrow> fss \<Rightarrow> (nat \<times> fss) option) \<Rightarrow> u32 list \<Rightarrow> int \<Rightarrow> nat \<Rightarrow> fss \<Rightarrow> fss option" where
  "release_indirect fw dib i 0 s = Some s"
| "release_indirect fw dib i (Suc n) s = do {
     k \<leftarrow> block_ptr dib i;
     s \<leftarrow> free_map_release fw k 1 s;
     release_indirect fw dib (i + 1) n s }"

text \<open>What \<open>inode_close\<close> does with the sectors of a removed inode.\<close>

definition release_inode ::
  "(byte list \<Rightarrow> nat \<Rightarrow> fss \<Rightarrow> (nat \<times> fss) option) \<Rightarrow> inode \<Rightarrow> fss \<Rightarrow> fss option" where
  "release_inode fw i s = do {
     let sectors = bytes_to_sectors (dk_length (i_data i));
     let indirect_blocks = sectors_to_indirect_blocks sectors;
     let (dbuf, s) = malloc s;
     let (ibuf, s) = malloc s;
     assert_c (\<not> (dbuf = NULL \<or> ibuf = NULL));
     (bs, s) \<leftarrow> dev_read (double_indirect_block (i_data i)) False s;
     s \<leftarrow> release_loop fw (bytes_words bs) (- 1) [] 0 (nat sectors) s;
     s \<leftarrow> release_indirect fw (bytes_words bs) 0 (nat indirect_blocks) s;
     s \<leftarrow> free_map_release fw (double_indirect_block (i_data i)) 1 s;
     free_map_release fw (i_sector i) 1 s }"

definition inode_close ::
  "(byte list \<Rightarrow> nat \<Rightarrow> fss \<Rightarrow> (nat \<times> fss) option) \<Rightarrow> addr \<Rightarrow> fss \<Rightarrow> fss option" where
  "inode_close fw p s =
     (if p = NULL then Some s
      else do {
        s \<leftarrow> inode_lock p s;
        i \<leftarrow> inodes s p;
        let i = i\<lparr>open_cnt := open_cnt i - 1\<rparr>;
        let s = set_inode p (Some i) s;
        if open_cnt i = 0
        then do {
          let s = s\<lparr>open_inodes := remove1 p (open_inodes s)\<rparr>;
          s \<leftarrow> (if removed i then release_inode fw i s else Some s);
          s \<leftarrow> inode_unlock p s;
          Some (set_inode p None s) }
        else inode_unlock p s })"

section \<open>Reading\<close>

fun read_ahead_loop :: "nat \<Rightarrow> nat list \<Rightarrow> fss \<Rightarrow> fss option" where
  "read_ahead_loop idx [] s = Some s"
| "read_ahead_loop idx (i # is) s = do {
     s \<leftarrow> (case get_cache (szadd idx i) s of
             Some ce \<Rightarrow> Some s
           | None \<Rightarrow> do { (bs, s) \<leftarrow> dev_read (szadd idx i) True s; set_cache (szadd idx i) bs s });
     read_ahead_loop idx is s }"

definition inode_read_ahead :: "nat \<Rightarrow> fss \<Rightarrow> fss option" where
  "inode_read_ahead idx s = read_ahead_loop idx [1..<Suc READ_AHEAD_SIZE] s"

text \<open>
  One round of the read loop on a sector: the bytes of the chunk (\<open>None\<close> when there is no memory
  for the sector buffer, which ends the loop) and the sector buffer \<open>sb\<close>.
\<close>

definition read_chunk ::
  "bool \<Rightarrow> nat \<Rightarrow> int \<Rightarrow> int \<Rightarrow> addr \<Rightarrow> fss \<Rightarrow> (byte list option \<times> addr \<times> fss) option" where
  "read_chunk ahead sector so chunk sb s = (case get_cache sector s of
     Some ca \<Rightarrow> do { bs \<leftarrow> mem_slice (cdata ca) so chunk; Some (Some bs, sb, s) }
   | None \<Rightarrow>
       if so = 0 \<and> chunk = int BLOCK_SECTOR_SIZE
       then do {
         (bs, s) \<leftarrow> dev_read sector True s;
         s \<leftarrow> set_cache sector bs s;
         s \<leftarrow> (if ahead then inode_read_ahead sector s else Some s);
         Some (Some bs, sb, s) }
       else
         let (sb, s) = (if sb = NULL then malloc s else (sb, s)) in
         if sb = NULL then Some (None, sb, s)
         else do {
           (sbuf, s) \<leftarrow> dev_read sector True s;
           s \<leftarrow> set_cache sector sbuf s;
           bs \<leftarrow> mem_slice sbuf so chunk;
           s \<leftarrow> (if ahead then inode_read_ahead sector s else Some s);
           Some (Some bs, sb, s) })"

text \<open>The indirect block in memory after looking at number \<open>ibi\<close>.\<close>

definition fetch_indirect :: "u32 list \<Rightarrow> int \<Rightarrow> int \<Rightarrow> u32 list \<Rightarrow> fss \<Rightarrow> (u32 list \<times> fss) option" where
  "fetch_indirect dib last1 ibi ib s =
     (if last1 \<noteq> ibi
      then do { p \<leftarrow> block_ptr dib ibi; (bs, s) \<leftarrow> dev_read p False s; Some (bytes_words bs, s) }
      else Some (ib, s))"

definition chunk_size :: "int \<Rightarrow> int \<Rightarrow> int" where
  "chunk_size offset sz =
     (let bytes_left_in_sector = int BLOCK_SECTOR_SIZE - off_mod offset (int BLOCK_SECTOR_SIZE)
      in if bytes_left_in_sector < sz then bytes_left_in_sector else sz)"

lemma chunk_size_pos: "0 < sz \<Longrightarrow> 0 < chunk_size offset sz"
  using off_mod_less [of 512 offset] by (simp add: chunk_size_def Let_def BLOCK_SECTOR_SIZE_def)

function read_loop ::
  "bool \<Rightarrow> u32 list \<Rightarrow> int \<Rightarrow> u32 list \<Rightarrow> addr \<Rightarrow> int \<Rightarrow> int \<Rightarrow> byte list \<Rightarrow> fss \<Rightarrow> (byte list \<times> fss) option" where
  "read_loop ahead dib last1 ib sb sz offset buffer s =
     (if sz > 0
      then do {
        let so = off_mod offset (int BLOCK_SECTOR_SIZE);
        let sector_ind = off_div offset (int BLOCK_SECTOR_SIZE);
        let ibi = off_div sector_ind POINTER_BLOCK_POINTERS_COUNT;
        let chunk = chunk_size offset sz;
        (ib, s) \<leftarrow> fetch_indirect dib last1 ibi ib s;
        sector \<leftarrow> block_ptr ib (off_mod sector_ind POINTER_BLOCK_POINTERS_COUNT);
        (r, sb, s) \<leftarrow> read_chunk ahead sector so chunk sb s;
        (case r of
           None \<Rightarrow> Some (buffer, s)
         | Some bs \<Rightarrow> read_loop ahead dib ibi ib sb (sz - chunk) (offset + chunk) (buffer @ bs) s) }
      else Some (buffer, s))"
  by pat_completeness auto
termination
  by (relation "measure (\<lambda>(ahead, dib, last1, ib, sb, sz, offset, buffer, s). nat sz)")
    (auto dest: chunk_size_pos)

declare read_loop.simps [simp del]

definition inode_read :: "bool \<Rightarrow> addr \<Rightarrow> int \<Rightarrow> int \<Rightarrow> fss \<Rightarrow> (byte list \<times> fss) option" where
  "inode_read ahead p sz offset s = do {
     i \<leftarrow> inodes s p;
     let len = dk_length (i_data i);
     if offset > len then Some ([], s)
     else do {
       e \<leftarrow> cint (sz + offset);
       let sz = (if e > len then len - offset else sz);
       let (dbuf, s) = malloc s;
       if dbuf = NULL then Some ([], s)
       else do {
         let (ibuf, s) = malloc s;
         if ibuf = NULL then Some ([], s)
         else do {
           (bs, s) \<leftarrow> dev_read (double_indirect_block (i_data i)) False s;
           read_loop ahead (bytes_words bs) (- 1) [] NULL sz offset [] s } } } }"

text \<open>The two functions have the same text but for the call of \<open>inode_read_ahead\<close>.\<close>

definition inode_read_at :: "addr \<Rightarrow> int \<Rightarrow> int \<Rightarrow> fss \<Rightarrow> (byte list \<times> fss) option" where
  "inode_read_at p sz offset s = inode_read False p sz offset s"

definition inode_read_at_ahead :: "addr \<Rightarrow> int \<Rightarrow> int \<Rightarrow> fss \<Rightarrow> (byte list \<times> fss) option" where
  "inode_read_at_ahead p sz offset s = inode_read True p sz offset s"

section \<open>Writing\<close>

text \<open>One round of the write loop: whether the chunk was written, and the sector buffer.\<close>

definition write_chunk :: "nat \<Rightarrow> int \<Rightarrow> byte list \<Rightarrow> addr \<Rightarrow> fss \<Rightarrow> (bool \<times> addr \<times> fss) option" where
  "write_chunk sector so bs sb s = (case get_cache sector s of
     Some ca \<Rightarrow> do {
       assert_c (0 \<le> so \<and> so + int (length bs) \<le> int BLOCK_SECTOR_SIZE);
       Some (True, sb, update_cache (cid ca) bs (nat so) s) }
   | None \<Rightarrow>
       if so = 0 \<and> length bs = BLOCK_SECTOR_SIZE
       then do {
         s \<leftarrow> dev_write sector bs False s;
         s \<leftarrow> set_cache sector bs s;
         Some (True, sb, s) }
       else
         let (sb, s) = (if sb = NULL then malloc s else (sb, s)) in
         if sb = NULL then Some (False, sb, s)
         else do {
           (sbuf, s) \<leftarrow> dev_read sector True s;
           assert_c (0 \<le> so \<and> so + int (length bs) \<le> int (length sbuf));
           let sbuf = memcpy_at sbuf (nat so) bs;
           s \<leftarrow> dev_write sector sbuf False s;
           s \<leftarrow> set_cache sector sbuf s;
           Some (True, sb, s) })"

function write_loop ::
  "u32 list \<Rightarrow> int \<Rightarrow> u32 list \<Rightarrow> addr \<Rightarrow> byte list \<Rightarrow> int \<Rightarrow> int \<Rightarrow> int \<Rightarrow> fss \<Rightarrow> (int \<times> fss) option" where
  "write_loop dib last1 ib sb buffer sz offset bytes_written s =
     (if sz > 0
      then do {
        let so = off_mod offset (int BLOCK_SECTOR_SIZE);
        let sector_ind = off_div offset (int BLOCK_SECTOR_SIZE);
        let ibi = off_div sector_ind POINTER_BLOCK_POINTERS_COUNT;
        let chunk = chunk_size offset sz;
        (ib, s) \<leftarrow> fetch_indirect dib last1 ibi ib s;
        sector \<leftarrow> block_ptr ib (off_mod sector_ind POINTER_BLOCK_POINTERS_COUNT);
        bs \<leftarrow> mem_slice buffer bytes_written chunk;
        (ok, sb, s) \<leftarrow> write_chunk sector so bs sb s;
        if ok
        then write_loop dib ibi ib sb buffer (sz - chunk) (offset + chunk) (bytes_written + chunk) s
        else Some (bytes_written, s) }
      else Some (bytes_written, s))"
  by pat_completeness auto
termination
  by (relation "measure (\<lambda>(dib, last1, ib, sb, buffer, sz, offset, bytes_written, s). nat sz)")
    (auto dest: chunk_size_pos)

declare write_loop.simps [simp del]

definition inode_write_at ::
  "(byte list \<Rightarrow> nat \<Rightarrow> fss \<Rightarrow> (nat \<times> fss) option) \<Rightarrow> addr \<Rightarrow> byte list \<Rightarrow> int \<Rightarrow> int \<Rightarrow> fss \<Rightarrow> (int \<times> fss) option" where
  "inode_write_at fw p buffer sz offset s = do {
     i \<leftarrow> inodes s p;
     if deny_write_cnt i \<noteq> 0 then Some (0, s)
     else if sz = 0 then Some (0, s)
     else do {
       e \<leftarrow> cint (sz + offset);
       let sz = (if e > MAX_FILE_SIZE then MAX_FILE_SIZE - offset else sz);
       (ok, di, s) \<leftarrow> extend_inode_disk_to_size fw (i_sector i) (i_data i) (offset + sz) s;
       i \<leftarrow> inodes s p;
       let s = set_inode p (Some (i\<lparr>i_data := di\<rparr>)) s;
       if \<not> ok \<and> \<not> offset < dk_length di then Some (0, s)
       else do {
         let sz = (if ok then sz else dk_length di - offset);
         let (dbuf, s) = malloc s;
         if dbuf = NULL then Some (0, s)
         else do {
           let (ibuf, s) = malloc s;
           if ibuf = NULL then Some (0, s)
           else do {
             (bs, s) \<leftarrow> dev_read (double_indirect_block di) False s;
             write_loop (bytes_words bs) (- 1) [] NULL buffer sz offset 0 s } } } } }"

end
