(* ===== verification/File.thy ===== *)
theory File
  imports Inode
begin

text \<open>
  Open files (\<open>filesys/file.c\<close>) and the part of \<open>filesys/free-map.c\<close> that keeps the free map in
  a file. \<open>free_map_write\<close> is the write of the free map's file that the operations of \<open>Inode\<close> take as
  an argument: \<open>file_write_at\<close> on \<open>free_map_file\<close>. The file has its full size since
  \<open>free_map_create\<close>, so the inner \<open>inode_write_at\<close> has nothing to allocate; if it had, the nested
  write would be \<open>nested_write\<close>, \<open>None\<close>.
\<close>

section \<open>Writing the free map's file\<close>

definition nested_write :: "byte list \<Rightarrow> nat \<Rightarrow> fss \<Rightarrow> (nat \<times> fss) option" where
  "nested_write bs ofs s = None"

definition file_write_with ::
  "(byte list \<Rightarrow> nat \<Rightarrow> fss \<Rightarrow> (nat \<times> fss) option) \<Rightarrow> addr \<Rightarrow> byte list \<Rightarrow> int \<Rightarrow> int \<Rightarrow> fss \<Rightarrow> (int \<times> fss) option" where
  "file_write_with fw p buffer sz ofs s = do {
     f \<leftarrow> files s p;
     s \<leftarrow> inode_lock (f_inode f) s;
     (bytes_written, s) \<leftarrow> inode_write_at fw (f_inode f) buffer sz ofs s;
     s \<leftarrow> inode_unlock (f_inode f) s;
     Some (bytes_written, s) }"

definition free_map_write :: "byte list \<Rightarrow> nat \<Rightarrow> fss \<Rightarrow> (nat \<times> fss) option" where
  "free_map_write bs ofs s = do {
     (n, s) \<leftarrow> file_write_with nested_write (free_map_file s) bs (int (length bs)) (int ofs) s;
     Some (nat n, s) }"

section \<open>Files (file.c)\<close>

definition file_open :: "addr \<Rightarrow> fss \<Rightarrow> (addr \<times> fss) option" where
  "file_open ip s =
     (let (p, s) = malloc s in
      if ip \<noteq> NULL \<and> p \<noteq> NULL
      then Some (p, set_file p (Some \<lparr> f_inode = ip, f_pos = 0, f_deny_write = False \<rparr>) s)
      else do { s \<leftarrow> inode_close free_map_write ip s; Some (NULL, s) })"

definition file_reopen :: "addr \<Rightarrow> fss \<Rightarrow> (addr \<times> fss) option" where
  "file_reopen p s = do {
     f \<leftarrow> files s p;
     (ip, s) \<leftarrow> inode_reopen (f_inode f) s;
     file_open ip s }"

definition file_deny_write :: "addr \<Rightarrow> fss \<Rightarrow> fss option" where
  "file_deny_write p s = do {
     assert_c (p \<noteq> NULL);
     f \<leftarrow> files s p;
     if \<not> f_deny_write f
     then inode_deny_write (f_inode f) (set_file p (Some (f\<lparr>f_deny_write := True\<rparr>)) s)
     else Some s }"

definition file_allow_write :: "addr \<Rightarrow> fss \<Rightarrow> fss option" where
  "file_allow_write p s = do {
     assert_c (p \<noteq> NULL);
     f \<leftarrow> files s p;
     if f_deny_write f
     then inode_allow_write (f_inode f) (set_file p (Some (f\<lparr>f_deny_write := False\<rparr>)) s)
     else Some s }"

definition file_close :: "addr \<Rightarrow> fss \<Rightarrow> fss option" where
  "file_close p s =
     (if p \<noteq> NULL
      then do {
        s \<leftarrow> file_allow_write p s;
        f \<leftarrow> files s p;
        s \<leftarrow> inode_close free_map_write (f_inode f) s;
        Some (set_file p None s) }
      else Some s)"

definition file_get_inode :: "addr \<Rightarrow> fss \<Rightarrow> addr option" where
  "file_get_inode p s = map_option f_inode (files s p)"

definition file_read_at :: "addr \<Rightarrow> int \<Rightarrow> int \<Rightarrow> bool \<Rightarrow> fss \<Rightarrow> (byte list \<times> fss) option" where
  "file_read_at p sz ofs with_ahead s = do {
     f \<leftarrow> files s p;
     s \<leftarrow> inode_lock (f_inode f) s;
     (res, s) \<leftarrow> (if with_ahead then inode_read_at_ahead (f_inode f) sz ofs s
                  else inode_read_at (f_inode f) sz ofs s);
     s \<leftarrow> inode_unlock (f_inode f) s;
     Some (res, s) }"

definition file_read :: "addr \<Rightarrow> int \<Rightarrow> bool \<Rightarrow> fss \<Rightarrow> (byte list \<times> fss) option" where
  "file_read p sz with_ahead s = do {
     f \<leftarrow> files s p;
     s \<leftarrow> inode_lock (f_inode f) s;
     (res, s) \<leftarrow> (if with_ahead then inode_read_at_ahead (f_inode f) sz (f_pos f) s
                  else inode_read_at (f_inode f) sz (f_pos f) s);
     let s = set_file p (Some (f\<lparr>f_pos := f_pos f + int (length res)\<rparr>)) s;
     s \<leftarrow> inode_unlock (f_inode f) s;
     Some (res, s) }"

definition file_write :: "addr \<Rightarrow> byte list \<Rightarrow> int \<Rightarrow> fss \<Rightarrow> (int \<times> fss) option" where
  "file_write p buffer sz s = do {
     f \<leftarrow> files s p;
     s \<leftarrow> inode_lock (f_inode f) s;
     (bytes_written, s) \<leftarrow> inode_write_at free_map_write (f_inode f) buffer sz (f_pos f) s;
     let s = set_file p (Some (f\<lparr>f_pos := f_pos f + bytes_written\<rparr>)) s;
     s \<leftarrow> inode_unlock (f_inode f) s;
     Some (bytes_written, s) }"

definition file_write_at :: "addr \<Rightarrow> byte list \<Rightarrow> int \<Rightarrow> int \<Rightarrow> fss \<Rightarrow> (int \<times> fss) option" where
  "file_write_at p buffer sz file_ofs s = file_write_with free_map_write p buffer sz file_ofs s"

definition file_length :: "addr \<Rightarrow> fss \<Rightarrow> int option" where
  "file_length p s = do { assert_c (p \<noteq> NULL); f \<leftarrow> files s p; inode_length (f_inode f) s }"

definition file_seek :: "addr \<Rightarrow> int \<Rightarrow> fss \<Rightarrow> fss option" where
  "file_seek p new_pos s = do {
     assert_c (p \<noteq> NULL);
     assert_c (new_pos \<ge> 0);
     f \<leftarrow> files s p;
     Some (set_file p (Some (f\<lparr>f_pos := new_pos\<rparr>)) s) }"

definition file_tell :: "addr \<Rightarrow> fss \<Rightarrow> int option" where
  "file_tell p s = do { assert_c (p \<noteq> NULL); f \<leftarrow> files s p; Some (f_pos f) }"

section \<open>The free map as a file (free-map.c)\<close>

text \<open>\<open>mem\<close> is what the array that \<open>bitmap_create\<close> allocates holds.\<close>

definition free_map_init :: "u32 list \<Rightarrow> fss \<Rightarrow> fss option" where
  "free_map_init mem s = do {
     let (p, s) = malloc s;
     let (q, s) = (if p \<noteq> NULL then malloc s else (NULL, s));
     r \<leftarrow> bitmap_create (p \<noteq> NULL) (if q \<noteq> NULL then Some mem else None) (block_size (fs_device s));
     b \<leftarrow> r;
     b \<leftarrow> bitmap_mark b FREE_MAP_SECTOR;
     b \<leftarrow> bitmap_mark b ROOT_DIR_SECTOR;
     Some (s\<lparr>free_map := b\<rparr>) }"

definition free_map_open :: "fss \<Rightarrow> fss option" where
  "free_map_open s = do {
     (ip, s) \<leftarrow> inode_open FREE_MAP_SECTOR s;
     (p, s) \<leftarrow> file_open ip s;
     let s = s\<lparr>free_map_file := p\<rparr>;
     assert_c (p \<noteq> NULL);
     (ok, b, s) \<leftarrow> bitmap_read (\<lambda>n ofs. file_read_at p (int n) (int ofs) False) (free_map s) s;
     assert_c ok;
     Some (s\<lparr>free_map := b\<rparr>) }"

definition free_map_close :: "fss \<Rightarrow> fss option" where
  "free_map_close s = file_close (free_map_file s) s"

definition free_map_create :: "fss \<Rightarrow> fss option" where
  "free_map_create s = do {
     (ok, s) \<leftarrow> inode_create free_map_write FREE_MAP_SECTOR (int (bitmap_file_size (free_map s))) 0 s;
     assert_c ok;
     (ip, s) \<leftarrow> inode_open FREE_MAP_SECTOR s;
     (p, s) \<leftarrow> file_open ip s;
     let s = s\<lparr>free_map_file := p\<rparr>;
     assert_c (p \<noteq> NULL);
     (ok, s) \<leftarrow> bitmap_write free_map_write (free_map s) s;
     assert_c ok;
     Some s }"

end
