(* ===== verification/Directory.thy ===== *)
theory Directory
  imports File
begin

text \<open>
  Directories (\<open>filesys/directory.c\<close>): a directory is a file of entries of 20 bytes. A name is the
  list of the bytes of a C string before its null byte. The loops over the entries end at the end of
  the file; that they do is a lemma, so they are partial functions here.
\<close>

section \<open>Entries (directory.h)\<close>

definition NAME_MAX :: nat where
  "NAME_MAX = 14"

record dir_entry =
  inode_sector :: nat
  de_name :: "byte list"
  in_use :: bool

definition sizeof_entry :: int where
  "sizeof_entry = 20"

definition decode_entry :: "byte list \<Rightarrow> dir_entry" where
  "decode_entry bs = \<lparr> inode_sector = unat (bytes_word (bs ! 0) (bs ! 1) (bs ! 2) (bs ! 3)),
     de_name = take (NAME_MAX + 1) (drop 4 bs), in_use = (bs ! 19 \<noteq> 0) \<rparr>"

definition encode_entry :: "dir_entry \<Rightarrow> byte list" where
  "encode_entry e = word_bytes (word_of_nat (inode_sector e)) @ de_name e @ [if in_use e then 1 else 0]"

text \<open>
  \<open>strcmp (s, bs) == 0\<close> for a string \<open>s\<close> (without its null byte) and the bytes of an array, and the
  string in an array; \<open>None\<close> if the comparison runs past its end.
\<close>

fun str_eq :: "byte list \<Rightarrow> byte list \<Rightarrow> bool option" where
  "str_eq [] (b # bs) = Some (b = 0)"
| "str_eq (a # as) (b # bs) = (if a = b then str_eq as bs else Some False)"
| "str_eq as [] = None"

definition str_of :: "byte list \<Rightarrow> byte list option" where
  "str_of bs = (if 0 \<in> set bs then Some (takeWhile (\<lambda>b. b \<noteq> 0) bs) else None)"

definition dot :: "byte list" where
  "dot = [46]"

definition dotdot :: "byte list" where
  "dotdot = [46, 46]"

section \<open>Opening and closing (directory.c)\<close>

definition dir_create :: "nat \<Rightarrow> nat \<Rightarrow> fss \<Rightarrow> (bool \<times> fss) option" where
  "dir_create sector entry_cnt s = inode_create free_map_write sector (int entry_cnt * sizeof_entry) 1 s"

definition dir_open :: "addr \<Rightarrow> fss \<Rightarrow> (addr \<times> fss) option" where
  "dir_open ip s =
     (let (p, s) = malloc s in
      if ip \<noteq> NULL \<and> p \<noteq> NULL
      then Some (p, set_dir p (Some \<lparr> d_inode = ip, d_pos = 0 \<rparr>) s)
      else do { s \<leftarrow> inode_close free_map_write ip s; Some (NULL, s) })"

definition dir_open_root :: "fss \<Rightarrow> (addr \<times> fss) option" where
  "dir_open_root s = do { (ip, s) \<leftarrow> inode_open ROOT_DIR_SECTOR s; dir_open ip s }"

definition dir_reopen :: "addr \<Rightarrow> fss \<Rightarrow> (addr \<times> fss) option" where
  "dir_reopen p s = do {
     d \<leftarrow> dirs s p;
     (ip, s) \<leftarrow> inode_reopen (d_inode d) s;
     dir_open ip s }"

definition dir_close :: "addr \<Rightarrow> fss \<Rightarrow> fss option" where
  "dir_close p s =
     (if p \<noteq> NULL
      then do {
        d \<leftarrow> dirs s p;
        s \<leftarrow> inode_close free_map_write (d_inode d) s;
        Some (set_dir p None s) }
      else Some s)"

definition dir_get_inode :: "addr \<Rightarrow> fss \<Rightarrow> addr option" where
  "dir_get_inode p s = map_option d_inode (dirs s p)"

section \<open>Looking up\<close>

partial_function (option) lookup_loop ::
  "addr \<Rightarrow> byte list \<Rightarrow> int \<Rightarrow> fss \<Rightarrow> ((dir_entry \<times> int) option \<times> fss) option" where
  "lookup_loop ip name ofs s = do {
     (bs, s) \<leftarrow> inode_read_at ip sizeof_entry ofs s;
     if int (length bs) = sizeof_entry
     then do {
       eq \<leftarrow> (if in_use (decode_entry bs) then str_eq name (drop 4 bs) else Some False);
       if eq then Some (Some (decode_entry bs, ofs), s)
       else lookup_loop ip name (ofs + sizeof_entry) s }
     else Some (None, s) }"

text \<open>The entry found and its offset, or \<open>None\<close> for \<open>false\<close>.\<close>

definition lookup :: "addr \<Rightarrow> byte list \<Rightarrow> fss \<Rightarrow> ((dir_entry \<times> int) option \<times> fss) option" where
  "lookup p name s = do {
     assert_c (p \<noteq> NULL);
     d \<leftarrow> dirs s p;
     lookup_loop (d_inode d) name 0 s }"

definition dir_lookup :: "addr \<Rightarrow> byte list \<Rightarrow> fss \<Rightarrow> (bool \<times> addr \<times> fss) option" where
  "dir_lookup p name s = do {
     (r, s) \<leftarrow> lookup p name s;
     (ip, s) \<leftarrow> (case r of Some (e, ofs) \<Rightarrow> inode_open (inode_sector e) s | None \<Rightarrow> Some (NULL, s));
     Some (ip \<noteq> NULL, ip, s) }"

section \<open>Adding and removing\<close>

text \<open>The search for a free slot: its offset and the bytes that the local \<open>e\<close> then holds.\<close>

partial_function (option) slot_loop :: "addr \<Rightarrow> int \<Rightarrow> byte list \<Rightarrow> fss \<Rightarrow> (int \<times> byte list \<times> fss) option" where
  "slot_loop ip ofs e s = do {
     (bs, s) \<leftarrow> inode_read_at ip sizeof_entry ofs s;
     let e = bs @ drop (length bs) e;
     if int (length bs) = sizeof_entry
     then if \<not> in_use (decode_entry e) then Some (ofs, e, s) else slot_loop ip (ofs + sizeof_entry) e s
     else Some (ofs, e, s) }"

text \<open>\<open>strlcpy\<close> of a name of at most \<open>NAME_MAX\<close> bytes into the array of an entry.\<close>

definition put_name :: "byte list \<Rightarrow> byte list \<Rightarrow> byte list" where
  "put_name name old = memcpy_at old 0 (name @ [0])"

definition dir_add :: "addr \<Rightarrow> byte list \<Rightarrow> nat \<Rightarrow> fss \<Rightarrow> (bool \<times> fss) option" where
  "dir_add p name sector s = do {
     assert_c (p \<noteq> NULL);
     d \<leftarrow> dirs s p;
     let ip = d_inode d;
     s \<leftarrow> inode_lock ip s;
     if name = [] \<or> length name > NAME_MAX then Some (False, s)
     else do {
       (r, s) \<leftarrow> lookup p name s;
       if r \<noteq> None
       then do { s \<leftarrow> inode_unlock ip s; Some (False, s) }
       else do {
         (ofs, e, s) \<leftarrow> slot_loop ip 0 (uninit s) s;
         let e = \<lparr> inode_sector = sector, de_name = put_name name (de_name (decode_entry e)), in_use = True \<rparr>;
         (n, s) \<leftarrow> inode_write_at free_map_write ip (encode_entry e) sizeof_entry ofs s;
         s \<leftarrow> inode_unlock ip s;
         Some (n = sizeof_entry, s) } } }"

partial_function (option) empty_loop :: "addr \<Rightarrow> int \<Rightarrow> fss \<Rightarrow> (bool \<times> fss) option" where
  "empty_loop ip pos s = do {
     (bs, s) \<leftarrow> inode_read_at ip sizeof_entry pos s;
     if int (length bs) = sizeof_entry
     then do {
       other \<leftarrow> (if in_use (decode_entry bs)
                then do {
                  is_dot \<leftarrow> str_eq dot (drop 4 bs);
                  if is_dot then Some False
                  else do { is_dotdot \<leftarrow> str_eq dotdot (drop 4 bs); Some (\<not> is_dotdot) } }
                else Some False);
       if other then Some (False, s) else empty_loop ip (pos + sizeof_entry) s }
     else Some (True, s) }"

definition is_dir_empty :: "addr \<Rightarrow> fss \<Rightarrow> (bool \<times> fss) option" where
  "is_dir_empty p s = do { d \<leftarrow> dirs s p; empty_loop (d_inode d) 0 s }"

text \<open>The checks of \<open>dir_remove\<close> on a directory: whether it may be removed.\<close>

definition removable_dir :: "addr \<Rightarrow> fss \<Rightarrow> (bool \<times> fss) option" where
  "removable_dir ip s = do {
     (q, s) \<leftarrow> inode_reopen ip s;
     (dp, s) \<leftarrow> dir_open q s;
     (is_empty, s) \<leftarrow> is_dir_empty dp s;
     s \<leftarrow> dir_close dp s;
     if \<not> is_empty then Some (False, s)
     else do { i \<leftarrow> inodes s ip; Some (\<not> open_cnt i > 1, s) } }"

definition dir_remove :: "addr \<Rightarrow> byte list \<Rightarrow> fss \<Rightarrow> (bool \<times> fss) option" where
  "dir_remove p name s = do {
     assert_c (p \<noteq> NULL);
     d \<leftarrow> dirs s p;
     s \<leftarrow> inode_lock (d_inode d) s;
     (r, s) \<leftarrow> lookup p name s;
     (case r of
        None \<Rightarrow> do { s \<leftarrow> inode_unlock (d_inode d) s; Some (False, s) }
      | Some (e, ofs) \<Rightarrow> do {
          (ip, s) \<leftarrow> inode_open (inode_sector e) s;
          (success, s) \<leftarrow>
            (if ip = NULL then Some (False, s)
             else do {
               i \<leftarrow> inodes s ip;
               if i_sector i = ROOT_DIR_SECTOR then Some (False, s)
               else do {
                 (go, s) \<leftarrow> (if dk_isDir (i_data i) \<noteq> 0 then removable_dir ip s else Some (True, s));
                 if \<not> go then Some (False, s)
                 else do {
                   (n, s) \<leftarrow> inode_write_at free_map_write (d_inode d) (encode_entry (e\<lparr>in_use := False\<rparr>)) sizeof_entry ofs s;
                   if n \<noteq> sizeof_entry then Some (False, s)
                   else do { s \<leftarrow> inode_remove ip s; Some (True, s) } } } });
          s \<leftarrow> inode_close free_map_write ip s;
          s \<leftarrow> inode_unlock (d_inode d) s;
          Some (success, s) }) }"

text \<open>The name returned, or \<open>None\<close> for \<open>false\<close>.\<close>

partial_function (option) dir_readdir :: "addr \<Rightarrow> fss \<Rightarrow> (byte list option \<times> fss) option" where
  "dir_readdir p s = do {
     d \<leftarrow> dirs s p;
     (bs, s) \<leftarrow> inode_read_at (d_inode d) sizeof_entry (d_pos d) s;
     if int (length bs) = sizeof_entry
     then do {
       let s = set_dir p (Some (d\<lparr>d_pos := d_pos d + sizeof_entry\<rparr>)) s;
       is_dot \<leftarrow> str_eq dot (drop 4 bs);
       is_dotdot \<leftarrow> (if is_dot then Some False else str_eq dotdot (drop 4 bs));
       if is_dot \<or> is_dotdot then dir_readdir p s
       else if in_use (decode_entry bs)
       then do { name \<leftarrow> str_of (drop 4 bs); Some (Some (take NAME_MAX name), s) }
       else dir_readdir p s }
     else Some (None, s) }"

end
