(* ===== verification/Filesys.thy ===== *)
theory Filesys
  imports Directory
begin

text \<open>
  The file system's interface (\<open>filesys/filesys.c\<close>) and file descriptors
  (\<open>filesys/file-descriptor.c\<close>). A path is the list of the bytes of a C string before its null byte;
  memory that only holds such a string is allocated but not given an address.
\<close>

section \<open>Paths (filesys.c)\<close>

definition slash :: byte where
  "slash = 47"

definition is_root_path :: "byte list \<Rightarrow> bool" where
  "is_root_path path = (if length path = 0 then False else dropWhile (\<lambda>b. b = slash) path = [])"

text \<open>Copying a component: \<open>None\<close> if it is longer than \<open>NAME_MAX\<close>, else the component and the rest.\<close>

fun copy_token :: "byte list \<Rightarrow> byte list \<Rightarrow> (byte list \<times> byte list) option" where
  "copy_token tok [] = Some (tok, [])"
| "copy_token tok (b # path) =
     (if b = slash then Some (tok, b # path)
      else if length tok = NAME_MAX then None
      else copy_token (tok @ [b]) path)"

text \<open>The value returned, the token (\<open>[]\<close> for a null pointer), the rest of the path.\<close>

definition get_path_next_token :: "byte list \<Rightarrow> fss \<Rightarrow> int \<times> byte list \<times> byte list \<times> fss" where
  "get_path_next_token ptr s =
     (let (t, s) = malloc s in
      if t = NULL then (- 1, [], ptr, s)
      else let path = dropWhile (\<lambda>b. b = slash) ptr in
      if path = [] then (0, [], ptr, s)
      else case copy_token [] path of
        None \<Rightarrow> (- 1, [], ptr, s)
      | Some (token, path) \<Rightarrow> (1, token, path, s))"

definition get_working_directory :: "fss \<Rightarrow> (addr \<times> fss) option" where
  "get_working_directory s =
     (if working_directory s \<noteq> NULL then Some (working_directory s, s)
      else do { (dp, s) \<leftarrow> dir_open_root s; Some (dp, s\<lparr>working_directory := dp\<rparr>) })"

definition get_path_initial_directory :: "byte list \<Rightarrow> fss \<Rightarrow> (addr \<times> fss) option" where
  "get_path_initial_directory path s =
     (if path \<noteq> [] \<and> hd path = slash then dir_open_root s
      else do { (wd, s) \<leftarrow> get_working_directory s; dir_reopen wd s })"

definition path_fail :: "addr \<Rightarrow> addr \<Rightarrow> fss \<Rightarrow> ((addr \<times> byte list option \<times> addr) \<times> fss) option" where
  "path_fail dp mid s = do {
     s \<leftarrow> inode_close free_map_write mid s;
     s \<leftarrow> dir_close dp s;
     Some ((NULL, None, NULL), s) }"

text \<open>
  The loop of \<open>get_name_and_dir_from_path\<close>. \<open>want\<close> says that the caller asks for the name and the
  directory; the result is the inode, the name and the directory.
\<close>

partial_function (option) path_loop ::
  "bool \<Rightarrow> byte list \<Rightarrow> addr \<Rightarrow> addr \<Rightarrow> byte list \<Rightarrow> fss \<Rightarrow> ((addr \<times> byte list option \<times> addr) \<times> fss) option" where
  "path_loop want path dp mid token s =
     (if dp = NULL then path_fail dp mid s
      else do {
        (found, mid, s) \<leftarrow> dir_lookup dp token s;
        let (ret, next, path, s) = get_path_next_token path s;
        if ret < 0 then path_fail dp mid s
        else if ret = 0 then do {
          let ip = (if found then mid else NULL);
          ((name, fd), s) \<leftarrow>
            (if want
             then do {
               let (np, s) = malloc s;
               assert_c (np \<noteq> NULL);
               (fd, s) \<leftarrow> dir_reopen dp s;
               Some ((Some token, fd), s) }
             else Some ((None, NULL), s));
          s \<leftarrow> dir_close dp s;
          Some ((ip, name, fd), s) }
        else if \<not> found then path_fail dp mid s
        else do {
          i \<leftarrow> inodes s mid;
          if dk_isDir (i_data i) = 0 then path_fail dp mid s
          else do {
            s \<leftarrow> dir_close dp s;
            (dp, s) \<leftarrow> dir_open mid s;
            path_loop want path dp mid next s } } })"

definition get_name_and_dir_from_path ::
  "bool \<Rightarrow> byte list \<Rightarrow> fss \<Rightarrow> ((addr \<times> byte list option \<times> addr) \<times> fss) option" where
  "get_name_and_dir_from_path want path s =
     (if is_root_path path
      then do {
        ((name, fd), s) \<leftarrow>
          (if want
           then do {
             (fd, s) \<leftarrow> dir_open_root s;
             let (np, s) = malloc s;
             assert_c (np \<noteq> NULL);
             Some ((Some [], fd), s) }
           else Some ((None, NULL), s));
        (ip, s) \<leftarrow> inode_open ROOT_DIR_SECTOR s;
        Some ((ip, name, fd), s) }
      else do {
        (dp, s) \<leftarrow> get_path_initial_directory path s;
        if dp = NULL then path_fail dp NULL s
        else do {
          let (ret, token, path, s) = get_path_next_token path s;
          if ret \<le> 0 then path_fail dp NULL s
          else path_loop want path dp NULL token s } })"

section \<open>Creating, opening, removing\<close>

text \<open>The chain of calls joined by \<open>&&\<close>: \<open>success\<close> and \<open>inode_sector\<close>.\<close>

definition create_inode_entry :: "byte list \<Rightarrow> int \<Rightarrow> addr \<Rightarrow> u32 \<Rightarrow> fss \<Rightarrow> ((bool \<times> nat) \<times> fss) option" where
  "create_inode_entry name initial_size dp isDir s =
     (if dp = NULL then Some ((False, 0), s)
      else do {
        (r, s) \<leftarrow> free_map_allocate free_map_write 1 s;
        (case r of
           None \<Rightarrow> Some ((False, 0), s)
         | Some sector \<Rightarrow> do {
             (ok, s) \<leftarrow> inode_create free_map_write sector initial_size isDir s;
             if \<not> ok then Some ((False, sector), s)
             else do { (ok, s) \<leftarrow> dir_add dp name sector s; Some ((ok, sector), s) } }) })"

definition filesys_create_name :: "byte list \<Rightarrow> int \<Rightarrow> addr \<Rightarrow> bool \<Rightarrow> fss \<Rightarrow> (bool \<times> fss) option" where
  "filesys_create_name name initial_size dp isDir s = do {
     ((success, sector), s) \<leftarrow> create_inode_entry name initial_size dp (if isDir then 1 else 0) s;
     (success, s) \<leftarrow>
       (if \<not> success \<and> sector \<noteq> 0
        then do { s \<leftarrow> free_map_release free_map_write sector 1 s; Some (success, s) }
        else if isDir
        then do {
          (ip, s) \<leftarrow> inode_open sector s;
          (new_dir, s) \<leftarrow> dir_open ip s;
          (ok1, s) \<leftarrow> dir_add new_dir dot sector s;
          d \<leftarrow> dirs s dp;
          i \<leftarrow> inodes s (d_inode d);
          (ok2, s) \<leftarrow> dir_add new_dir dotdot (i_sector i) s;
          let success = (success \<and> ok1 \<and> ok2);
          s \<leftarrow> dir_close new_dir s;
          if \<not> success then do { (ok, s) \<leftarrow> dir_remove dp name s; Some (success, s) }
          else Some (success, s) }
        else Some (success, s));
     s \<leftarrow> dir_close dp s;
     Some (success, s) }"

definition filesys_create :: "byte list \<Rightarrow> int \<Rightarrow> bool \<Rightarrow> fss \<Rightarrow> (bool \<times> fss) option" where
  "filesys_create path initial_size isDir s = do {
     ((ip, name, dp), s) \<leftarrow> get_name_and_dir_from_path True path s;
     if ip \<noteq> NULL then Some (False, s)
     else if dp = NULL then Some (False, s)
     else do { nm \<leftarrow> name; filesys_create_name nm initial_size dp isDir s } }"

definition filesys_open_name :: "byte list \<Rightarrow> fss \<Rightarrow> (addr \<times> fss) option" where
  "filesys_open_name name s = do {
     (dp, s) \<leftarrow> dir_open_root s;
     (ip, s) \<leftarrow> (if dp \<noteq> NULL then do { (ok, ip, s) \<leftarrow> dir_lookup dp name s; Some (ip, s) } else Some (NULL, s));
     s \<leftarrow> dir_close dp s;
     file_open ip s }"

definition filesys_open :: "byte list \<Rightarrow> fss \<Rightarrow> (addr \<times> fss) option" where
  "filesys_open path s = do {
     ((ip, name, dp), s) \<leftarrow> get_name_and_dir_from_path False path s;
     file_open ip s }"

definition filesys_remove_name :: "byte list \<Rightarrow> addr \<Rightarrow> fss \<Rightarrow> (bool \<times> fss) option" where
  "filesys_remove_name name dp s = do {
     (success, s) \<leftarrow> (if dp \<noteq> NULL then dir_remove dp name s else Some (False, s));
     s \<leftarrow> dir_close dp s;
     Some (success, s) }"

definition filesys_remove :: "byte list \<Rightarrow> fss \<Rightarrow> (bool \<times> fss) option" where
  "filesys_remove path s = do {
     ((ip, name, dp), s) \<leftarrow> get_name_and_dir_from_path True path s;
     s \<leftarrow> inode_close free_map_write ip s;
     filesys_remove_name (case name of Some n \<Rightarrow> n | None \<Rightarrow> []) dp s }"

section \<open>Start and shutdown\<close>

definition do_format :: "fss \<Rightarrow> fss option" where
  "do_format s = do {
     s \<leftarrow> free_map_create s;
     (ok, s) \<leftarrow> dir_create ROOT_DIR_SECTOR 16 s;
     assert_c ok;
     (ip, s) \<leftarrow> inode_open ROOT_DIR_SECTOR s;
     (new_dir, s) \<leftarrow> dir_open ip s;
     (ok, s) \<leftarrow> dir_add new_dir dot ROOT_DIR_SECTOR s;
     (ok, s) \<leftarrow> (if ok then dir_add new_dir dotdot ROOT_DIR_SECTOR s else Some (False, s));
     s \<leftarrow> dir_close new_dir s;
     assert_c ok;
     free_map_close s }"

text \<open>\<open>dev\<close> is the device with the role \<open>BLOCK_FILESYS\<close>, if there is one.\<close>

definition filesys_init :: "block option \<Rightarrow> u32 list \<Rightarrow> bool \<Rightarrow> fss \<Rightarrow> fss option" where
  "filesys_init dev mem format s = do {
     d \<leftarrow> dev;
     let s = inode_init (s\<lparr>fs_device := d\<rparr>);
     s \<leftarrow> free_map_init mem s;
     s \<leftarrow> (if format then do_format s else Some s);
     free_map_open s }"

definition filesys_done :: "fss \<Rightarrow> fss option" where
  "filesys_done s = do { s \<leftarrow> write_back_all_cache s; free_map_close s }"

section \<open>File descriptors (file-descriptor.c)\<close>

definition MAX_FD :: int where
  "MAX_FD = 1025"

definition FIRST_FD :: int where
  "FIRST_FD = 2"

definition allocate_fd_number :: "fss \<Rightarrow> int \<times> fss" where
  "allocate_fd_number s = (thread_fd_counter s, s\<lparr>thread_fd_counter := thread_fd_counter s + 1\<rparr>)"

definition is_valid_fd :: "int \<Rightarrow> int" where
  "is_valid_fd fd = (if fd > MAX_FD then - 1 else if fd < FIRST_FD then - 1 else fd)"

definition get_file_from_current_thread :: "int \<Rightarrow> fss \<Rightarrow> file_descriptor option" where
  "get_file_from_current_thread fd s = find (\<lambda>f. fd_num f = fd) (fd_list s)"

definition remove_file :: "byte list \<Rightarrow> fss \<Rightarrow> (bool \<times> fss) option" where
  "remove_file file_name s = filesys_remove file_name s"

definition create_file :: "byte list \<Rightarrow> int \<Rightarrow> fss \<Rightarrow> (bool \<times> fss) option" where
  "create_file name initial_size s = filesys_create name initial_size False s"

definition close_fd :: "int \<Rightarrow> bool \<Rightarrow> fss \<Rightarrow> (bool \<times> fss) option" where
  "close_fd fd remove_from_fd_list s =
     (let fd = is_valid_fd fd in
      if fd \<noteq> - 1
      then case get_file_from_current_thread fd s of
        None \<Rightarrow> Some (False, s)
      | Some f \<Rightarrow> do {
          s \<leftarrow> file_close (fd_file f) s;
          s \<leftarrow> (if fd_dir f \<noteq> NULL then dir_close (fd_dir f) s else Some s);
          Some (True, if remove_from_fd_list then s\<lparr>fd_list := remove1 f (fd_list s)\<rparr> else s) }
      else Some (False, s))"

text \<open>The descriptor created, or \<open>None\<close> for the null pointer.\<close>

definition create_file_descriptor :: "byte list \<Rightarrow> fss \<Rightarrow> (file_descriptor option \<times> fss) option" where
  "create_file_descriptor file_name s = do {
     (o_file, s) \<leftarrow> filesys_open file_name s;
     if o_file \<noteq> NULL
     then do {
       let (page, s) = malloc s;
       if page \<noteq> NULL
       then do {
         let (fd, s) = allocate_fd_number s;
         f \<leftarrow> files s o_file;
         i \<leftarrow> inodes s (f_inode f);
         (dp, s) \<leftarrow>
           (if dk_isDir (i_data i) \<noteq> 0
            then do { (ip, s) \<leftarrow> inode_reopen (f_inode f) s; dir_open ip s }
            else Some (NULL, s));
         let f_d = \<lparr> fd_file = o_file, fd_dir = dp, fd_file_name = file_name, fd_num = fd \<rparr>;
         Some (Some f_d, s\<lparr>fd_list := fd_list s @ [f_d]\<rparr>) }
       else Some (None, s) }
     else Some (None, s) }"

definition fd_isdir :: "int \<Rightarrow> fss \<Rightarrow> bool" where
  "fd_isdir fd s =
     (let fd = is_valid_fd fd in
      if fd = - 1 then False
      else case get_file_from_current_thread fd s of None \<Rightarrow> False | Some f \<Rightarrow> fd_dir f \<noteq> NULL)"

text \<open>An \<open>unsigned\<close> passed for an \<open>off_t\<close>.\<close>

definition to_off_t :: "u32 \<Rightarrow> int" where
  "to_off_t n = sint n"

definition fd_write :: "int \<Rightarrow> byte list \<Rightarrow> u32 \<Rightarrow> fss \<Rightarrow> (int \<times> fss) option" where
  "fd_write fd buffer n s =
     (let fd = is_valid_fd fd in
      if fd \<noteq> - 1 \<and> \<not> fd_isdir fd s
      then case get_file_from_current_thread fd s of
        None \<Rightarrow> Some (- 1, s)
      | Some f \<Rightarrow> file_write (fd_file f) buffer (to_off_t n) s
      else Some (- 1, s))"

text \<open>The count returned and the bytes read.\<close>

definition fd_read :: "int \<Rightarrow> u32 \<Rightarrow> bool \<Rightarrow> fss \<Rightarrow> (int \<times> byte list \<times> fss) option" where
  "fd_read fd n with_ahead s =
     (let fd = is_valid_fd fd in
      if fd \<noteq> - 1 \<and> \<not> fd_isdir fd s
      then case get_file_from_current_thread fd s of
        None \<Rightarrow> Some (- 1, [], s)
      | Some f \<Rightarrow> do {
          (bs, s) \<leftarrow> file_read (fd_file f) (to_off_t n) with_ahead s;
          Some (int (length bs), bs, s) }
      else Some (- 1, [], s))"

definition size_file :: "int \<Rightarrow> fss \<Rightarrow> int option" where
  "size_file fd s = (case get_file_from_current_thread fd s of
     None \<Rightarrow> Some (- 1) | Some f \<Rightarrow> file_length (fd_file f) s)"

definition seek_file :: "int \<Rightarrow> u32 \<Rightarrow> fss \<Rightarrow> fss option" where
  "seek_file fd position s = (case get_file_from_current_thread fd s of
     None \<Rightarrow> Some s | Some f \<Rightarrow> file_seek (fd_file f) (to_off_t position) s)"

definition tell_file :: "int \<Rightarrow> fss \<Rightarrow> u32 option" where
  "tell_file fd s = (case get_file_from_current_thread fd s of
     None \<Rightarrow> Some (- 1) | Some f \<Rightarrow> map_option word_of_int (file_tell (fd_file f) s))"

definition read_dir :: "file_descriptor \<Rightarrow> fss \<Rightarrow> (byte list option \<times> fss) option" where
  "read_dir f s = (if fd_dir f \<noteq> NULL then dir_readdir (fd_dir f) s else Some (None, s))"

definition fd_readdir :: "int \<Rightarrow> fss \<Rightarrow> (byte list option \<times> fss) option" where
  "fd_readdir fd s =
     (let fd = is_valid_fd fd in
      if fd \<noteq> - 1
      then case get_file_from_current_thread fd s of None \<Rightarrow> Some (None, s) | Some f \<Rightarrow> read_dir f s
      else Some (None, s))"

definition ch_dir :: "byte list \<Rightarrow> fss \<Rightarrow> (bool \<times> fss) option" where
  "ch_dir path s = do {
     ((ip, name, dp), s) \<leftarrow> get_name_and_dir_from_path False path s;
     if ip = NULL then Some (False, s)
     else do {
       i \<leftarrow> inodes s ip;
       if dk_isDir (i_data i) = 0 then Some (False, s)
       else do {
         (old_dir, s) \<leftarrow> get_working_directory s;
         (wd, s) \<leftarrow> dir_open ip s;
         s \<leftarrow> dir_close old_dir (s\<lparr>working_directory := wd\<rparr>);
         Some (True, s) } } }"

definition mk_dir :: "byte list \<Rightarrow> fss \<Rightarrow> (bool \<times> fss) option" where
  "mk_dir path s = filesys_create path 0 True s"

definition fd_get_inumber :: "int \<Rightarrow> fss \<Rightarrow> int option" where
  "fd_get_inumber fd s =
     (let fd = is_valid_fd fd in
      if fd = - 1 then Some (- 1)
      else do {
        fd_rec \<leftarrow> get_file_from_current_thread fd s;
        f \<leftarrow> files s (fd_file fd_rec);
        i \<leftarrow> inodes s (f_inode f);
        Some (int (i_sector i)) })"

end
