(* ===== verification/Spec2Isabelle.thy ===== *)
theory Spec2Isabelle
  imports Kernel_List_Sort Bitmap Cache Arithmetic Hash Stdio Races Filesys
begin

text \<open>
  A verification of the Pintos kernel, the teaching operating system under src/pintos/src (C). Paths
  below are relative to that directory.

  \<^bold>\<open>The program and its parts.\<close>
  The kernel runs threads on one processor. \<open>threads/thread.c\<close> keeps every thread, the ready threads
  and the running thread and chooses what runs next; \<open>threads/synch.c\<close> blocks and wakes threads on
  semaphores, locks (with priority donation) and condition variables; \<open>devices/timer.c\<close> puts threads
  to sleep and wakes them from the timer interrupt, which \<open>threads/interrupt.c\<close> dispatches. The
  file system (\<open>filesys/\<close>) stores files and directories in sectors; below it are \<open>devices/block.c\<close> and \<open>devices/partition.c\<close> (sectors of devices and of their
  partitions) and \<open>filesys/cache.c\<close> (a cache of sectors with the clock algorithm). All of them are
  built on \<open>lib/\<close>: intrusive doubly linked lists, bitmaps, hash tables, strings, sorting, formatted
  output and the 64-bit arithmetic that the compiler calls.

  \<^bold>\<open>Conventions.\<close>
  A C function is a HOL function of the same name that takes and returns the state it changes. A
  failed \<open>ASSERT\<close>, a \<open>PANIC\<close>, an access that no object backs and a loop that does not end are
  \<open>None\<close>; an error value of the C code is an ordinary value. Pointers are natural numbers with
  \<open>NULL\<close> = 0. Loops are recursive functions with a termination proof, or \<open>partial_function
  (option)\<close> where the source's loop may run for ever; no fuel is used except \<open>run\<close> (below).
  Memory allocation is an input of the model: an operation that calls \<open>malloc\<close> or
  \<open>palloc_get_page\<close> has one branch for success and one for failure.

  \<^bold>\<open>The library theories.\<close>
  \<^item> \<open>Prelude\<close>, \<open>Encoding\<close>: addresses, assertions, \<open>lib/round.h\<close>, wrapping sizes, byte order.
  \<^item> \<open>Kernel_List\<close>, \<open>Kernel_List_Sort\<close> (\<open>lib/kernel/list.c\<close>): the pointer-level lists over a heap of
    \<open>prev\<close>/\<open>next\<close> links, with the invariant that a heap region represents a sequence; every
    operation refines the operation on the sequence, and the in-place merge sort sorts stably.
  \<^item> \<open>Bitmap\<close> (\<open>lib/kernel/bitmap.c\<close>): every operation is the one on the list of bits; scanning
    finds the first free run, extents handed out are disjoint, files written are read back.
  \<^item> \<open>Arithmetic\<close> (\<open>lib/arithmetic.c\<close>), \<open>Cstring\<close> (\<open>lib/string.c\<close>, \<open>lib/ctype.h\<close>), \<open>Stdlib\<close>
    (\<open>lib/stdlib.c\<close>), \<open>Hash\<close> (\<open>lib/kernel/hash.c\<close>), \<open>Stdio\<close> (\<open>lib/stdio.c\<close>): byte-level strings and
    their bounds, heap sort, binary search, \<open>atoi\<close>, the hash table as a finite map, \<open>printf\<close>.

  \<^bold>\<open>Storage.\<close>
  \<^item> \<open>Block\<close> (\<open>devices/block.c\<close>, \<open>devices/partition.c\<close>): the locale \<open>sector_store\<close> is the contract of
    a device (a read returns what was last written, other sectors keep their contents); it is
    interpreted on whole devices and on partitions.
  \<^item> \<open>Cache\<close> (\<open>filesys/cache.c\<close>): the cache is transparent (what a client sees through it is the
    disk with its writes applied), eviction ends within two turns of the clock hand, flushing writes
    every dirty block; an exact run shows the lost update of writing back a stale block.

  \<^item> \<open>Fs_State\<close>, \<open>Inode\<close>, \<open>File\<close>, \<open>Directory\<close>, \<open>Filesys\<close> (\<open>filesys/\<close>): inodes with a double indirect
    block, the free map and its own file, open files, directories, paths, file descriptors. A file
    system operation runs from its call to its return, as one thread does alone; the lock of an
    inode is held or free. Allocating a sector writes the free map's file, which is written with the
    same functions: \<open>Inode\<close> takes that write as a parameter and \<open>File\<close> supplies it, cut at the
    nested allocation that a file of full size does not need.

  \<^bold>\<open>The kernel core.\<close>
  \<^item> \<open>Threads\<close> (\<open>threads/thread.c\<close>, \<open>threads/interrupt.c\<close>): the kernel state \<open>kstate\<close>, the run queue,
    \<open>schedule\<close>, priorities; \<open>Synch\<close> (\<open>threads/synch.c\<close>); \<open>Timer\<close> (\<open>devices/timer.c\<close>);
    \<open>Thread_Life\<close>: creation, start-up, exit and reaping. A function that can block is written in
    pieces: the piece up to the context switch pushes a continuation (\<open>kont\<close>) that names the rest of
    the function, and \<open>resume\<close> runs it when the scheduler picks the thread again.
  \<^item> \<open>Kernel_Inv\<close>, \<open>Kernel_Ops\<close>, \<open>Kernel_Steps\<close>: the invariants (\<open>kinv\<close>: every thread is in exactly
    the queue its status says, the run queue is what \<open>schedule\<close> assumes; \<open>core\<close> and \<open>lock_inv\<close>:
    locks, their holders and the priorities donated) and that every operation keeps them.
    \<open>kstep\<close> is one step of the machine: the running thread calls an operation or continues one, or
    the timer interrupt arrives; \<open>reach\<close> is its closure from the state after start-up.
  \<^item> \<open>Boot\<close>: start-up (\<open>boot_result\<close>: \<open>thread_init\<close>, \<open>thread_start\<close>, the idle thread's first run)
    establishes the invariants, so they hold of every reachable state; a concrete machine shows that
    the hypotheses can be met. \<open>Races\<close>: what happens between threads: waking order, donation along
    a chain, and the failures found.

  \<^bold>\<open>Bounds.\<close>
  \<open>run n\<close> runs at most n pieces of continuations; start-up needs seven. Nothing else is bounded: the
  theorems on reachable states are about runs of any length with any number of threads and locks.
  Calls in a run satisfy \<open>call_ok\<close>: the addresses of a fixed set L are used as locks and no others, a
  semaphore or lock is not initialised while threads wait on it, and a new thread gets a fresh page.
  A call whose assertions fail is not a step. The timer interrupt is taken between the pieces of
  operations, where interrupts are on.

  \<^bold>\<open>Not modelled.\<close>
  Hardware drivers (disk controller, console, keyboard, serial line, clock chips), the boot loader
  and the assembly stubs: they consist of port accesses and register moves. The disk controller
  appears as the contents of a device, the register switch as the change of the running thread.
  User programs, the host utilities and the tests are outside the kernel.
\<close>

section \<open>Printing and reading numbers\<close>

text \<open>
  C40: Printing and reading are inverse: for every \<open>int\<close>, \<open>snprintf\<close> with the format \<open>%d\<close> into a
  buffer of at least 12 bytes succeeds and \<open>atoi\<close> of the buffer returns the number printed.
\<close>

theorem snprintf_atoi_roundtrip:
  assumes "mapped m bf n" "bf \<noteq> NULL" "12 \<le> n" "n \<le> 2147483648"
  shows "\<exists>m' k. snprintf m bf n (lit ''%d'') [VInt w] = Some (m', k) \<and> atoi m' bf = Some (sint w)"
proof -
  let ?v = "nat \<bar>sint w\<bar>"
  let ?sg = "if sint w < 0 then [45 :: byte] else []"
  let ?out = "?sg @ dec_string ?v"
  have rng: "- 2147483648 \<le> sint w" "sint w < 2147483648"
    using sint_greater_eq [of w] sint_less [of w] by auto
  have "length (digs ?v) \<le> 10" by (rule length_digs) (use rng in auto)
  then have len: "length ?out \<le> 11" by (auto simp: dec_string_def)
  have "\<exists>m'. vsnprintf m bf n (lit ''%d'') [VInt w] = Some (m', int (length ?out)) \<and>
      buf m' bf (take (n - 1) ?out @ [0]) \<and> (\<forall>a. a < bf \<or> bf + n \<le> a \<longrightarrow> m' a = m a)"
  proof (rule vsnprintf_bounded_out [OF vprintf_d])
    show "int (length ?out) \<le> INT_MAX" using len by (simp add: INT_MAX_def)
  qed (use assms in auto)
  then obtain m' where m': "vsnprintf m bf n (lit ''%d'') [VInt w] = Some (m', int (length ?out))"
    "buf m' bf (take (n - 1) ?out @ [0])" by blast
  have "take (n - 1) ?out = ?out" using len assms(3) by simp
  with m'(2) have b: "buf m' bf ([] @ ?sg @ dec_string ?v @ [0])" by (simp only: append_Nil append_assoc)
  have "atoi m' bf = (if ?sg = [45] then cint (- dec_value 0 (dec_string ?v)) else cint (dec_value 0 (dec_string ?v)))"
    by (rule atoi_decimal [OF b assms(2)])
      (simp_all add: dec_string_props(1,2), simp add: digit_byte_def isdigit_def)
  also have "\<dots> = Some (sint w)"
    using rng by (auto simp: dec_string_props(3) cint_def INT_MIN_def INT_MAX_def)
  finally show ?thesis using m'(1) by (auto simp: snprintf_def)
qed

theorem snprintf_atoi_roundtrip_witness:
  "\<exists>m' k. snprintf (Cstring.demo_mem 1 (replicate 12 7)) 1 12 (lit ''%d'') [VInt (- 42)] = Some (m', k) \<and>
     atoi m' 1 = Some (- 42)"
proof -
  have "mapped (Cstring.demo_mem 1 (replicate 12 7)) 1 12" by (auto simp: mapped_def Cstring.demo_mem_def put_def)
  from snprintf_atoi_roundtrip [OF this, of "- 42"] show ?thesis by simp
qed

end
